(* ===== verification/Prelude.thy ===== *)
theory Prelude
  imports Main "HOL-Library.Word" "HOL-Library.Multiset" "HOL-Library.AList"
begin

text \<open>
  Shared vocabulary of the development: the outcome of a piece of Go code (it returns, it
  panics, or its goroutine blocks on a channel), sequential composition of such code over an
  explicit state, loops over slices, Go's nested maps with their nil-map panic, and a small
  calculus for invariants. Machine integers of type \<open>int64\<close> are 64-bit words read with
  \<open>sint\<close>; Go's \<open>int\<close>, used only for identifiers, slice indices and lengths, is \<open>int\<close>.
\<close>

named_theorems go_simps "unfolding of the operations of the Go monad"
named_theorems pres_intros "rules that decompose an invariant over sequential code"

type_synonym int64 = "64 word"
type_synonym byte = "8 word"
type_synonym bytes = "byte list"

section \<open>Outcomes of Go code\<close>

text \<open>
  A run-time panic kills the process; \<open>Blocked\<close> is a goroutine parked on a channel operation.
  Both keep the state reached, since sends and map writes done before are visible.
\<close>

datatype panic = IndexOutOfRange | NilDeref | NilMapWrite | DivideByZero | PanicMsg string

datatype ('a, 's) outcome = Done 'a 's | Panicked panic 's | Blocked 's

type_synonym ('s, 'a) go = "'s \<Rightarrow> ('a, 's) outcome"

primrec final :: "('a, 's) outcome \<Rightarrow> 's" where
  "final (Done a s) = s"
| "final (Panicked p s) = s"
| "final (Blocked s) = s"

primrec is_done :: "('a, 's) outcome \<Rightarrow> bool" where
  "is_done (Done a s) = True"
| "is_done (Panicked p s) = False"
| "is_done (Blocked s) = False"

definition ret :: "'a \<Rightarrow> ('s, 'a) go" where
  "ret a = (\<lambda>s. Done a s)"

definition panicG :: "panic \<Rightarrow> ('s, 'a) go" where
  "panicG p = (\<lambda>s. Panicked p s)"

definition blockG :: "('s, 'a) go" where
  "blockG = (\<lambda>s. Blocked s)"

definition bindG :: "('s, 'a) go \<Rightarrow> ('a \<Rightarrow> ('s, 'b) go) \<Rightarrow> ('s, 'b) go" where
  "bindG m f = (\<lambda>s. case m s of Done a s' \<Rightarrow> f a s' | Panicked p s' \<Rightarrow> Panicked p s' | Blocked s' \<Rightarrow> Blocked s')"

definition thenG :: "('s, 'a) go \<Rightarrow> ('s, 'b) go \<Rightarrow> ('s, 'b) go" where
  "thenG m k = bindG m (\<lambda>_. k)"

definition getG :: "('s \<Rightarrow> 'a) \<Rightarrow> ('s, 'a) go" where
  "getG f = (\<lambda>s. Done (f s) s)"

definition modG :: "('s \<Rightarrow> 's) \<Rightarrow> ('s, unit) go" where
  "modG f = (\<lambda>s. Done () (f s))"

text \<open>Indexing a slice: Go panics outside \<open>0 \<le> i < len(xs)\<close>.\<close>

definition idxG :: "'a list \<Rightarrow> int \<Rightarrow> ('s, 'a) go" where
  "idxG xs i = (if 0 \<le> i \<and> i < int (length xs) then ret (xs ! nat i) else panicG IndexOutOfRange)"

text \<open>\<open>for _, x := range xs\<close> with a body that only \<open>continue\<close>s, and one whose body may leave
  the function (\<open>False\<close>).\<close>

fun forG :: "'a list \<Rightarrow> ('a \<Rightarrow> ('s, unit) go) \<Rightarrow> ('s, unit) go" where
  "forG [] f = ret ()"
| "forG (x # xs) f = thenG (f x) (forG xs f)"

fun whileG :: "'a list \<Rightarrow> ('a \<Rightarrow> 'b \<Rightarrow> ('s, 'b option) go) \<Rightarrow> 'b \<Rightarrow> ('s, 'b option) go" where
  "whileG [] f acc = ret (Some acc)"
| "whileG (x # xs) f acc =
     bindG (f x acc) (\<lambda>r. case r of None \<Rightarrow> ret None | Some acc' \<Rightarrow> whileG xs f acc')"

lemma ret_app [simp, go_simps]: "ret a s = Done a s"
  by (simp add: ret_def)

lemma panicG_app [simp, go_simps]: "panicG p s = Panicked p s"
  by (simp add: panicG_def)

lemma blockG_app [simp, go_simps]: "blockG s = Blocked s"
  by (simp add: blockG_def)

lemma getG_app [simp, go_simps]: "getG f s = Done (f s) s"
  by (simp add: getG_def)

lemma modG_app [simp, go_simps]: "modG f s = Done () (f s)"
  by (simp add: modG_def)

lemma bindG_Done [simp]: "m s = Done a s' \<Longrightarrow> bindG m f s = f a s'"
  by (simp add: bindG_def)

lemma bindG_Panicked [simp]: "m s = Panicked p s' \<Longrightarrow> bindG m f s = Panicked p s'"
  by (simp add: bindG_def)

lemma bindG_Blocked [simp]: "m s = Blocked s' \<Longrightarrow> bindG m f s = Blocked s'"
  by (simp add: bindG_def)

lemma thenG_Done [simp]: "m s = Done a s' \<Longrightarrow> thenG m k s = k s'"
  by (simp add: thenG_def)

lemma thenG_Panicked [simp]: "m s = Panicked p s' \<Longrightarrow> thenG m k s = Panicked p s'"
  by (simp add: thenG_def)

lemma thenG_Blocked [simp]: "m s = Blocked s' \<Longrightarrow> thenG m k s = Blocked s'"
  by (simp add: thenG_def)

lemma bindG_DoneD: "bindG m f s = Done r t \<Longrightarrow> \<exists>a u. m s = Done a u \<and> f a u = Done r t"
  by (simp add: bindG_def split: outcome.splits)

lemma thenG_DoneD: "thenG m k s = Done r t \<Longrightarrow> \<exists>a u. m s = Done a u \<and> k u = Done r t"
  unfolding thenG_def by (rule bindG_DoneD)

lemma idxG_app [go_simps]:
  "idxG xs i s = (if 0 \<le> i \<and> i < int (length xs) then Done (xs ! nat i) s else Panicked IndexOutOfRange s)"
  by (simp add: idxG_def)

lemma idxG_in [simp]: "0 \<le> i \<Longrightarrow> i < int (length xs) \<Longrightarrow> idxG xs i s = Done (xs ! nat i) s"
  by (simp add: idxG_def)

lemma idxG_out [simp]: "\<not> (0 \<le> i \<and> i < int (length xs)) \<Longrightarrow> idxG xs i s = Panicked IndexOutOfRange s"
  by (auto simp add: idxG_def)

lemma forG_append: "forG (xs @ ys) f s = thenG (forG xs f) (forG ys f) s"
  by (induction xs arbitrary: s) (auto simp: thenG_def bindG_def split: outcome.splits)

section \<open>Invariants of sequential code\<close>

text \<open>\<open>pres I m\<close>: whatever the outcome of \<open>m\<close>, the state it leaves satisfies \<open>I\<close> again.\<close>

definition pres :: "('s \<Rightarrow> bool) \<Rightarrow> ('s, 'a) go \<Rightarrow> bool" where
  "pres I m \<longleftrightarrow> (\<forall>s. I s \<longrightarrow> I (final (m s)))"

lemma presI: "(\<And>s. I s \<Longrightarrow> I (final (m s))) \<Longrightarrow> pres I m"
  by (simp add: pres_def)

lemma presD: "pres I m \<Longrightarrow> I s \<Longrightarrow> I (final (m s))"
  by (simp add: pres_def)

lemma pres_ret [pres_intros, simp]: "pres I (ret a)"
  by (simp add: pres_def)

lemma pres_panicG [pres_intros, simp]: "pres I (panicG p)"
  by (simp add: pres_def)

lemma pres_blockG [pres_intros, simp]: "pres I blockG"
  by (simp add: pres_def)

lemma pres_getG [pres_intros, simp]: "pres I (getG f)"
  by (simp add: pres_def)

lemma pres_idxG [pres_intros, simp]: "pres I (idxG xs i)"
  by (simp add: idxG_def)

lemma pres_modG [pres_intros]: "(\<And>s. I s \<Longrightarrow> I (f s)) \<Longrightarrow> pres I (modG f)"
  by (simp add: pres_def)

lemma pres_bindG [pres_intros]:
  "pres I m \<Longrightarrow> (\<And>a. pres I (f a)) \<Longrightarrow> pres I (bindG m f)"
  unfolding pres_def bindG_def
  by (fastforce split: outcome.split)

lemma pres_thenG [pres_intros]: "pres I m \<Longrightarrow> pres I k \<Longrightarrow> pres I (thenG m k)"
  by (simp add: thenG_def pres_bindG)

lemma pres_if [pres_intros]: "(c \<Longrightarrow> pres I m) \<Longrightarrow> (\<not> c \<Longrightarrow> pres I k) \<Longrightarrow> pres I (if c then m else k)"
  by simp

lemma pres_option [pres_intros]:
  "pres I m \<Longrightarrow> (\<And>x. pres I (f x)) \<Longrightarrow> pres I (case opt of None \<Rightarrow> m | Some x \<Rightarrow> f x)"
  by (cases opt) auto

lemma pres_forG [pres_intros]: "(\<And>x. pres I (f x)) \<Longrightarrow> pres I (forG xs f)"
  by (induction xs) (auto intro: pres_intros)

lemma pres_whileG [pres_intros]: "(\<And>x a. pres I (f x a)) \<Longrightarrow> pres I (whileG xs f acc)"
  by (induction xs arbitrary: acc) (auto intro!: pres_intros)

section \<open>Nested Go maps\<close>

text \<open>
  \<open>map[K1]map[K2]V\<close>. Reading through a missing outer key reads a nil map and yields nothing;
  writing through one panics.
\<close>

type_synonym ('a, 'b, 'v) nmap = "'a \<Rightarrow> ('b \<Rightarrow> 'v option) option"

definition nget :: "('a, 'b, 'v) nmap \<Rightarrow> 'a \<Rightarrow> 'b \<Rightarrow> 'v option" where
  "nget m a b = (case m a of None \<Rightarrow> None | Some mm \<Rightarrow> mm b)"

text \<open>\<open>if _, ok := m[a]; !ok { m[a] = make(...) }\<close>\<close>

definition nmake :: "('a, 'b, 'v) nmap \<Rightarrow> 'a \<Rightarrow> ('a, 'b, 'v) nmap" where
  "nmake m a = (case m a of None \<Rightarrow> m(a \<mapsto> Map.empty) | Some _ \<Rightarrow> m)"

text \<open>\<open>m[a][b] = v\<close>, or nothing when \<open>m[a]\<close> is nil.\<close>

definition nput :: "('a, 'b, 'v) nmap \<Rightarrow> 'a \<Rightarrow> 'b \<Rightarrow> 'v \<Rightarrow> ('a, 'b, 'v) nmap option" where
  "nput m a b v = (case m a of None \<Rightarrow> None | Some mm \<Rightarrow> Some (m(a \<mapsto> mm(b \<mapsto> v))))"

text \<open>The three lines in a row, which never panic.\<close>

definition nset :: "('a, 'b, 'v) nmap \<Rightarrow> 'a \<Rightarrow> 'b \<Rightarrow> 'v \<Rightarrow> ('a, 'b, 'v) nmap" where
  "nset m a b v = m(a \<mapsto> (case m a of None \<Rightarrow> Map.empty | Some mm \<Rightarrow> mm)(b \<mapsto> v))"

lemma nput_nmake: "nput (nmake m a) a b v = Some (nset m a b v)"
  by (auto simp: nput_def nmake_def nset_def split: option.splits)

lemma nput_Some: "m a = Some mm \<Longrightarrow> nput m a b v = Some (nset m a b v)"
  by (simp add: nput_def nset_def)

lemma nget_nset [simp]:
  "nget (nset m a b v) a' b' = (if a' = a \<and> b' = b then Some v else nget m a' b')"
  by (auto simp: nget_def nset_def split: option.splits)

lemma nset_outer [simp]: "nset m a b v a \<noteq> None"
  by (simp add: nset_def)

lemma nset_outer_other [simp]: "a' \<noteq> a \<Longrightarrow> nset m a b v a' = m a'"
  by (simp add: nset_def)

lemma nget_nmake [simp]: "nget (nmake m a) a' b' = nget m a' b'"
  by (auto simp: nget_def nmake_def split: option.splits)

lemma nget_outer: "nget m a b = Some v \<Longrightarrow> m a \<noteq> None"
  by (auto simp: nget_def split: option.splits)

lemma nget_empty [simp]: "nget Map.empty a b = None"
  by (simp add: nget_def)

lemma nset_overwrite [simp]: "nset (nset m a b v) a b w = nset m a b w"
  by (simp add: nset_def fun_upd_def fun_eq_iff)

section \<open>Association lists for maps that the code ranges over\<close>

text \<open>
  A Go map the code iterates is an association list with distinct keys; the order in which
  \<open>range\<close> visits it is chosen by the runtime, so the code's theorems hold for every order.
\<close>

abbreviation alput :: "'k \<Rightarrow> 'v \<Rightarrow> ('k \<times> 'v) list \<Rightarrow> ('k \<times> 'v) list" where
  "alput \<equiv> AList.update"

lemma alput_new: "k \<notin> fst ` set m \<Longrightarrow> alput k v m = m @ [(k, v)]"
  by (induction m) auto

lemma alput_keys: "fst ` set (alput k v m) = insert k (fst ` set m)"
  by (induction m) auto

lemmas alput_facts = update_conv distinct_update alput_keys

section \<open>Signed 64-bit arithmetic\<close>

text \<open>Go's \<open>%\<close> on \<open>int64\<close> truncates towards zero and panics on a zero divisor.\<close>

definition rem64 :: "int64 \<Rightarrow> int64 \<Rightarrow> int64" where
  "rem64 a b = word_of_int (sgn (sint a) * (\<bar>sint a\<bar> mod \<bar>sint b\<bar>))"

definition remG :: "int64 \<Rightarrow> int64 \<Rightarrow> ('s, int64) go" where
  "remG a b = (if b = 0 then panicG DivideByZero else ret (rem64 a b))"

lemma pres_remG [pres_intros, simp]: "pres I (remG a b)"
  by (simp add: remG_def)

end
