(* ===== verification/Go_Std.thy ===== *)
theory Go_Std
  imports Prelude "HOL-Library.List_Lexorder" "HOL-Library.Char_ord"
begin

text \<open>
  The parts of Go's standard library the program computes with, executable: decimal
  conversion (\<open>strconv\<close>), splitting and joining of strings, hexadecimal text
  (\<open>encoding/hex\<close>), line scanning (\<open>bufio.ScanLines\<close>) and JSON text of the two map types the
  program serialises (\<open>encoding/json\<close>, with its base64 of byte slices). A Go string is a list of bytes,
  here HOL's \<open>string\<close>.
\<close>

section \<open>Decimal text\<close>

fun digits10 :: "nat \<Rightarrow> string" where
  "digits10 n = (if n < 10 then [char_of (48 + n)] else digits10 (n div 10) @ [char_of (48 + n mod 10)])"

declare digits10.simps [simp del]

text \<open>\<open>strconv.Itoa\<close>, and \<open>fmt.Sprintf("%d", v)\<close>.\<close>

definition itoa :: "int \<Rightarrow> string" where
  "itoa i = (if i < 0 then CHR ''-'' # digits10 (nat (- i)) else digits10 (nat i))"

definition is_digit :: "char \<Rightarrow> bool" where
  "is_digit c \<longleftrightarrow> 48 \<le> (of_char c :: nat) \<and> (of_char c :: nat) \<le> 57"

definition digit_val :: "char \<Rightarrow> nat" where
  "digit_val c = of_char c - 48"

definition undigits :: "string \<Rightarrow> nat" where
  "undigits cs = foldl (\<lambda>n c. 10 * n + digit_val c) 0 cs"

text \<open>\<open>strconv.Atoi\<close>: an optional sign, at least one digit, digits only, and a value that
  fits a 64-bit \<open>int\<close>; \<open>None\<close> stands for its error.\<close>

definition atoi :: "string \<Rightarrow> int option" where
  "atoi cs =
     (let neg = (cs \<noteq> [] \<and> hd cs = CHR ''-'');
          ds = (if cs \<noteq> [] \<and> (hd cs = CHR ''-'' \<or> hd cs = CHR ''+'') then tl cs else cs);
          v = (if neg then - int (undigits ds) else int (undigits ds))
      in if ds = [] \<or> \<not> list_all is_digit ds then None
         else if v < - (2 ^ 63) \<or> v \<ge> 2 ^ 63 then None else Some v)"

lemma digit_char [simp]: "d < 10 \<Longrightarrow> is_digit (char_of (48 + d))" "d < 10 \<Longrightarrow> digit_val (char_of (48 + d)) = d"
  by (simp_all add: is_digit_def digit_val_def)

lemma digits10_nonempty [simp]: "digits10 n \<noteq> []"
  by (subst digits10.simps) simp

lemma digits10_digits: "list_all is_digit (digits10 n)"
proof (induction n rule: digits10.induct)
  case (1 n)
  then show ?case by (subst digits10.simps) auto
qed

lemma undigits_snoc: "undigits (cs @ [c]) = 10 * undigits cs + digit_val c"
  by (simp add: undigits_def)

lemma undigits_digits10 [simp]: "undigits (digits10 n) = n"
proof (induction n rule: digits10.induct)
  case (1 n)
  show ?case
  proof (cases "n < 10")
    case True
    then show ?thesis by (subst digits10.simps) (simp add: undigits_def)
  next
    case False
    then show ?thesis
      using "1.IH" by (subst digits10.simps) (simp add: undigits_snoc)
  qed
qed

lemma digits10_inj: "digits10 m = digits10 n \<Longrightarrow> m = n"
  by (metis undigits_digits10)

lemma is_digit_sign: "is_digit c \<Longrightarrow> c \<noteq> CHR ''-'' \<and> c \<noteq> CHR ''+''"
  by (auto simp: is_digit_def)

lemma hd_digits10: "is_digit (hd (digits10 n))"
  using digits10_digits [of n] by (metis digits10_nonempty list.collapse list.pred_inject(2))

text \<open>Parsing undoes printing for every value an \<open>int\<close> can hold.\<close>

lemma atoi_itoa:
  assumes "- (2 ^ 63) \<le> i" and "i < 2 ^ 63"
  shows "atoi (itoa i) = Some i"
proof (cases "i < 0")
  case True
  then show ?thesis
    using assms digits10_digits [of "nat (- i)"] by (simp add: atoi_def itoa_def Let_def)
next
  case False
  then show ?thesis
    using assms digits10_digits [of "nat i"] is_digit_sign [OF hd_digits10 [of "nat i"]]
    by (simp add: atoi_def itoa_def Let_def)
qed

lemma itoa_inj: "itoa i = itoa j \<Longrightarrow> i = j"
proof -
  assume eq: "itoa i = itoa j"
  have no_sign: "digits10 m \<noteq> CHR ''-'' # cs" for m cs
    using is_digit_sign [OF hd_digits10 [of m]] by (metis list.sel(1))
  show "i = j"
  proof (cases "i < 0"; cases "j < 0")
    assume "i < 0" "j < 0"
    then show ?thesis using eq by (auto simp: itoa_def dest!: digits10_inj)
  next
    assume "i < 0" "\<not> j < 0"
    then show ?thesis using eq no_sign by (simp add: itoa_def) (metis no_sign)
  next
    assume "\<not> i < 0" "j < 0"
    then show ?thesis using eq no_sign by (simp add: itoa_def)
  next
    assume "\<not> i < 0" "\<not> j < 0"
    then show ?thesis using eq by (auto simp: itoa_def dest!: digits10_inj)
  qed
qed

lemma itoa_nonempty [simp]: "itoa i \<noteq> []"
  by (simp add: itoa_def)

lemma itoa_chars: "c \<in> set (itoa i) \<Longrightarrow> is_digit c \<or> c = CHR ''-''"
  using digits10_digits by (auto simp: itoa_def list_all_iff split: if_splits)

lemma itoa_no_slash [simp]: "CHR ''/'' \<notin> set (itoa i)"
  using itoa_chars [of "CHR ''/''" i] by (auto simp: is_digit_def)

section \<open>Splitting and joining\<close>

text \<open>\<open>strings.Split(s, sep)\<close> for a one-byte separator: empty fields are kept.\<close>

fun split_on :: "char \<Rightarrow> string \<Rightarrow> string list" where
  "split_on sep [] = [[]]"
| "split_on sep (c # cs) =
     (if c = sep then [] # split_on sep cs
      else (case split_on sep cs of [] \<Rightarrow> [[c]] | w # ws \<Rightarrow> (c # w) # ws))"

lemma split_on_nonempty [simp]: "split_on sep cs \<noteq> []"
  by (induction cs) (auto split: list.splits)

lemma split_on_word: "sep \<notin> set w \<Longrightarrow> split_on sep w = [w]"
  by (induction w) auto

lemma split_on_sep: "sep \<notin> set w \<Longrightarrow> split_on sep (w @ sep # cs) = w # split_on sep cs"
  by (induction w) auto

text \<open>Fields joined by the separator.\<close>

fun join_on :: "char \<Rightarrow> string list \<Rightarrow> string" where
  "join_on sep [] = []"
| "join_on sep [w] = w"
| "join_on sep (w # ws) = w @ sep # join_on sep ws"

lemma split_join:
  "ws \<noteq> [] \<Longrightarrow> \<forall>w \<in> set ws. sep \<notin> set w \<Longrightarrow> split_on sep (join_on sep ws) = ws"
  by (induction sep ws rule: join_on.induct) (auto simp: split_on_word split_on_sep)

section \<open>Hexadecimal text\<close>

definition hex_digit :: "nat \<Rightarrow> char" where
  "hex_digit n = (if n < 10 then char_of (48 + n) else char_of (87 + n))"

text \<open>\<open>hex.EncodeToString\<close>: two lower-case digits per byte.\<close>

fun hex_encode :: "bytes \<Rightarrow> string" where
  "hex_encode [] = []"
| "hex_encode (b # bs) = hex_digit (unat b div 16) # hex_digit (unat b mod 16) # hex_encode bs"

definition hex_val :: "char \<Rightarrow> nat option" where
  "hex_val c = (let n = (of_char c :: nat) in
     if 48 \<le> n \<and> n \<le> 57 then Some (n - 48)
     else if 97 \<le> n \<and> n \<le> 102 then Some (n - 87)
     else if 65 \<le> n \<and> n \<le> 70 then Some (n - 55)
     else None)"

text \<open>\<open>hex.DecodeString\<close>: either case, an error on other bytes and on an odd length.\<close>

fun hex_decode :: "string \<Rightarrow> bytes option" where
  "hex_decode [] = Some []"
| "hex_decode [c] = None"
| "hex_decode (c # d # cs) =
     (case hex_val c of None \<Rightarrow> None | Some h \<Rightarrow>
      (case hex_val d of None \<Rightarrow> None | Some l \<Rightarrow>
       (case hex_decode cs of None \<Rightarrow> None | Some bs \<Rightarrow> Some (of_nat (16 * h + l) # bs))))"

lemma hex_val_digit [simp]: "n < 16 \<Longrightarrow> hex_val (hex_digit n) = Some n"
  by (auto simp: hex_val_def hex_digit_def Let_def)

lemma byte_lt [simp]: "unat (b :: byte) < 256"
  using unsigned_less [of b] by simp

lemma hex_roundtrip: "hex_decode (hex_encode bs) = Some bs"
proof (induction bs)
  case (Cons b bs)
  have "unat b div 16 < 16" using byte_lt [of b] by arith
  then show ?case using Cons by simp
qed simp

lemma hex_encode_length [simp]: "length (hex_encode bs) = 2 * length bs"
  by (induction bs) auto

lemma hex_encode_chars: "c \<in> set (hex_encode bs) \<Longrightarrow> \<exists>n < 16. c = hex_digit n"
proof (induction bs)
  case (Cons b bs)
  have "unat b div 16 < 16" using byte_lt [of b] by arith
  moreover have "unat b mod 16 < 16" by simp
  ultimately show ?case using Cons by (metis hex_encode.simps(2) set_ConsD)
qed simp

lemma hex_encode_no_newline: "char_of (10 :: nat) \<notin> set (hex_encode bs)" "char_of (13 :: nat) \<notin> set (hex_encode bs)"
  by (auto dest!: hex_encode_chars simp: hex_digit_def split: if_splits)

section \<open>Line scanning\<close>

abbreviation newline :: char where
  "newline \<equiv> char_of (10 :: nat)"

abbreviation carriage :: char where
  "carriage \<equiv> char_of (13 :: nat)"

definition drop_cr :: "string \<Rightarrow> string" where
  "drop_cr l = (if l \<noteq> [] \<and> last l = carriage then butlast l else l)"

text \<open>The pieces between newlines; text after the last newline is a piece when it is not empty.\<close>

fun raw_lines :: "string \<Rightarrow> string \<Rightarrow> string list" where
  "raw_lines acc [] = (if acc = [] then [] else [acc])"
| "raw_lines acc (c # cs) = (if c = newline then acc # raw_lines [] cs else raw_lines (acc @ [c]) cs)"

text \<open>
  A \<open>bufio.Scanner\<close> with \<open>ScanLines\<close>: it stops, with an error the code never asks for, at the
  first line that does not fit its 65536-byte buffer.
\<close>

definition scan_lines :: "string \<Rightarrow> string list" where
  "scan_lines cs = map drop_cr (takeWhile (\<lambda>l. length l < 65536) (raw_lines [] cs))"

lemma raw_lines_line: "newline \<notin> set w \<Longrightarrow> raw_lines acc (w @ newline # cs) = (acc @ w) # raw_lines [] cs"
  by (induction w arbitrary: acc) auto

lemma scan_lines_concat:
  assumes "\<forall>l \<in> set ls. newline \<notin> set l \<and> carriage \<notin> set l \<and> length l < 65536"
  shows "scan_lines (concat (map (\<lambda>l. l @ [newline]) ls)) = ls"
proof -
  have raw: "raw_lines [] (concat (map (\<lambda>l. l @ [newline]) ls)) = ls"
    using assms by (induction ls) (auto simp: raw_lines_line)
  have cr: "drop_cr l = l" if "l \<in> set ls" for l
    using assms that by (metis drop_cr_def last_in_set)
  have short: "takeWhile (\<lambda>l. length l < 65536) ls = ls"
    using assms by (simp add: takeWhile_eq_all_conv)
  show ?thesis unfolding scan_lines_def raw short by (rule map_idI) (rule cr)
qed

section \<open>JSON text\<close>

definition bytes_of_string :: "string \<Rightarrow> bytes" where
  "bytes_of_string cs = map (\<lambda>c. of_nat (of_char c)) cs"

definition b64_digit :: "nat \<Rightarrow> char" where
  "b64_digit n = (if n < 26 then char_of (65 + n) else if n < 52 then char_of (71 + n)
     else if n < 62 then char_of (n - 4) else if n = 62 then CHR ''+'' else CHR ''/'')"

text \<open>Standard base64 with padding, as \<open>encoding/json\<close> writes a \<open>[]byte\<close>.\<close>

fun base64 :: "bytes \<Rightarrow> string" where
  "base64 [] = []"
| "base64 [a] = (let n = unat a * 16 in [b64_digit (n div 64), b64_digit (n mod 64)] @ ''=='')"
| "base64 [a, b] = (let n = (unat a * 256 + unat b) * 4 in
     [b64_digit (n div 4096), b64_digit (n div 64 mod 64), b64_digit (n mod 64)] @ ''='')"
| "base64 (a # b # c # bs) = (let n = (unat a * 256 + unat b) * 256 + unat c in
     [b64_digit (n div 262144), b64_digit (n div 4096 mod 64), b64_digit (n div 64 mod 64), b64_digit (n mod 64)])
     @ base64 bs"

definition json_string :: "string \<Rightarrow> string" where
  "json_string cs = [CHR 0x22] @ cs @ [CHR 0x22]"

text \<open>An object: the keys printed in decimal, sorted as strings, then \<open>"k":v\<close> with commas.\<close>

definition json_object :: "(string \<times> string) list \<Rightarrow> string" where
  "json_object m = ''{'' @ join_on (CHR '','') (map (\<lambda>(k, v). json_string k @ '':'' @ v) (sort_key fst m)) @ ''}''"

lemma base64_examples:
  "base64 (bytes_of_string ''Man'') = ''TWFu''"
  "base64 (bytes_of_string ''Ma'') = ''TWE=''"
  "base64 (bytes_of_string ''M'') = ''TQ==''"
  by (simp_all add: bytes_of_string_def b64_digit_def char_of_def bit_0)

end
