(* ===== verification/Messages.thy ===== *)
theory Messages
  imports Go_Std
begin

text \<open>
  The wire format (\<open>msgformat.go\<close>), the booth of \<open>mmu.go\<close> and the phases and identifier
  helpers of \<open>parameters.go\<close>. Go's structs share field names; a record field carries its
  message's name as a prefix (\<open>opa_Hash\<close> is \<open>ProposerOPAEntry.Hash\<close>). The embedded \<open>Booth\<close> is
  the field \<open>opa_Booth\<close>, \<open>opb_Booth\<close>, and so on. A nil slice is the empty list: gob does not
  transmit the difference, and the code tests for nil only slices it grew by \<open>append\<close> from nil.
  A map that is ranged over or transmitted is an association list.
\<close>

section \<open>Phases and identifiers\<close>

datatype phase = OPA | OPB | CPA | CPB | TIME

definition phases :: "phase list" where
  "phases = [OPA, OPB, CPA, CPB, TIME]"

definition NOP :: int where
  "NOP = 5"

text \<open>The value of the \<open>iota\<close> constant.\<close>

primrec phase_num :: "phase \<Rightarrow> int" where
  "phase_num OPA = 0"
| "phase_num OPB = 1"
| "phase_num CPA = 2"
| "phase_num CPB = 3"
| "phase_num TIME = 4"

lemma phase_num_inj: "phase_num p = phase_num q \<Longrightarrow> p = q"
  by (cases p; cases q) simp_all

lemma phases_all: "p \<in> set phases"
  by (cases p) (simp_all add: phases_def)

instantiation phase :: linorder
begin

definition less_eq_phase :: "phase \<Rightarrow> phase \<Rightarrow> bool" where
  "less_eq_phase p q \<longleftrightarrow> phase_num p \<le> phase_num q"

definition less_phase :: "phase \<Rightarrow> phase \<Rightarrow> bool" where
  "less_phase p q \<longleftrightarrow> phase_num p < phase_num q"

instance
  by standard (auto simp: less_eq_phase_def less_phase_def intro: phase_num_inj)

end

lemma phases_sorted: "sorted phases \<and> distinct phases"
  by (simp add: phases_def less_eq_phase_def)

text \<open>\<open>BooIndices.Contain\<close>: a linear search.\<close>

fun Contain :: "int list \<Rightarrow> int \<Rightarrow> bool" where
  "Contain [] target = False"
| "Contain (v # b) target = (if v = target then True else Contain b target)"

lemma Contain_iff [simp]: "Contain b target \<longleftrightarrow> target \<in> set b"
  by (induction b) auto

section \<open>Messages\<close>

record Booth =
  ID :: int
  Indices :: "int list"

record Proposal =
  Timestamp :: int64
  Transaction :: bytes

record Entry =
  TimeStamp :: int64
  Tx :: bytes

record simulationStartTimeSyncMessage =
  sync_Time :: int64
  sync_ProposerId :: int

record ProposerOPAEntry =
  opa_Booth :: Booth
  opa_BlockId :: int64
  opa_BlockchainId :: int
  opa_Entries :: "(int \<times> Entry) list"
  opa_Hash :: bytes

record ValidatorOPAReply =
  opar_BlockchainId :: int
  opar_BlockId :: int64
  opar_ParSig :: bytes

record ProposerOPBEntry =
  opb_Booth :: Booth
  opb_BlockchainId :: int
  opb_BlockId :: int64
  opb_CombSig :: bytes
  opb_Entries :: "(int \<times> Entry) list"
  opb_Hash :: bytes

record ProposerCPAEntry =
  cpa_PrevOPBEntries :: "ProposerOPBEntry list"
  cpa_Booth :: Booth
  cpa_BlockchainId :: int
  cpa_BIDs :: "int64 list"
  cpa_ConsInstID :: int
  cpa_RangeHash :: "(int64 \<times> bytes) list"
  cpa_TotalHash :: bytes

definition SetPrevOPBEntries :: "ProposerCPAEntry \<Rightarrow> ProposerOPBEntry list \<Rightarrow> ProposerCPAEntry" where
  "SetPrevOPBEntries p m = p\<lparr>cpa_PrevOPBEntries := m\<rparr>"

record ValidatorCPAReply =
  cpar_BlockchainId :: int
  cpar_ConsInstID :: int
  cpar_ParSig :: bytes

record ProposerCPBEntry =
  cpb_Booth :: Booth
  cpb_BlockchainId :: int
  cpb_ConsInstID :: int
  cpb_ComSig :: bytes
  cpb_Hash :: bytes

record ValidatorCPBReply =
  cpbr_BlockchainId :: int
  cpbr_ConsInstID :: int
  cpbr_Done :: bool

text \<open>
  What an encoder sends. \<open>Between\<close> is \<open>BetweenProposerMsg\<close>, whose \<open>Message any\<close> field can
  hold any registered message.
\<close>

datatype msg =
    OPAEntry ProposerOPAEntry
  | OPAReply ValidatorOPAReply
  | OPBEntry ProposerOPBEntry
  | CPAEntry ProposerCPAEntry
  | CPAReply ValidatorCPAReply
  | CPBEntry ProposerCPBEntry
  | CPBReply ValidatorCPBReply
  | TimeSync simulationStartTimeSyncMessage
  | Between (Message: msg) (Sender: int) (Recipient: int) (Phase: phase)

text \<open>The zero value of \<open>Booth\<close>, read from a map that has no entry.\<close>

definition zero_Booth :: Booth where
  "zero_Booth = \<lparr>ID = 0, Indices = []\<rparr>"

section \<open>Serialisation (\<open>utilities.go\<close>)\<close>

text \<open>
  \<open>serialization\<close> is \<open>json.Marshal\<close>; the program applies it to a block's entries and to the
  hashes of a consensus range. Marshalling these types cannot fail, so the result is always
  \<open>Some\<close>; callers keep their error branch.
\<close>

definition json_Entry :: "Entry \<Rightarrow> string" where
  "json_Entry e = ''{'' @ json_string ''TimeStamp'' @ '':'' @ itoa (sint (TimeStamp e)) @ '',''
     @ json_string ''Tx'' @ '':'' @ json_string (base64 (Tx e)) @ ''}''"

definition serialization_entries :: "(int \<times> Entry) list \<Rightarrow> bytes option" where
  "serialization_entries m = Some (bytes_of_string (json_object (map (\<lambda>(k, e). (itoa k, json_Entry e)) m)))"

definition serialization_hashes :: "(int64 \<times> bytes) list \<Rightarrow> bytes option" where
  "serialization_hashes m =
     Some (bytes_of_string (json_object (map (\<lambda>(k, h). (itoa (sint k), json_string (base64 h))) m)))"

end
