(* ===== verification/Globals.thy ===== *)
theory Globals
  imports Messages
begin

text \<open>
  The package-level variables of the program as one record \<open>node\<close> (one running process), its
  command-line parameters as \<open>cfg\<close>, and the world outside the repository as parameters: \<open>env\<close>
  (clock, outcome of each network send, SHA-256, float formatting, the contents of the simulator's JSON files, with \<open>None\<close> for a file that cannot be opened, read or
  decoded, and the order in which \<open>range\<close> visits a map) and \<open>kyber\<close> (threshold BLS signatures). Channels of capacity one
  that only carry a token are the number of tokens they hold. Log output is left out.
\<close>

section \<open>Command-line parameters (\<open>parameters.go\<close>)\<close>

record cfg =
  BatchSize :: int
  MsgSize :: int
  MsgLoad :: int64
  NumOfValidators :: int
  NumOfConn :: int
  ServerID :: int
  PerfMetres :: bool
  LatMetreInterval :: int64
  YieldCycle :: int
  ConsWaitingSec :: int
  MainProposerId :: int
  UsePeriodicOrdering :: bool
  OrderingPeriodMs :: int
  ProposerList :: "int list"
  EvaluateComPossibilityFlag :: bool
  AllowBypassRoute :: bool

section \<open>Global state\<close>

text \<open>\<open>blockSnapshot\<close> of \<open>cache.go\<close>, less its lock.\<close>

record blockSnapshot =
  hash :: bytes
  entries :: "(int \<times> Entry) list"
  sigs :: "bytes list"
  tSig :: bytes
  booth :: Booth

record IDRecorder =
  blockIDs :: "int64 list"
  lastIdx :: nat

record ServerInfo =
  Index :: int
  Ip :: string
  Ports :: "int \<rightharpoonup> string"

text \<open>\<open>ConnDock\<close>: a registered connection, by the server it leads to.\<close>

record ConnDock =
  SID :: int
  remote :: string

text \<open>Where an \<open>Encode\<close> goes: through \<open>concierge.n[phase][i]\<close> or \<open>dialogMgr.conns[phase][i]\<close>.\<close>

datatype dest = Concierge phase int | Dialog phase int

record transmission =
  to :: dest
  body :: msg
  failed :: bool

record node =
  booMgr_b :: "Booth list"
  booMgr_index :: "string \<rightharpoonup> int"
  logIndex :: int64
  boothID :: int
  ordSnapshot :: "(int, int64, blockSnapshot) nmap"
  cmtSnapshot :: "(int, int64, blockSnapshot) nmap"
  vgTxMeta_sigs :: "(int, int, bytes list) nmap"
  vgTxMeta_hash :: "(int, int, bytes) nmap"
  vgTxMeta_blockIDs :: "(int, int, int64 list) nmap"
  vgTxData_tx :: "(int, int, (string \<rightharpoonup> Entry list list)) nmap"
  vgTxData_boo :: "(int, int, Booth) nmap"
  vgrec :: IDRecorder
  valiOrdJobStack :: "(int, int64, nat) nmap"
  valiConsJobStack :: "(int, int, nat) nmap"
  metre_startTime :: "(int64 \<times> int64) list"
  metre_orderTime :: "(int64 \<times> int64) list"
  broadcastError :: bool
  concierge :: "phase \<Rightarrow> ConnDock option list"
  dialogMgr :: "phase \<Rightarrow> int \<rightharpoonup> ConnDock"
  proposerLookup :: "phase \<Rightarrow> int list"
  blockchainInfo :: "(int, phase, int) nmap"
  serverIdLookup :: "string \<rightharpoonup> int"
  ServerList :: "ServerInfo list"
  ValidatorList :: "int list"
  requestQueue :: "Proposal list list"
  proToValComTimeMap :: "(int, string, int list) nmap"
  valToProComTimeMap :: "(int, string, int list) nmap"
  participantVehicleTimeData :: "string \<rightharpoonup> int list"
  simulationStartTime :: int64
  vgInst :: int
  files :: "string \<rightharpoonup> string"
  sent :: "transmission list"
  clock_reads :: nat

text \<open>The state before \<open>init()\<close>: every map empty, every counter zero.\<close>

definition init_node :: node where
  "init_node = \<lparr>
     booMgr_b = [], booMgr_index = Map.empty, logIndex = 0, boothID = 0,
     ordSnapshot = Map.empty, cmtSnapshot = Map.empty,
     vgTxMeta_sigs = Map.empty, vgTxMeta_hash = Map.empty, vgTxMeta_blockIDs = Map.empty,
     vgTxData_tx = Map.empty, vgTxData_boo = Map.empty,
     vgrec = \<lparr>blockIDs = [], lastIdx = 0\<rparr>,
     valiOrdJobStack = Map.empty, valiConsJobStack = Map.empty,
     metre_startTime = [], metre_orderTime = [],
     broadcastError = False,
     concierge = (\<lambda>_. []), dialogMgr = (\<lambda>_. Map.empty),
     proposerLookup = (\<lambda>_. []), blockchainInfo = Map.empty, serverIdLookup = Map.empty,
     ServerList = [], ValidatorList = [], requestQueue = [],
     proToValComTimeMap = Map.empty, valToProComTimeMap = Map.empty,
     participantVehicleTimeData = Map.empty, simulationStartTime = 0, vgInst = 0,
     files = Map.empty, sent = [], clock_reads = 0\<rparr>"

section \<open>The world outside the repository\<close>

record env =
  sha256 :: "bytes \<Rightarrow> bytes"
  encErr :: "nat \<Rightarrow> bool"
  unixMilli :: "nat \<Rightarrow> int64"
  formatPast :: "int64 \<Rightarrow> int64 \<Rightarrow> string"
  arteryFile :: "int \<Rightarrow> (string \<rightharpoonup> int list) option"
  communicationFile :: "int \<Rightarrow> (string \<times> int list) list option"
  rangeEntries :: "(int \<times> Entry) list \<Rightarrow> (int \<times> Entry) list"

text \<open>
  \<open>share.PriShare\<close> has the fields \<open>I\<close> and \<open>V\<close> the code assigns. Scalars, points and public
  polynomials are type parameters. \<open>PenSign\<close>, \<open>PenRecovery\<close> and \<open>PenVerify\<close> call
  \<open>tblsSign\<close>, \<open>tblsRecover\<close> and \<open>blsVerify\<close> (with \<open>pub.Commit()\<close> folded in). The first
  argument of \<open>newPriPoly\<close> is the random draw, its second the threshold, its result the
  coefficients, none for a threshold that is not positive; \<open>evalShares\<close> is \<open>PriPoly.Shares\<close>.
\<close>

record 'sc priShare =
  I :: int
  V :: 'sc

record ('sc, 'pt, 'pub) kyber =
  marshalScalar :: "'sc \<Rightarrow> bytes option"
  unmarshalScalar :: "bytes \<Rightarrow> 'sc option"
  mulBase :: "'sc \<Rightarrow> 'pt"
  newPubPoly :: "'pt list \<Rightarrow> 'pub"
  newPriPoly :: "int \<Rightarrow> int \<Rightarrow> 'sc list"
  evalShares :: "'sc list \<Rightarrow> int \<Rightarrow> 'sc priShare list"
  tblsSign :: "'sc priShare \<Rightarrow> bytes \<Rightarrow> bytes option"
  tblsRecover :: "'pub \<Rightarrow> bytes \<Rightarrow> bytes list \<Rightarrow> int \<Rightarrow> int \<Rightarrow> bytes option"
  blsVerify :: "'pub \<Rightarrow> bytes \<Rightarrow> bytes \<Rightarrow> bool"

section \<open>Primitive effects\<close>

text \<open>\<open>time.Now().UnixMilli()\<close>: successive reads see successive values of an arbitrary clock.\<close>

definition nowG :: "env \<Rightarrow> (node, int64) go" where
  "nowG en = (\<lambda>s. Done (unixMilli en (clock_reads s)) (s\<lparr>clock_reads := Suc (clock_reads s)\<rparr>))"

text \<open>One \<open>Encode\<close> on a live encoder: the attempt is recorded and its error returned.\<close>

definition encodeG :: "env \<Rightarrow> dest \<Rightarrow> msg \<Rightarrow> (node, bool) go" where
  "encodeG en d m = (\<lambda>s. let e = encErr en (length (sent s)) in
     Done e (s\<lparr>sent := sent s @ [\<lparr>to = d, body = m, failed = e\<rparr>]\<rparr>))"

text \<open>\<open>m[a][b] = v\<close> on a nested map of the state.\<close>

definition nputG :: "(node \<Rightarrow> ('a, 'b, 'v) nmap) \<Rightarrow>
    ((('a, 'b, 'v) nmap \<Rightarrow> ('a, 'b, 'v) nmap) \<Rightarrow> node \<Rightarrow> node) \<Rightarrow> 'a \<Rightarrow> 'b \<Rightarrow> 'v \<Rightarrow> (node, unit) go" where
  "nputG fld upd a b v = (\<lambda>s. case nput (fld s) a b v of
      None \<Rightarrow> Panicked NilMapWrite s
    | Some m \<Rightarrow> Done () (upd (\<lambda>_. m) s))"

lemma nowG_app [simp, go_simps]:
  "nowG en s = Done (unixMilli en (clock_reads s)) (s\<lparr>clock_reads := Suc (clock_reads s)\<rparr>)"
  by (simp add: nowG_def)

lemma encodeG_app [simp, go_simps]:
  "encodeG en d m s = Done (encErr en (length (sent s)))
     (s\<lparr>sent := sent s @ [\<lparr>to = d, body = m, failed = encErr en (length (sent s))\<rparr>]\<rparr>)"
  by (simp add: encodeG_def Let_def)

lemma nputG_app [go_simps]:
  "nputG fld upd a b v s =
     (if fld s a = None then Panicked NilMapWrite s else Done () (upd (\<lambda>_. nset (fld s) a b v) s))"
  by (auto simp: nputG_def nput_def nset_def split: option.splits)

text \<open>The messages handed to the network so far, with their destinations.\<close>

definition outbox :: "node \<Rightarrow> (dest \<times> msg) list" where
  "outbox s = map (\<lambda>t. (to t, body t)) (sent s)"

section \<open>A concrete world for the witnesses\<close>

definition demo_env :: env where
  "demo_env = \<lparr>sha256 = (\<lambda>x. x), encErr = (\<lambda>_. False), unixMilli = of_nat,
     formatPast = (\<lambda>_ _. ''100.00''), arteryFile = (\<lambda>_. Some [''100.00'' \<mapsto> [11, 12, 13]]),
     communicationFile = (\<lambda>_. None), rangeEntries = (\<lambda>m. m)\<rparr>"

definition demo_cfg :: cfg where
  "demo_cfg = \<lparr>BatchSize = 2, MsgSize = 32, MsgLoad = 4, NumOfValidators = 1, NumOfConn = 6, ServerID = 10,
     PerfMetres = False, LatMetreInterval = 100, YieldCycle = 10, ConsWaitingSec = 10, MainProposerId = 10,
     UsePeriodicOrdering = False, OrderingPeriodMs = 20, ProposerList = [10],
     EvaluateComPossibilityFlag = False, AllowBypassRoute = False\<rparr>"

end
