(* ===== verification/Keys.thy ===== *)
theory Keys
  imports Globals
begin

text \<open>
  Key material: the generator (\<open>keyGen/generator.go\<close>), which writes one booth's public
  polynomial and private shares as hexadecimal lines, and the readers and signature helpers of
  \<open>tsigs.go\<close>. The file system is a map from paths to contents; opening for reading fails on a
  missing path, other I/O errors do not occur. The group arithmetic is the parameter \<open>kyber\<close>.
\<close>

type_synonym fs = "string \<rightharpoonup> string"

datatype key_error = FileNotFound | LineCount nat int | OneLineOnly | BadHex | BadScalar

section \<open>Files\<close>

definition path_under :: "string \<Rightarrow> string \<Rightarrow> bool" where
  "path_under folder p \<longleftrightarrow> p = folder \<or> take (length folder + 1) p = folder @ ''/''"

text \<open>\<open>os.RemoveAll\<close>, and \<open>WriteString\<close> on a file opened with \<open>O_APPEND|O_CREATE\<close>.\<close>

definition remove_all :: "string \<Rightarrow> fs \<Rightarrow> fs" where
  "remove_all folder f = (\<lambda>p. if path_under folder p then None else f p)"

definition append_file :: "string \<Rightarrow> string \<Rightarrow> fs \<Rightarrow> fs" where
  "append_file p cs f = f(p \<mapsto> (case f p of None \<Rightarrow> [] | Some old \<Rightarrow> old) @ cs)"

definition keys_folder :: "int \<Rightarrow> int \<Rightarrow> string" where
  "keys_folder boothId blockchainId =
     (if blockchainId < 0 then ''./keys/'' @ itoa boothId
      else ''./keys/'' @ itoa blockchainId @ ''/'' @ itoa boothId)"

definition pub_path :: "string \<Rightarrow> string" where
  "pub_path folder = folder @ ''/vguard_pub.dupe''"

definition pri_path :: "string \<Rightarrow> int \<Rightarrow> string" where
  "pri_path folder i = folder @ ''/pri_'' @ itoa i @ ''.dupe''"

section \<open>Generation\<close>

fun marshal_all :: "('sc, 'pt, 'pub) kyber \<Rightarrow> 'sc list \<Rightarrow> bytes list option" where
  "marshal_all ky [] = Some []"
| "marshal_all ky (c # cs) = (case marshalScalar ky c of None \<Rightarrow> None
     | Some b \<Rightarrow> map_option ((#) b) (marshal_all ky cs))"

definition hex_line :: "bytes \<Rightarrow> string" where
  "hex_line b = hex_encode b @ [newline]"

text \<open>\<open>Inl\<close> is a returned error, with the files as they are then; every coefficient is marshalled
  before the file is opened.\<close>

definition createPubPoly :: "('sc, 'pt, 'pub) kyber \<Rightarrow> 'sc list \<Rightarrow> string \<Rightarrow> fs \<Rightarrow> fs + fs" where
  "createPubPoly ky coeffs keysFolder f =
     (case marshal_all ky coeffs of None \<Rightarrow> Inl f
      | Some commitBytes \<Rightarrow> Inr (append_file (pub_path keysFolder) (concat (map hex_line commitBytes)) f))"

text \<open>A share's file is opened, hence created, before the share is marshalled.\<close>

fun createPrivateShare :: "('sc, 'pt, 'pub) kyber \<Rightarrow> 'sc priShare list \<Rightarrow> string \<Rightarrow> fs \<Rightarrow> fs + fs" where
  "createPrivateShare ky [] keysFolder f = Inr f"
| "createPrivateShare ky (sh # shs) keysFolder f =
     (let f1 = append_file (pri_path keysFolder (I sh)) [] f in
      case marshalScalar ky (V sh) of None \<Rightarrow> Inl f1
      | Some b \<Rightarrow> createPrivateShare ky shs keysFolder (append_file (pri_path keysFolder (I sh)) (hex_line b) f1))"

text \<open>
  The generator's \<open>main\<close> on parsed flags: \<open>coeffs\<close> are the \<open>t\<close> coefficients of the polynomial drawn for threshold \<open>t\<close>.
  \<open>Inl\<close> is a panic of the generator, with the files it leaves. \<open>NewPriPoly\<close> panics when there is no coefficient to put the
  secret in, as for the booths of fewer than three members, and this before any file is touched.
\<close>

definition generator_main :: "('sc, 'pt, 'pub) kyber \<Rightarrow> 'sc list \<Rightarrow> int \<Rightarrow> int \<Rightarrow> int \<Rightarrow> fs \<Rightarrow> fs + fs" where
  "generator_main ky coeffs n boothId blockchainId f = (if coeffs = [] then Inl f else
      let keysFolder = keys_folder boothId blockchainId;
          f1 = remove_all keysFolder f
      in case createPubPoly ky coeffs keysFolder f1 of Inl f2 \<Rightarrow> Inl f2
         | Inr f2 \<Rightarrow> createPrivateShare ky (evalShares ky coeffs n) keysFolder f2)"

lemma generator_main_no_coeffs [simp]: "generator_main ky [] n boothId blockchainId f = Inl f"
  by (simp add: generator_main_def)

lemma generator_main_coeffs: "generator_main ky coeffs n boothId blockchainId f = Inr f' \<Longrightarrow> coeffs \<noteq> []"
  by auto

section \<open>Reading\<close>

fun decode_points :: "('sc, 'pt, 'pub) kyber \<Rightarrow> string list \<Rightarrow> key_error + 'pt list" where
  "decode_points ky [] = Inr []"
| "decode_points ky (line # ls) =
     (case hex_decode line of None \<Rightarrow> Inl BadHex | Some b \<Rightarrow>
      (case unmarshalScalar ky b of None \<Rightarrow> Inl BadScalar | Some sc \<Rightarrow>
       (case decode_points ky ls of Inl e \<Rightarrow> Inl e | Inr ps \<Rightarrow> Inr (mulBase ky sc # ps))))"

definition fetchPubPoly :: "('sc, 'pt, 'pub) kyber \<Rightarrow> int \<Rightarrow> int \<Rightarrow> int \<Rightarrow> fs \<Rightarrow> key_error + 'pub" where
  "fetchPubPoly ky t boothId blockchainId f =
     (case f (''./keys/'' @ itoa blockchainId @ ''/'' @ itoa boothId @ ''/vguard_pub.dupe'') of
        None \<Rightarrow> Inl FileNotFound
      | Some content \<Rightarrow>
          (let txtlines = scan_lines content in
           if int (length txtlines) \<noteq> t then Inl (LineCount (length txtlines) t)
           else (case decode_points ky txtlines of Inl e \<Rightarrow> Inl e
                 | Inr commits \<Rightarrow> Inr (newPubPoly ky commits))))"

definition fetchPriShare :: "('sc, 'pt, 'pub) kyber \<Rightarrow> int \<Rightarrow> int \<Rightarrow> int \<Rightarrow> fs \<Rightarrow> key_error + 'sc priShare" where
  "fetchPriShare ky serverId boothId blockchainId f =
     (case f (''./keys/'' @ itoa blockchainId @ ''/'' @ itoa boothId @ ''/pri_'' @ itoa serverId @ ''.dupe'') of
        None \<Rightarrow> Inl FileNotFound
      | Some content \<Rightarrow>
          (let txtlines = scan_lines content in
           if length txtlines \<noteq> 1 then Inl OneLineOnly
           else (case hex_decode (txtlines ! 0) of None \<Rightarrow> Inl BadHex | Some b \<Rightarrow>
                 (case unmarshalScalar ky b of None \<Rightarrow> Inl BadScalar
                  | Some sc \<Rightarrow> Inr \<lparr>I = serverId, V = sc\<rparr>))))"

text \<open>Both files are needed whatever the caller wants; either error panics.\<close>

definition fetchKeysByBoothId :: "('sc, 'pt, 'pub) kyber \<Rightarrow> int \<Rightarrow> int \<Rightarrow> int \<Rightarrow> int \<Rightarrow> (node, 'pub \<times> 'sc priShare) go" where
  "fetchKeysByBoothId ky t sid boothId blockchainId =
     bindG (getG files) (\<lambda>f.
       case fetchPubPoly ky t boothId blockchainId f of
         Inl e \<Rightarrow> panicG (PanicMsg ''fetchPubPoly failed'')
       | Inr pub \<Rightarrow>
           (case fetchPriShare ky sid boothId blockchainId f of
              Inl e \<Rightarrow> panicG (PanicMsg ''fetchPriShare failed'')
            | Inr pri \<Rightarrow> ret (pub, pri)))"

section \<open>Thresholds and signatures\<close>

text \<open>Go's integer division truncates towards zero.\<close>

definition go_div :: "int \<Rightarrow> int \<Rightarrow> int" where
  "go_div a b = sgn a * sgn b * (\<bar>a\<bar> div \<bar>b\<bar>)"

definition getThreshold :: "int \<Rightarrow> int" where
  "getThreshold boothSize = go_div boothSize 3 * 2"

definition getDigest :: "env \<Rightarrow> bytes \<Rightarrow> bytes" where
  "getDigest en x = sha256 en x"

definition PenSign :: "('sc, 'pt, 'pub) kyber \<Rightarrow> bytes \<Rightarrow> 'sc priShare \<Rightarrow> bytes option" where
  "PenSign ky m privateShare = tblsSign ky privateShare m"

definition PenRecovery :: "('sc, 'pt, 'pub) kyber \<Rightarrow> bytes list \<Rightarrow> bytes \<Rightarrow> 'pub \<Rightarrow> int \<Rightarrow> bytes option" where
  "PenRecovery ky sigShares m pub boothSize =
     tblsRecover ky pub m sigShares (getThreshold boothSize) boothSize"

definition PenVerify :: "('sc, 'pt, 'pub) kyber \<Rightarrow> bytes \<Rightarrow> bytes \<Rightarrow> 'pub \<Rightarrow> bool" where
  "PenVerify ky m sig pub = blsVerify ky pub m sig"

lemma getThreshold_nat [simp]: "getThreshold (int n) = int (2 * (n div 3))"
  by (cases n) (simp_all add: getThreshold_def go_div_def zdiv_int)

lemma getThreshold_nonneg: "0 \<le> n \<Longrightarrow> 0 \<le> getThreshold n"
  using getThreshold_nat [of "nat n"] by simp

lemma pres_fetchKeysByBoothId [pres_intros]: "pres P (fetchKeysByBoothId ky t i b c)"
  unfolding fetchKeysByBoothId_def by (auto intro!: pres_intros split: sum.splits)

lemma fetchKeysByBoothId_cases:
  obtains (keys) pub pri where "fetchKeysByBoothId ky t i b c s = Done (pub, pri) s"
  | (panic) p where "fetchKeysByBoothId ky t i b c s = Panicked p s"
  by (cases "fetchPubPoly ky t b c (files s)"; cases "fetchPriShare ky i b c (files s)")
     (auto simp: fetchKeysByBoothId_def)

section \<open>What the generator writes, the readers read\<close>

text \<open>
  Documented behaviour of kyber: a scalar marshals to fewer than 32768 bytes (bn256: 32) that
  unmarshal to it, and \<open>Shares(n)\<close> numbers the shares from 0 to \<open>n - 1\<close>.
\<close>

definition kyber_encodes :: "('sc, 'pt, 'pub) kyber \<Rightarrow> bool" where
  "kyber_encodes ky \<longleftrightarrow>
     (\<forall>sc. \<exists>b. marshalScalar ky sc = Some b \<and> unmarshalScalar ky b = Some sc \<and> length b < 32768) \<and>
     (\<forall>cs n. 0 \<le> n \<longrightarrow> map I (evalShares ky cs n) = map int [0..<nat n])"

lemma kyber_marshal:
  assumes "kyber_encodes ky"
  obtains b where "marshalScalar ky sc = Some b" "unmarshalScalar ky b = Some sc" "length b < 32768"
  using assms unfolding kyber_encodes_def by blast

lemma scan_hex_lines:
  assumes "\<forall>b \<in> set bs. length b < 32768"
  shows "scan_lines (concat (map hex_line bs)) = map hex_encode bs"
proof -
  have "concat (map hex_line bs) = concat (map (\<lambda>l. l @ [newline]) (map hex_encode bs))"
    by (simp add: comp_def hex_line_def [abs_def])
  then show ?thesis
    using assms hex_encode_no_newline by (simp only:) (rule scan_lines_concat, auto)
qed

lemma pri_path_inj: "pri_path folder i = pri_path folder j \<Longrightarrow> i = j"
  by (auto simp: pri_path_def dest: itoa_inj)

lemma pub_path_not_pri [simp]: "pub_path folder \<noteq> pri_path folder i"
  by (simp add: pub_path_def pri_path_def)

lemma path_under_keys [simp]: "path_under folder (pub_path folder)" "path_under folder (pri_path folder i)"
  by (simp_all add: path_under_def pub_path_def pri_path_def)

lemma marshal_all_decodes:
  assumes "kyber_encodes ky"
  shows "\<exists>bs. marshal_all ky cs = Some bs \<and> length bs = length cs \<and> (\<forall>b \<in> set bs. length b < 32768)
     \<and> decode_points ky (map hex_encode bs) = Inr (map (mulBase ky) cs)"
proof (induction cs)
  case (Cons c cs)
  then obtain bs where bs: "marshal_all ky cs = Some bs" "length bs = length cs" "\<forall>b \<in> set bs. length b < 32768"
    "decode_points ky (map hex_encode bs) = Inr (map (mulBase ky) cs)" by blast
  obtain b where "marshalScalar ky c = Some b" "unmarshalScalar ky b = Some c" "length b < 32768"
    using kyber_marshal [OF assms] .
  with bs show ?case by (auto simp: hex_roundtrip)
qed simp

lemma createPubPoly_writes:
  assumes "kyber_encodes ky"
  obtains bs where "createPubPoly ky cs folder f = Inr (append_file (pub_path folder) (concat (map hex_line bs)) f)"
    "length bs = length cs" "\<forall>b \<in> set bs. length b < 32768"
    "decode_points ky (map hex_encode bs) = Inr (map (mulBase ky) cs)"
  using marshal_all_decodes [OF assms, of cs] by (auto simp: createPubPoly_def)

lemma createPrivateShare_total:
  assumes "kyber_encodes ky"
  shows "\<exists>f'. createPrivateShare ky shs folder f = Inr f'"
proof (induction shs arbitrary: f)
  case (Cons sh shs)
  obtain b where "marshalScalar ky (V sh) = Some b" using kyber_marshal [OF assms] .
  with Cons show ?case by (simp add: Let_def)
qed simp

lemma createPrivateShare_other:
  "createPrivateShare ky shs folder f = Inr f' \<Longrightarrow> p \<notin> (\<lambda>sh. pri_path folder (I sh)) ` set shs \<Longrightarrow> f' p = f p"
  by (induction shs arbitrary: f) (auto simp: Let_def append_file_def split: option.splits sum.splits)

lemma createPrivateShare_at:
  assumes "createPrivateShare ky shs folder f = Inr f'" "distinct (map I shs)" "sh \<in> set shs"
    "f (pri_path folder (I sh)) = None" "marshalScalar ky (V sh) = Some b"
  shows "f' (pri_path folder (I sh)) = Some (hex_line b)"
  using assms
proof (induction shs arbitrary: f)
  case (Cons x shs)
  show ?case
  proof (cases "sh = x")
    case True
    then have "pri_path folder (I sh) \<notin> (\<lambda>y. pri_path folder (I y)) ` set shs"
      using Cons.prems(2) by (auto dest!: pri_path_inj)
    then show ?thesis
      using Cons.prems True by (auto simp: Let_def append_file_def dest!: createPrivateShare_other)
  next
    case False
    then have "I sh \<noteq> I x" using Cons.prems(2,3) by (auto simp: image_iff)
    then have "pri_path folder (I sh) \<noteq> pri_path folder (I x)" by (auto dest: pri_path_inj)
    then show ?thesis
      using Cons False by (auto simp: Let_def append_file_def split: option.splits sum.splits)
  qed
qed simp

lemma remove_all_under [simp]: "path_under folder p \<Longrightarrow> remove_all folder f p = None"
  by (simp add: remove_all_def)

lemma append_new: "f p = None \<Longrightarrow> append_file p cs f p = Some cs"
  by (simp add: append_file_def)

lemma generator_main_files:
  assumes ok: "kyber_encodes ky" and n: "0 \<le> n"
    and run: "generator_main ky coeffs n boothId chain f = Inr f'"
  defines "folder \<equiv> keys_folder boothId chain"
  shows "\<exists>bs. f' (pub_path folder) = Some (concat (map hex_line bs))
    \<and> length bs = length coeffs \<and> (\<forall>b \<in> set bs. length b < 32768)
    \<and> decode_points ky (map hex_encode bs) = Inr (map (mulBase ky) coeffs)
    \<and> (\<forall>sh \<in> set (evalShares ky coeffs n). \<forall>b. marshalScalar ky (V sh) = Some b \<longrightarrow>
          f' (pri_path folder (I sh)) = Some (hex_line b))"
proof -
  let ?f1 = "remove_all folder f"
  obtain bs where bs: "createPubPoly ky coeffs folder ?f1 = Inr (append_file (pub_path folder) (concat (map hex_line bs)) ?f1)"
    and facts: "length bs = length coeffs" "\<forall>b \<in> set bs. length b < 32768"
      "decode_points ky (map hex_encode bs) = Inr (map (mulBase ky) coeffs)"
    using createPubPoly_writes [OF ok] by blast
  let ?f2 = "append_file (pub_path folder) (concat (map hex_line bs)) ?f1"
  have shs: "createPrivateShare ky (evalShares ky coeffs n) folder ?f2 = Inr f'"
    using run bs generator_main_coeffs [OF run] by (simp add: generator_main_def Let_def folder_def)
  have dist: "distinct (map I (evalShares ky coeffs n))"
    using ok n by (simp add: kyber_encodes_def distinct_map)
  have pri: "f' (pri_path folder (I sh)) = Some (hex_line b)"
    if "sh \<in> set (evalShares ky coeffs n)" "marshalScalar ky (V sh) = Some b" for sh b
  proof (rule createPrivateShare_at [OF shs dist that(1) _ that(2)])
    show "?f2 (pri_path folder (I sh)) = None"
      using pub_path_not_pri [of folder "I sh", symmetric] by (simp add: append_file_def)
  qed
  have "f' (pub_path folder) = ?f2 (pub_path folder)"
    using shs by (rule createPrivateShare_other) auto
  then have "f' (pub_path folder) = Some (concat (map hex_line bs))"
    by (simp add: append_new)
  then show ?thesis using facts pri by blast
qed

lemma reader_paths:
  assumes "0 \<le> chain"
  shows "''./keys/'' @ itoa chain @ ''/'' @ itoa boothId @ ''/vguard_pub.dupe'' = pub_path (keys_folder boothId chain)"
    and "''./keys/'' @ itoa chain @ ''/'' @ itoa boothId @ ''/pri_'' @ itoa i @ ''.dupe'' = pri_path (keys_folder boothId chain) i"
  using assms by (simp_all add: keys_folder_def pub_path_def pri_path_def)

lemma fetchPubPoly_at:
  assumes "0 \<le> chain" "f (pub_path (keys_folder boothId chain)) = Some (concat (map hex_line bs))"
    "\<forall>b \<in> set bs. length b < 32768"
  shows "fetchPubPoly ky t boothId chain f =
    (if int (length bs) \<noteq> t then Inl (LineCount (length bs) t)
     else (case decode_points ky (map hex_encode bs) of Inl e \<Rightarrow> Inl e | Inr ps \<Rightarrow> Inr (newPubPoly ky ps)))"
  unfolding fetchPubPoly_def reader_paths [OF assms(1)] assms(2) using scan_hex_lines [OF assms(3)] by simp

lemma fetchPriShare_at:
  assumes "0 \<le> chain" "f (pri_path (keys_folder boothId chain) i) = Some (hex_line b)" "length b < 32768"
    "unmarshalScalar ky b = Some sc"
  shows "fetchPriShare ky i boothId chain f = Inr \<lparr>I = i, V = sc\<rparr>"
proof -
  have "scan_lines (hex_line b) = [hex_encode b]" using scan_hex_lines [of "[b]"] assms(3) by simp
  then show ?thesis
    unfolding fetchPriShare_def reader_paths [OF assms(1)] assms(2) using assms(4) by (simp add: hex_roundtrip)
qed

lemma generator_main_total:
  assumes "kyber_encodes ky" "coeffs \<noteq> []"
  shows "\<exists>f'. generator_main ky coeffs n boothId chain f = Inr f'"
proof -
  obtain f2 where "createPubPoly ky coeffs (keys_folder boothId chain) (remove_all (keys_folder boothId chain) f) = Inr f2"
    using marshal_all_decodes [OF assms(1), of coeffs] by (auto simp: createPubPoly_def)
  then show ?thesis
    using createPrivateShare_total [OF assms(1)] assms(2) by (simp add: generator_main_def Let_def)
qed

text \<open>For every positive threshold, number of participants, booth and blockchain, and whatever files were
  there before, the generator succeeds, and afterwards \<open>fetchPubPoly\<close> with the same threshold
  reads back exactly the public polynomial that was generated; with any other threshold it
  refuses with the line-count error.\<close>

theorem keygen_fetchPubPoly:
  assumes ok: "kyber_encodes ky" and n: "0 \<le> n" and chain: "0 \<le> chain" and some: "coeffs \<noteq> []"
  shows "\<exists>f'. generator_main ky coeffs n boothId chain f = Inr f'
    \<and> fetchPubPoly ky (int (length coeffs)) boothId chain f' = Inr (newPubPoly ky (map (mulBase ky) coeffs))
    \<and> (\<forall>t. t \<noteq> int (length coeffs) \<longrightarrow> fetchPubPoly ky t boothId chain f' = Inl (LineCount (length coeffs) t))"
proof -
  obtain f' where run: "generator_main ky coeffs n boothId chain f = Inr f'"
    using generator_main_total [OF ok some] by blast
  obtain bs where "f' (pub_path (keys_folder boothId chain)) = Some (concat (map hex_line bs))"
    and bs: "length bs = length coeffs" "\<forall>b \<in> set bs. length b < 32768"
      "decode_points ky (map hex_encode bs) = Inr (map (mulBase ky) coeffs)"
    using generator_main_files [OF ok n run] by blast
  then have "fetchPubPoly ky t boothId chain f' =
      (if int (length coeffs) \<noteq> t then Inl (LineCount (length coeffs) t)
       else Inr (newPubPoly ky (map (mulBase ky) coeffs)))" for t
    using fetchPubPoly_at [where f = f' and ky = ky, OF chain _ bs(2)] bs by simp
  with run show ?thesis by simp
qed

lemma fetchKeys_generated:
  assumes ok: "kyber_encodes ky" and chain: "0 \<le> chain" and i: "0 \<le> i" "i < n"
    and run: "generator_main ky coeffs n boothId chain f = Inr (files s)"
  shows "fetchKeysByBoothId ky (int (length coeffs)) i boothId chain s =
    Done (newPubPoly ky (map (mulBase ky) coeffs), evalShares ky coeffs n ! nat i) s"
proof -
  from i have n: "0 \<le> n" by simp
  let ?sh = "evalShares ky coeffs n ! nat i" and ?folder = "keys_folder boothId chain"
  have ids: "map I (evalShares ky coeffs n) = map int [0..<nat n]"
    using ok n by (simp add: kyber_encodes_def)
  then have len: "length (evalShares ky coeffs n) = nat n" by (metis length_map length_upt minus_nat.diff_0)
  have I: "I ?sh = i" using arg_cong [OF ids, of "\<lambda>l. l ! nat i"] len i by simp
  have mem: "?sh \<in> set (evalShares ky coeffs n)" using len i by simp
  obtain b where b: "marshalScalar ky (V ?sh) = Some b" "unmarshalScalar ky b = Some (V ?sh)" "length b < 32768"
    using kyber_marshal [OF ok] .
  obtain bs where bs: "files s (pub_path ?folder) = Some (concat (map hex_line bs))"
    "length bs = length coeffs" "\<forall>b \<in> set bs. length b < 32768"
    "decode_points ky (map hex_encode bs) = Inr (map (mulBase ky) coeffs)"
    "files s (pri_path ?folder (I ?sh)) = Some (hex_line b)"
    using generator_main_files [OF ok n run] mem b(1) by metis
  have "fetchPriShare ky i boothId chain (files s) = Inr ?sh"
    using fetchPriShare_at [where f = "files s" and ky = ky, OF chain _ b(3,2)] bs(5) I by simp
  moreover have "fetchPubPoly ky (int (length coeffs)) boothId chain (files s) = Inr (newPubPoly ky (map (mulBase ky) coeffs))"
    using fetchPubPoly_at [where f = "files s" and ky = ky, OF chain bs(1,3)] bs(2,4) by simp
  ultimately show ?thesis by (simp add: fetchKeysByBoothId_def)
qed

text \<open>C22: Every participant \<open>0..n-1\<close> reads back exactly its own private share after a run of the
  generator, and so \<open>fetchKeysByBoothId\<close> with the generation threshold returns the pair of keys and
  does not panic.\<close>

theorem keygen_fetchKeys:
  assumes ok: "kyber_encodes ky" and chain: "0 \<le> chain" and i: "0 \<le> i" "i < n"
    and run: "generator_main ky coeffs n boothId chain f = Inr (files s)"
  shows "fetchKeysByBoothId ky (int (length coeffs)) i boothId chain s =
    Done (newPubPoly ky (map (mulBase ky) coeffs), evalShares ky coeffs n ! nat i) s"
  using assms by (rule fetchKeys_generated)

section \<open>Key folders do not overlap\<close>

abbreviation slash :: char where
  "slash \<equiv> CHR ''/''"

lemma split_key_path:
  "0 \<le> c \<Longrightarrow> split_on slash (keys_folder b c @ slash # rest) = [''.'', ''keys'', itoa c, itoa b] @ split_on slash rest"
  "c < 0 \<Longrightarrow> split_on slash (keys_folder b c @ slash # rest) = [''.'', ''keys'', itoa b] @ split_on slash rest"
  by (simp_all add: keys_folder_def split_on_sep)

lemma split_key_folder:
  "0 \<le> c \<Longrightarrow> split_on slash (keys_folder b c) = [''.'', ''keys'', itoa c, itoa b]"
  "c < 0 \<Longrightarrow> split_on slash (keys_folder b c) = [''.'', ''keys'', itoa b]"
  by (simp_all add: keys_folder_def split_on_sep split_on_word)

lemma take_prefix: "take (length xs + 1) ys = xs @ [x] \<Longrightarrow> \<exists>zs. ys = xs @ x # zs"
  by (metis append.assoc append_Cons append_Nil append_take_drop_id)

lemma foreign_key_path:
  assumes "0 \<le> c" "0 \<le> c'" "b' \<noteq> b \<or> c' \<noteq> c"
  shows "\<not> path_under (keys_folder b c) (keys_folder b' c' @ slash # rest)"
proof
  assume "path_under (keys_folder b c) (keys_folder b' c' @ slash # rest)"
  then consider "keys_folder b' c' @ slash # rest = keys_folder b c"
    | zs where "keys_folder b' c' @ slash # rest = keys_folder b c @ slash # zs"
    unfolding path_under_def by (blast dest: take_prefix)
  then show False
  proof cases
    case 1
    show False
      using arg_cong [OF 1, of "split_on slash"] assms(1,2) by (simp add: split_key_path split_key_folder)
  next
    case 2
    have "itoa c' = itoa c \<and> itoa b' = itoa b"
      using arg_cong [OF 2, of "split_on slash"] assms(1,2) by (simp add: split_key_path)
    then show False using assms(3) by (auto dest: itoa_inj)
  qed
qed

lemma key_paths_slash:
  "pub_path folder = folder @ slash # ''vguard_pub.dupe''"
  "pri_path folder i = folder @ slash # ''pri_'' @ itoa i @ ''.dupe''"
  by (simp_all add: pub_path_def pri_path_def)

lemma generator_main_frame:
  assumes run: "generator_main ky coeffs n b c f = Inr f'" and p: "\<not> path_under (keys_folder b c) p"
  shows "f' p = f p"
proof -
  let ?folder = "keys_folder b c"
  obtain f2 where f2: "createPubPoly ky coeffs ?folder (remove_all ?folder f) = Inr f2"
    "createPrivateShare ky (evalShares ky coeffs n) ?folder f2 = Inr f'"
    using run by (auto simp: generator_main_def Let_def split: option.splits sum.splits if_splits)
  have "p \<noteq> pub_path ?folder" "p \<notin> (\<lambda>sh. pri_path ?folder (I sh)) ` set (evalShares ky coeffs n)"
    using p by auto
  then have "f' p = f2 p" "f2 p = remove_all ?folder f p"
    using createPrivateShare_other [OF f2(2)] f2(1)
    by (auto simp: createPubPoly_def append_file_def split: option.splits)
  then show ?thesis using p by (simp add: remove_all_def)
qed

text \<open>Generating the keys of one booth never changes what is read for another booth, or for the
  same booth number of another blockchain: the folders are removed and written separately.\<close>

theorem keygen_isolated:
  assumes run: "generator_main ky coeffs n b c f = Inr f'"
    and "0 \<le> c" "0 \<le> c'" "b' \<noteq> b \<or> c' \<noteq> c"
  shows "fetchPubPoly ky t b' c' f' = fetchPubPoly ky t b' c' f
    \<and> fetchPriShare ky i b' c' f' = fetchPriShare ky i b' c' f"
proof -
  note foreign = foreign_key_path [OF assms(2-4)]
  have "f' (pub_path (keys_folder b' c')) = f (pub_path (keys_folder b' c'))"
    "f' (pri_path (keys_folder b' c') i) = f (pri_path (keys_folder b' c') i)"
    unfolding key_paths_slash by (rule generator_main_frame [OF run foreign])+
  then show ?thesis
    unfolding fetchPubPoly_def fetchPriShare_def reader_paths [OF assms(3)] by simp
qed

lemma fetchKeys_other:
  assumes run: "generator_main ky coeffs n i b f = Inr (files s')" and ids: "0 \<le> b" "0 \<le> b'" "(i, b) \<noteq> (i', b')" and "files s = f"
    and "fetchKeysByBoothId ky t v i' b' s = Done r s"
  shows "fetchKeysByBoothId ky t v i' b' s' = Done r s'"
  using keygen_isolated [OF run ids(1,2), of i' t v] assms(4-6) by (auto simp: fetchKeysByBoothId_def split: sum.splits)

text \<open>Run without \<open>-p\<close>, as the README's \<open>./generator -t=2 -n=6\<close>, the generator writes to
  \<open>./keys/B\<close>, where no reader looks, and deletes the keys of every booth of blockchain \<open>B\<close>:
  afterwards \<open>fetchPubPoly\<close> and \<open>fetchPriShare\<close> fail for each of them.\<close>

theorem keygen_default_removes_chain:
  assumes run: "generator_main ky coeffs n B (- 1) f = Inr f'" and "0 \<le> B"
  shows "fetchPubPoly ky t b B f' = Inl FileNotFound \<and> fetchPriShare ky i b B f' = Inl FileNotFound"
proof -
  let ?folder = "keys_folder B (- 1)"
  have split: "split_on slash (pub_path ?folder) = [''.'', ''keys'', itoa B, ''vguard_pub.dupe'']"
    "split_on slash (pri_path ?folder j) = [''.'', ''keys'', itoa B, ''pri_'' @ itoa j @ ''.dupe'']" for j
    unfolding key_paths_slash by (simp_all add: split_key_path split_on_word)
  have gone: "f' (keys_folder b B @ slash # rest) = None" if "slash \<notin> set rest" for rest
  proof -
    let ?p = "keys_folder b B @ slash # rest"
    have five: "split_on slash ?p = [''.'', ''keys'', itoa B, itoa b, rest]"
      using that assms(2) by (simp add: split_key_path split_on_word)
    have under: "path_under ?folder ?p"
      using assms(2) by (simp add: path_under_def keys_folder_def)
    obtain f2 where f2: "createPubPoly ky coeffs ?folder (remove_all ?folder f) = Inr f2"
      "createPrivateShare ky (evalShares ky coeffs n) ?folder f2 = Inr f'"
      using run by (auto simp: generator_main_def Let_def split: option.splits sum.splits if_splits)
    have "?p \<noteq> pub_path ?folder" "?p \<notin> (\<lambda>sh. pri_path ?folder (I sh)) ` set (evalShares ky coeffs n)"
      using five split by (auto dest!: arg_cong [where f = "split_on slash"])
    then have "f' ?p = f2 ?p" "f2 ?p = remove_all ?folder f ?p"
      using createPrivateShare_other [OF f2(2)] f2(1)
      by (auto simp: createPubPoly_def append_file_def split: option.splits)
    with under show ?thesis by (simp add: remove_all_def)
  qed
  have "f' (pub_path (keys_folder b B)) = None" "f' (pri_path (keys_folder b B) i) = None"
    unfolding key_paths_slash by (auto intro!: gone)
  then show ?thesis
    unfolding fetchPubPoly_def fetchPriShare_def reader_paths [OF assms(2)] by simp
qed

section \<open>The generator's own readers\<close>

text \<open>
  \<open>generator.go\<close> has readers too, older ones for a single key, without the folders of the booths. Only their
  path differs from those of \<open>tsigs.go\<close>.
\<close>

definition gen_fetchPubPoly :: "('sc, 'pt, 'pub) kyber \<Rightarrow> int \<Rightarrow> fs \<Rightarrow> key_error + 'pub" where
  "gen_fetchPubPoly ky t f =
     (case f ''./keys/vguard_pub.dupe'' of
        None \<Rightarrow> Inl FileNotFound
      | Some content \<Rightarrow>
          (let txtlines = scan_lines content in
           if int (length txtlines) \<noteq> t then Inl (LineCount (length txtlines) t)
           else (case decode_points ky txtlines of Inl e \<Rightarrow> Inl e
                 | Inr commits \<Rightarrow> Inr (newPubPoly ky commits))))"

definition gen_fetchPriShare :: "('sc, 'pt, 'pub) kyber \<Rightarrow> int \<Rightarrow> fs \<Rightarrow> key_error + 'sc priShare" where
  "gen_fetchPriShare ky serverId f =
     (case f (''./keys/pri_'' @ itoa serverId @ ''.dupe'') of
        None \<Rightarrow> Inl FileNotFound
      | Some content \<Rightarrow>
          (let txtlines = scan_lines content in
           if length txtlines \<noteq> 1 then Inl OneLineOnly
           else (case hex_decode (txtlines ! 0) of None \<Rightarrow> Inl BadHex | Some b \<Rightarrow>
                 (case unmarshalScalar ky b of None \<Rightarrow> Inl BadScalar
                  | Some sc \<Rightarrow> Inr \<lparr>I = serverId, V = sc\<rparr>))))"

lemma gen_readers_moved:
  assumes "f' ''./keys/vguard_pub.dupe'' = f (pub_path (keys_folder b c))" "f' (''./keys/pri_'' @ itoa i @ ''.dupe'') = f (pri_path (keys_folder b c) i)" "0 \<le> c"
  shows "gen_fetchPubPoly ky t f' = fetchPubPoly ky t b c f" "gen_fetchPriShare ky i f' = fetchPriShare ky i b c f"
  using assms(1,2)
  unfolding gen_fetchPubPoly_def gen_fetchPriShare_def fetchPubPoly_def fetchPriShare_def reader_paths [OF assms(3)] by simp_all

lemma itoa_no_letter: "is_digit x = False \<Longrightarrow> x \<noteq> CHR ''-'' \<Longrightarrow> x \<in> set w \<Longrightarrow> itoa i \<noteq> w"
  using itoa_chars by blast

text \<open>No run of the generator writes what they read: with or without \<open>-p\<close>, what they return is what they returned before, so
  that on a directory without these files they fail for ever.\<close>

theorem gen_readers_unserved:
  assumes run: "generator_main ky coeffs n b c f = Inr f'"
  shows "gen_fetchPubPoly ky t f' = gen_fetchPubPoly ky t f" "gen_fetchPriShare ky i f' = gen_fetchPriShare ky i f"
proof -
  have apart: "\<not> path_under (keys_folder b c) (''./keys/'' @ w)" if w: "slash \<notin> set w" "CHR ''.'' \<in> set w" for w
  proof
    have parts: "split_on slash (''./keys/'' @ w) = [''.'', ''keys'', w]" using w(1) by (simp add: split_on_word)
    have number: "itoa b \<noteq> w" using w(2) by (intro itoa_no_letter [of "CHR ''.''"]) (simp_all add: is_digit_def)
    assume "path_under (keys_folder b c) (''./keys/'' @ w)"
    then consider "''./keys/'' @ w = keys_folder b c" | zs where "''./keys/'' @ w = keys_folder b c @ slash # zs"
      unfolding path_under_def by (blast dest: take_prefix)
    then show False
    proof cases
      case 1
      show False using arg_cong [OF 1, of "split_on slash"] parts number by (cases "0 \<le> c") (auto simp: split_key_folder)
    next
      case 2
      obtain u us where "split_on slash zs = u # us" using split_on_nonempty by (meson neq_Nil_conv)
      then show False using arg_cong [OF 2, of "split_on slash"] parts by (cases "0 \<le> c") (auto simp: split_key_path)
    qed
  qed
  have "f' (''./keys/'' @ ''vguard_pub.dupe'') = f (''./keys/'' @ ''vguard_pub.dupe'')"
    by (rule generator_main_frame [OF run apart]) simp_all
  moreover have "f' (''./keys/'' @ (''pri_'' @ itoa i @ ''.dupe'')) = f (''./keys/'' @ (''pri_'' @ itoa i @ ''.dupe''))"
    by (rule generator_main_frame [OF run apart]) simp_all
  ultimately show "gen_fetchPubPoly ky t f' = gen_fetchPubPoly ky t f" "gen_fetchPriShare ky i f' = gen_fetchPriShare ky i f"
    by (simp_all add: gen_fetchPubPoly_def gen_fetchPriShare_def)
qed

section \<open>A concrete scheme for the witnesses\<close>

text \<open>
  Scalars are bytes; a share signs by prefixing its byte; recovery, like \<open>tbls.Recover\<close>, fails
  on any share that does not verify and on too few distinct shares.
\<close>

definition demo_kyber :: "(byte, byte, byte list) kyber" where
  "demo_kyber = \<lparr>
     marshalScalar = (\<lambda>sc. Some [sc]),
     unmarshalScalar = (\<lambda>b. case b of [x] \<Rightarrow> Some x | _ \<Rightarrow> None),
     mulBase = (\<lambda>sc. sc),
     newPubPoly = (\<lambda>pts. pts),
     newPriPoly = (\<lambda>r t. replicate (nat t) (of_int r)),
     evalShares = (\<lambda>cs n. map (\<lambda>i. \<lparr>I = int i, V = of_nat i\<rparr>) [0..<nat n]),
     tblsSign = (\<lambda>sh m. Some (V sh # m)),
     tblsRecover = (\<lambda>pub m sigShares t n.
       if list_all (\<lambda>sg. sg \<noteq> [] \<and> tl sg = m) sigShares \<and> t \<le> int (length (remdups sigShares))
       then Some (255 # m) else None),
     blsVerify = (\<lambda>pub m sg. sg = 255 # m)\<rparr>"

lemma demo_kyber_encodes: "kyber_encodes demo_kyber"
  by (simp add: kyber_encodes_def demo_kyber_def)

lemma keygen_fetchPubPoly_witness:
  "\<exists>f'. generator_main demo_kyber [7, 9] 6 3 1 Map.empty = Inr f' \<and> fetchPubPoly demo_kyber 2 3 1 f' = Inr [7, 9]"
  using keygen_fetchPubPoly [OF demo_kyber_encodes, of 6 1 "[7, 9]" 3 Map.empty]
  by (auto simp: demo_kyber_def)

lemma keygen_fetchKeys_witness:
  "\<exists>f'. generator_main demo_kyber [7, 9] 6 3 1 Map.empty = Inr f'
    \<and> fetchKeysByBoothId demo_kyber 2 4 3 1 (init_node\<lparr>files := f'\<rparr>)
      = Done ([7, 9], \<lparr>I = 4, V = 4\<rparr>) (init_node\<lparr>files := f'\<rparr>)"
proof -
  obtain f' where run: "generator_main demo_kyber [7, 9] 6 3 1 Map.empty = Inr f'"
    using generator_main_total [OF demo_kyber_encodes] by (metis list.distinct(1))
  then show ?thesis
    using keygen_fetchKeys [OF demo_kyber_encodes, where i = 4 and n = 6 and chain = 1 and coeffs = "[7, 9]"
        and boothId = 3 and f = Map.empty and s = "init_node\<lparr>files := f'\<rparr>"]
    by (simp add: demo_kyber_def)
qed

lemma keygen_isolated_witness:
  "\<exists>f'. generator_main demo_kyber [7, 9] 6 3 1 Map.empty = Inr f'
    \<and> fetchPubPoly demo_kyber 2 4 1 f' = Inl FileNotFound"
proof -
  obtain f' where run: "generator_main demo_kyber [7, 9] 6 3 1 Map.empty = Inr f'"
    using generator_main_total [OF demo_kyber_encodes] by (metis list.distinct(1))
  then show ?thesis
    using keygen_isolated [OF run, of 1 4 2 0] by (simp add: fetchPubPoly_def)
qed

lemma keygen_default_removes_chain_witness:
  "\<exists>f'. generator_main demo_kyber [7, 9] 6 0 (- 1) Map.empty = Inr f'
    \<and> fetchPubPoly demo_kyber 2 5 0 f' = Inl FileNotFound"
proof -
  obtain f' where run: "generator_main demo_kyber [7, 9] 6 0 (- 1) Map.empty = Inr f'"
    using generator_main_total [OF demo_kyber_encodes] by (metis list.distinct(1))
  then show ?thesis
    using keygen_default_removes_chain [OF run, of 2 5 0] by simp
qed

end
