(* ===== verification/Mmu.thy ===== *)
theory Mmu
  imports Keys
begin

text \<open>
  The membership management unit (\<open>mmu.go\<close>, \<open>state.go\<close>): booths and their registry \<open>booMgr\<close>,
  the choice of the current booth from the simulator's data, the counters, and the loaders of
  the simulator's files. Sending to booths is in \<open>Routing\<close>.
\<close>

section \<open>Counters (\<open>state.go\<close>)\<close>

definition nextBoothID :: "(node, int) go" where
  "nextBoothID = thenG (modG (\<lambda>s. s\<lparr>boothID := boothID s + 1\<rparr>)) (getG boothID)"

definition incrementLogIndex :: "(node, int64) go" where
  "incrementLogIndex = thenG (modG (\<lambda>s. s\<lparr>logIndex := logIndex s + 1\<rparr>)) (getG logIndex)"

definition getLogIndex :: "(node, int64) go" where
  "getLogIndex = getG logIndex"

section \<open>Booths\<close>

text \<open>\<open>Booth.String\<close>: the members' numbers with nothing between them.\<close>

definition Booth_String :: "Booth \<Rightarrow> string + string" where
  "Booth_String b = (if Indices b = [] then Inl ''booth is nil''
                     else Inr (concat (map itoa (Indices b))))"

definition generateBoothHash :: "env \<Rightarrow> int list \<Rightarrow> string" where
  "generateBoothHash en indices =
     hex_encode (sha256 en (bytes_of_string (concat (map itoa indices))))"

text \<open>The external generator is run with the booth's threshold; its failure is only printed.\<close>

definition generateBoothKey :: "('sc, 'pt, 'pub) kyber \<Rightarrow> Booth \<Rightarrow> int \<Rightarrow> int \<Rightarrow> (node, unit) go" where
  "generateBoothKey ky b numOfConn blockchainId =
     (let boothSize = int (length (Indices b)); threshold = go_div boothSize 3 * 2 in
      modG (\<lambda>s. s\<lparr>files := (case generator_main ky (newPriPoly ky (ID b) threshold) numOfConn (ID b) blockchainId (files s)
                            of Inl f \<Rightarrow> f | Inr f \<Rightarrow> f)\<rparr>))"

definition checkExactMatchInBooMgr :: "('sc, 'pt, 'pub) kyber \<Rightarrow> env \<Rightarrow> cfg \<Rightarrow> int list \<Rightarrow> (node, int) go" where
  "checkExactMatchInBooMgr ky en c pattern0 =
     (let pattern = sort pattern0; key = generateBoothHash en pattern in
      bindG (getG booMgr_index) (\<lambda>index.
        case index key of
          Some nowBoothId \<Rightarrow> ret nowBoothId
        | None \<Rightarrow>
            bindG (getG booMgr_b) (\<lambda>b.
              let newBooth = \<lparr>ID = int (length b), Indices = pattern\<rparr> in
              thenG (modG (\<lambda>s. s\<lparr>booMgr_b := b @ [newBooth],
                                 booMgr_index := index(generateBoothHash en pattern \<mapsto> ID newBooth)\<rparr>))
              (thenG (generateBoothKey ky newBooth (NumOfConn c) (ServerID c))
              (ret (ID newBooth))))))"

text \<open>The key of the simulation time: elapsed time, formatted by float arithmetic.\<close>

definition getNowTimeKey :: "env \<Rightarrow> (node, string) go" where
  "getNowTimeKey en = bindG (nowG en) (\<lambda>now. getG (\<lambda>s. formatPast en now (simulationStartTime s)))"

text \<open>
  The loop of \<open>getBoothID\<close>, for at most \<open>fuel\<close> looks at the clock; \<open>Blocked\<close> is the state of a
  loop that is still waiting then.
\<close>

fun getBoothID :: "('sc, 'pt, 'pub) kyber \<Rightarrow> env \<Rightarrow> cfg \<Rightarrow> nat \<Rightarrow> (node, int) go" where
  "getBoothID ky en c 0 = blockG"
| "getBoothID ky en c (Suc fuel) =
     bindG (getNowTimeKey en) (\<lambda>key.
     bindG (getG (\<lambda>s. case participantVehicleTimeData s key of None \<Rightarrow> [] | Some p \<Rightarrow> p)) (\<lambda>pattern.
       if length pattern \<le> 2 then getBoothID ky en c fuel
       else checkExactMatchInBooMgr ky en c (ServerID c # pattern)))"

text \<open>\<open>combos\<close> is gonum's \<open>combin.Combinations\<close>.\<close>

fun prepare_loop :: "int \<Rightarrow> int list list \<Rightarrow> Booth list" where
  "prepare_loop boothId [] = []"
| "prepare_loop boothId (memberIds # rest) =
     (if 0 \<in> set memberIds
      then \<lparr>ID = boothId, Indices = map (\<lambda>i. i + 1) memberIds @ [0]\<rparr> # prepare_loop (boothId + 1) rest
      else prepare_loop (boothId + 1) rest)"

definition prepareBooths :: "(int \<Rightarrow> int \<Rightarrow> int list list) \<Rightarrow> int \<Rightarrow> int \<Rightarrow> (node, unit) go" where
  "prepareBooths combos numOfConns boothsize0 =
     (let total0 = numOfConns - 1; boothsize = boothsize0 - 1;
          total = (if total0 < boothsize then boothsize else total0)
      in modG (\<lambda>s. s\<lparr>booMgr_b := booMgr_b s @ prepare_loop 0 (combos total boothsize)\<rparr>))"

section \<open>Simulator files\<close>

definition fetchArteryData :: "env \<Rightarrow> cfg \<Rightarrow> (node, unit) go" where
  "fetchArteryData en c = (case arteryFile en (ServerID c) of None \<Rightarrow> ret ()
     | Some m \<Rightarrow> modG (\<lambda>s. s\<lparr>participantVehicleTimeData := m\<rparr>))"

text \<open>One server's decoded file merged into its inner map.\<close>

definition merge_com :: "(int, string, int list) nmap \<Rightarrow> int \<Rightarrow> (string \<times> int list) list \<Rightarrow> (int, string, int list) nmap" where
  "merge_com m sid item = foldl (\<lambda>m' (k, v). nset m' sid k v) (nmake m sid) item"

fun fetchProToValComTimeMap :: "env \<Rightarrow> int list \<Rightarrow> (node, unit) go" where
  "fetchProToValComTimeMap en [] = ret ()"
| "fetchProToValComTimeMap en (proposerId # rest) =
     (case communicationFile en proposerId of None \<Rightarrow> ret ()
      | Some item \<Rightarrow> thenG (modG (\<lambda>s. s\<lparr>proToValComTimeMap := merge_com (proToValComTimeMap s) proposerId item\<rparr>))
                       (fetchProToValComTimeMap en rest))"

fun fetchValToProComTimeMap :: "env \<Rightarrow> int list \<Rightarrow> (node, unit) go" where
  "fetchValToProComTimeMap en [] = ret ()"
| "fetchValToProComTimeMap en (validatorId # rest) =
     (case communicationFile en validatorId of None \<Rightarrow> ret ()
      | Some item \<Rightarrow> thenG (modG (\<lambda>s. s\<lparr>valToProComTimeMap := merge_com (valToProComTimeMap s) validatorId item\<rparr>))
                       (fetchValToProComTimeMap en rest))"

section \<open>The booth registry\<close>

text \<open>
  What the ordering and consensus phases rely on when they ask for a booth: a request is
  answered by a booth with the same key, answers never change, and two booths never share a key.
\<close>

locale booth_registry =
  fixes request :: "'p \<Rightarrow> 'r \<Rightarrow> 'i \<times> 'r"
    and members :: "'r \<Rightarrow> 'i \<Rightarrow> 'p option"
    and key :: "'p \<Rightarrow> 'k"
    and inv :: "'r \<Rightarrow> bool"
  assumes inv_request: "inv r \<Longrightarrow> inv (snd (request p r))"
    and answered: "inv r \<Longrightarrow> \<exists>q. members (snd (request p r)) (fst (request p r)) = Some q \<and> key q = key p"
    and stable: "inv r \<Longrightarrow> members r i = Some q \<Longrightarrow> members (snd (request p r)) i = Some q"
    and one_per_key: "inv r \<Longrightarrow> members r i = Some q \<Longrightarrow> members r j = Some q' \<Longrightarrow> key q = key q' \<Longrightarrow> i = j"
begin

fun answers :: "'p list \<Rightarrow> 'r \<Rightarrow> 'i list \<times> 'r" where
  "answers [] r = ([], r)"
| "answers (p # ps) r = (let (i, r1) = request p r; (is, r2) = answers ps r1 in (i # is, r2))"

lemma answers_simp: "answers (p # ps) r =
   (fst (request p r) # fst (answers ps (snd (request p r))), snd (answers ps (snd (request p r))))"
  by (simp add: split_beta Let_def)

lemma answers_inv: "inv r \<Longrightarrow> inv (snd (answers ps r))"
  by (induction ps arbitrary: r) (simp_all add: answers_simp inv_request del: answers.simps(2))

lemma answers_length: "length (fst (answers ps r)) = length ps"
  by (induction ps arbitrary: r) (simp_all add: answers_simp del: answers.simps(2))

lemma answers_stable: "inv r \<Longrightarrow> members r i = Some q \<Longrightarrow> members (snd (answers ps r)) i = Some q"
  by (induction ps arbitrary: r) (simp_all add: answers_simp stable inv_request del: answers.simps(2))

lemma answers_members:
  "inv r \<Longrightarrow> n < length ps \<Longrightarrow> \<exists>q. members (snd (answers ps r)) (fst (answers ps r) ! n) = Some q \<and> key q = key (ps ! n)"
proof (induction ps arbitrary: r n)
  case (Cons p ps)
  let ?r1 = "snd (request p r)"
  have inv1: "inv ?r1" using Cons.prems(1) by (rule inv_request)
  show ?case
  proof (cases n)
    case 0
    obtain q where "members ?r1 (fst (request p r)) = Some q" "key q = key p"
      using answered [OF Cons.prems(1)] by blast
    then show ?thesis using 0 answers_stable [OF inv1] by (simp add: answers_simp del: answers.simps(2))
  next
    case (Suc m)
    then show ?thesis using Cons.IH [OF inv1, of m] Cons.prems(2) by (simp add: answers_simp del: answers.simps(2))
  qed
qed simp

lemma same_answer_iff:
  assumes "inv r" "m < length ps" "n < length ps"
  shows "fst (answers ps r) ! m = fst (answers ps r) ! n \<longleftrightarrow> key (ps ! m) = key (ps ! n)"
  using answers_members [OF assms(1,2)] answers_members [OF assms(1,3)]
    one_per_key [OF answers_inv [OF assms(1), of ps]] by (metis option.inject)

end

definition registry_inv :: "env \<Rightarrow> node \<Rightarrow> bool" where
  "registry_inv en s \<longleftrightarrow>
     (\<forall>i < length (booMgr_b s). ID (booMgr_b s ! i) = int i
        \<and> sorted (Indices (booMgr_b s ! i))
        \<and> booMgr_index s (generateBoothHash en (Indices (booMgr_b s ! i))) = Some (int i))
   \<and> (\<forall>k i. booMgr_index s k = Some i \<longrightarrow> 0 \<le> i \<and> i < int (length (booMgr_b s))
        \<and> generateBoothHash en (Indices (booMgr_b s ! nat i)) = k)"

definition booth_members :: "node \<Rightarrow> int \<Rightarrow> int list option" where
  "booth_members s i = (if 0 \<le> i \<and> i < int (length (booMgr_b s)) then Some (Indices (booMgr_b s ! nat i)) else None)"

definition request_booth :: "('sc, 'pt, 'pub) kyber \<Rightarrow> env \<Rightarrow> cfg \<Rightarrow> int list \<Rightarrow> node \<Rightarrow> int \<times> node" where
  "request_booth ky en c pattern s = (case checkExactMatchInBooMgr ky en c pattern s of
      Done i s' \<Rightarrow> (i, s') | Panicked p s' \<Rightarrow> (- 1, s') | Blocked s' \<Rightarrow> (- 1, s'))"

lemma checkExactMatch_known:
  "booMgr_index s (generateBoothHash en (sort pattern)) = Some i \<Longrightarrow>
   checkExactMatchInBooMgr ky en c pattern s = Done i s"
  by (simp add: checkExactMatchInBooMgr_def Let_def)

lemma checkExactMatch_new:
  assumes "booMgr_index s (generateBoothHash en (sort pattern)) = None"
  shows "\<exists>f. checkExactMatchInBooMgr ky en c pattern s = Done (int (length (booMgr_b s)))
    (s\<lparr>booMgr_b := booMgr_b s @ [\<lparr>ID = int (length (booMgr_b s)), Indices = sort pattern\<rparr>],
       booMgr_index := (booMgr_index s)(generateBoothHash en (sort pattern) \<mapsto> int (length (booMgr_b s))),
       files := f\<rparr>)"
  using assms by (simp add: checkExactMatchInBooMgr_def Let_def generateBoothKey_def) blast

lemma checkExactMatch_Done: "\<exists>i s'. checkExactMatchInBooMgr ky en c pattern s = Done i s'"
  by (cases "booMgr_index s (generateBoothHash en (sort pattern))")
     (auto simp: checkExactMatch_known dest!: checkExactMatch_new [of _ _ _ ky c])

lemma registry_inv_init: "registry_inv en init_node"
  by (simp add: registry_inv_def init_node_def)

lemma registry_inv_index:
  assumes "registry_inv en s" "booMgr_index s k = Some i"
  shows "0 \<le> i \<and> i < int (length (booMgr_b s)) \<and> generateBoothHash en (Indices (booMgr_b s ! nat i)) = k"
  using assms unfolding registry_inv_def by blast

lemma registry_inv_booth:
  assumes "registry_inv en s" "i < length (booMgr_b s)"
  shows "ID (booMgr_b s ! i) = int i \<and> sorted (Indices (booMgr_b s ! i))
    \<and> booMgr_index s (generateBoothHash en (Indices (booMgr_b s ! i))) = Some (int i)"
  using assms unfolding registry_inv_def by blast

lemma registry_inv_add:
  assumes inv: "registry_inv en s" and new: "booMgr_index s (generateBoothHash en p) = None" and "sorted p"
  shows "registry_inv en (s\<lparr>booMgr_b := booMgr_b s @ [\<lparr>ID = int (length (booMgr_b s)), Indices = p\<rparr>],
       booMgr_index := (booMgr_index s)(generateBoothHash en p \<mapsto> int (length (booMgr_b s))), files := f\<rparr>)"
proof -
  let ?n = "length (booMgr_b s)" and ?key = "generateBoothHash en p"
  have old: "generateBoothHash en (Indices (booMgr_b s ! i)) \<noteq> ?key" if "i < ?n" for i
    using registry_inv_booth [OF inv that] new by auto
  have idx: "0 \<le> i \<and> nat i < ?n \<and> generateBoothHash en (Indices (booMgr_b s ! nat i)) = k"
    if "booMgr_index s k = Some i" for k i
    using registry_inv_index [OF inv that] by auto
  show ?thesis
    unfolding registry_inv_def using registry_inv_booth [OF inv] old idx \<open>sorted p\<close>
    by (auto simp: nth_append less_Suc_eq) (use idx in fastforce)+
qed

lemma registry_request:
  assumes inv: "registry_inv en s" and run: "checkExactMatchInBooMgr ky en c pattern s = Done i s'"
  shows "registry_inv en s'" "0 \<le> i" "i < int (length (booMgr_b s'))"
    "generateBoothHash en (Indices (booMgr_b s' ! nat i)) = generateBoothHash en (sort pattern)"
    "\<exists>new. booMgr_b s' = booMgr_b s @ new"
proof -
  let ?key = "generateBoothHash en (sort pattern)"
  have "registry_inv en s' \<and> 0 \<le> i \<and> i < int (length (booMgr_b s'))
    \<and> generateBoothHash en (Indices (booMgr_b s' ! nat i)) = ?key \<and> (\<exists>new. booMgr_b s' = booMgr_b s @ new)"
  proof (cases "booMgr_index s ?key")
    case None
    then show ?thesis
      using run registry_inv_add [OF inv None] checkExactMatch_new [OF None, of ky c] by auto
  next
    case (Some j)
    then show ?thesis using run inv registry_inv_index [OF inv Some] by (simp add: checkExactMatch_known)
  qed
  then show "registry_inv en s'" "0 \<le> i" "i < int (length (booMgr_b s'))"
    "generateBoothHash en (Indices (booMgr_b s' ! nat i)) = ?key" "\<exists>new. booMgr_b s' = booMgr_b s @ new"
    by blast+
qed

interpretation booMgr: booth_registry "request_booth ky en c" booth_members
  "\<lambda>p. generateBoothHash en (sort p)" "registry_inv en" for ky en c
proof (unfold_locales, goal_cases)
  case (1 s p)
  obtain i s' where "checkExactMatchInBooMgr ky en c p s = Done i s'"
    using checkExactMatch_Done by blast
  then show ?case using registry_request(1) [OF 1] by (simp add: request_booth_def)
next
  case (2 s p)
  obtain i s' where run: "checkExactMatchInBooMgr ky en c p s = Done i s'"
    using checkExactMatch_Done by blast
  have "sorted (Indices (booMgr_b s' ! nat i))"
    using registry_inv_booth [OF registry_request(1) [OF 2 run]] registry_request(2,3) [OF 2 run] by simp
  then show ?case
    using run registry_request(2-4) [OF 2 run] by (simp add: request_booth_def booth_members_def sorted_sort_id)
next
  case (3 s i q p)
  obtain j s' where run: "checkExactMatchInBooMgr ky en c p s = Done j s'"
    using checkExactMatch_Done by blast
  obtain new where "booMgr_b s' = booMgr_b s @ new"
    using registry_request(5) [OF 3(1) run] by blast
  then show ?case using run 3(2) by (auto simp: request_booth_def booth_members_def nth_append split: if_splits)
next
  case (4 s i q j q')
  then show ?case
    using registry_inv_booth [OF 4(1), of "nat i"] registry_inv_booth [OF 4(1), of "nat j"]
    by (auto simp: booth_members_def sorted_sort_id split: if_splits)
qed

text \<open>The booths answered to a sequence of membership patterns, one request after the other.\<close>

fun request_all :: "('sc, 'pt, 'pub) kyber \<Rightarrow> env \<Rightarrow> cfg \<Rightarrow> int list list \<Rightarrow> (node, int list) go" where
  "request_all ky en c [] = ret []"
| "request_all ky en c (p # ps) =
     bindG (checkExactMatchInBooMgr ky en c p) (\<lambda>i. bindG (request_all ky en c ps) (\<lambda>is. ret (i # is)))"

lemma request_booth_Done:
  "checkExactMatchInBooMgr ky en c p s = Done i s' \<Longrightarrow> request_booth ky en c p s = (i, s')"
  by (simp add: request_booth_def)

lemma request_all_answers:
  "request_all ky en c ps s = Done (fst (booth_registry.answers (request_booth ky en c) ps s)) (snd (booth_registry.answers (request_booth ky en c) ps s))"
proof (induction ps arbitrary: s)
  case (Cons p ps)
  obtain i s' where "checkExactMatchInBooMgr ky en c p s = Done i s'"
    using checkExactMatch_Done by blast
  then show ?case
    using Cons [of s'] booMgr.answers_simp [of ky en c p ps s] by (simp add: request_booth_Done)
qed (simp add: booMgr.answers.simps)

text \<open>C21: From the initial state, any sequence of requests for booths is answered without a panic, and two
  requests are answered by the same booth exactly when the hashes of their sorted member lists
  agree; the answer to each is a valid position of \<open>booMgr.b\<close> whose booth has that hash.\<close>

theorem booth_requests:
  "\<exists>is s'. request_all ky en c ps init_node = Done is s' \<and> length is = length ps
    \<and> (\<forall>m < length ps. 0 \<le> is ! m \<and> is ! m < int (length (booMgr_b s'))
        \<and> generateBoothHash en (Indices (booMgr_b s' ! nat (is ! m))) = generateBoothHash en (sort (ps ! m)))
    \<and> (\<forall>m < length ps. \<forall>n < length ps. is ! m = is ! n \<longleftrightarrow>
        generateBoothHash en (sort (ps ! m)) = generateBoothHash en (sort (ps ! n)))"
proof -
  let ?a = "booth_registry.answers (request_booth ky en c) ps init_node"
  note inv = registry_inv_init [of en]
  have inv': "registry_inv en (snd ?a)" by (rule booMgr.answers_inv [OF inv])
  have "0 \<le> fst ?a ! m \<and> fst ?a ! m < int (length (booMgr_b (snd ?a)))
        \<and> generateBoothHash en (Indices (booMgr_b (snd ?a) ! nat (fst ?a ! m))) = generateBoothHash en (sort (ps ! m))"
    if m: "m < length ps" for m
  proof -
    obtain q where q: "booth_members (snd ?a) (fst ?a ! m) = Some q"
      "generateBoothHash en (sort q) = generateBoothHash en (sort (ps ! m))"
      using booMgr.answers_members [OF inv m, where ky = ky and c = c] by blast
    then have pos: "0 \<le> fst ?a ! m" "fst ?a ! m < int (length (booMgr_b (snd ?a)))"
      "q = Indices (booMgr_b (snd ?a) ! nat (fst ?a ! m))"
      by (auto simp: booth_members_def split: if_splits)
    moreover have "sorted q"
      using registry_inv_booth [OF inv', of "nat (fst ?a ! m)"] pos by auto
    ultimately show ?thesis using q(2) by (simp add: sorted_sort_id)
  qed
  then show ?thesis
    using booMgr.same_answer_iff [OF inv, where ky = ky and c = c]
      booMgr.answers_length [where ky = ky and c = c and en = en] by (simp add: request_all_answers)
qed

text \<open>
  Numbers of one width cannot be confused by writing them one after the other.
\<close>

lemma concat_itoa_inj:
  assumes "0 < d" "\<forall>x \<in> set xs \<union> set ys. length (itoa x) = d" "concat (map itoa xs) = concat (map itoa ys)"
  shows "xs = ys"
  using assms(2,3)
proof (induction xs arbitrary: ys)
  case Nil
  then show ?case using assms(1) by (cases ys) auto
next
  case (Cons x xs)
  have "ys \<noteq> []" using Cons.prems(2) by (intro notI) simp
  then obtain y ys' where ys: "ys = y # ys'" by (meson list.exhaust)
  have wx: "length (itoa x) = d" and wy: "length (itoa y) = d"
    by (rule bspec [OF Cons.prems(1)], simp add: ys)+
  have len: "length (itoa x) = length (itoa y)" unfolding wx wy ..
  have "itoa x @ concat (map itoa xs) = itoa y @ concat (map itoa ys')" using Cons.prems(2) ys by simp
  then have "itoa x = itoa y \<and> concat (map itoa xs) = concat (map itoa ys')"
    by (rule iffD1 [OF append_eq_append_conv [OF disjI1 [OF len]]])
  then have "itoa x = itoa y" and rest: "concat (map itoa xs) = concat (map itoa ys')" by blast+
  moreover have "\<forall>z \<in> set xs \<union> set ys'. length (itoa z) = d"
    by (rule ballI, rule bspec [OF Cons.prems(1)]) (auto simp: ys)
  then have "xs = ys'" using rest by (rule Cons.IH)
  ultimately show ?case using ys by (auto dest: itoa_inj)
qed

lemma bytes_of_string_inj: "bytes_of_string a = bytes_of_string b \<Longrightarrow> a = b"
proof -
  have "unat (of_nat (of_char c) :: byte) = of_char c" for c :: char
    by (simp add: unat_of_nat)
  then have "inj (\<lambda>c :: char. (of_nat (of_char c) :: byte))"
    by (intro injI) (metis of_char_eq_iff)
  then show "bytes_of_string a = bytes_of_string b \<Longrightarrow> a = b"
    unfolding bytes_of_string_def by (simp add: inj_map_eq_map)
qed

lemma hex_encode_inj: "hex_encode a = hex_encode b \<Longrightarrow> a = b"
  by (metis hex_roundtrip option.inject)

lemma set_sort_width: "\<forall>x \<in> set p. P x \<Longrightarrow> \<forall>x \<in> set (sort p). P x"
  by simp

text \<open>When all server numbers have the same number of digits and the hash has no collision on
  the registered booths, a request is answered by a booth whose members are exactly the
  requested ones, as the comment on \<open>checkExactMatchInBooMgr\<close> says.\<close>

theorem exact_match_uniform_ids:
  assumes inv: "registry_inv en s" and d: "0 < d"
    and width: "\<forall>b \<in> set (booMgr_b s). \<forall>x \<in> set (Indices b). length (itoa x) = d"
    and widthp: "\<forall>x \<in> set pattern. length (itoa x) = d"
    and no_collision: "\<forall>b \<in> set (booMgr_b s). \<forall>q.
      sha256 en (bytes_of_string (concat (map itoa (Indices b)))) = sha256 en (bytes_of_string (concat (map itoa q)))
      \<longrightarrow> bytes_of_string (concat (map itoa (Indices b))) = bytes_of_string (concat (map itoa q))"
  shows "\<exists>i s'. checkExactMatchInBooMgr ky en c pattern s = Done i s'
    \<and> 0 \<le> i \<and> i < int (length (booMgr_b s')) \<and> Indices (booMgr_b s' ! nat i) = sort pattern"
proof (cases "booMgr_index s (generateBoothHash en (sort pattern))")
  case None
  then show ?thesis using checkExactMatch_new [OF None, of ky c] by auto
next
  case (Some i)
  let ?b = "booMgr_b s ! nat i"
  have i: "0 \<le> i" "i < int (length (booMgr_b s))"
    "generateBoothHash en (Indices ?b) = generateBoothHash en (sort pattern)"
    using registry_inv_index [OF inv Some] by auto
  have mem: "?b \<in> set (booMgr_b s)" using i by simp
  have "concat (map itoa (Indices ?b)) = concat (map itoa (sort pattern))"
    using i(3) no_collision mem by (auto simp: generateBoothHash_def dest!: hex_encode_inj intro: bytes_of_string_inj)
  then have "Indices ?b = sort pattern"
    using width widthp mem by (intro concat_itoa_inj [OF d]) auto
  then show ?thesis using i Some by (simp add: checkExactMatch_known)
qed

text \<open>C40: Server numbers are hashed without a separator, so two different membership patterns can be taken
  for one: whatever the hash function, after a request for the vehicles 1, 23 and 145 with
  proposer 0, a request for 12, 31 and 45 is answered with the booth of the former.\<close>

theorem booth_confusion:
  "\<exists>s'. request_all ky en c [[0, 1, 23, 145], [0, 12, 31, 45]] init_node = Done [0, 0] s'
    \<and> map Indices (booMgr_b s') = [[0, 1, 23, 145]]"
proof -
  let ?k = "\<lambda>p. generateBoothHash en (sort p)"
  have digits: "itoa 0 = ''0''" "itoa 1 = ''1''" "itoa 23 = ''23''" "itoa 145 = ''145''" "itoa 12 = ''12''"
    "itoa 31 = ''31''" "itoa 45 = ''45''"
    by (simp_all add: itoa_def digits10.simps char_of_def bit_0)
  have same: "?k [0, 1, 23, 145] = ?k [0, 12, 31, 45]"
    by (simp add: generateBoothHash_def digits)
  have none: "booMgr_index init_node (?k [0, 1, 23, 145]) = None" by (simp add: init_node_def)
  obtain f where first: "checkExactMatchInBooMgr ky en c [0, 1, 23, 145] init_node = Done 0
      (init_node\<lparr>booMgr_b := [\<lparr>ID = 0, Indices = [0, 1, 23, 145]\<rparr>],
         booMgr_index := [?k [0, 1, 23, 145] \<mapsto> 0], files := f\<rparr>)"
    using checkExactMatch_new [OF none, of ky c] by (auto simp: init_node_def)
  let ?s = "init_node\<lparr>booMgr_b := [\<lparr>ID = 0, Indices = [0, 1, 23, 145]\<rparr>],
         booMgr_index := [?k [0, 1, 23, 145] \<mapsto> 0], files := f\<rparr>"
  have "checkExactMatchInBooMgr ky en c [0, 12, 31, 45] ?s = Done 0 ?s"
    by (rule checkExactMatch_known) (use same in simp)
  with first show ?thesis by simp
qed

section \<open>The current booth\<close>

definition participants_at :: "env \<Rightarrow> node \<Rightarrow> nat \<Rightarrow> int list" where
  "participants_at en s k =
     (case participantVehicleTimeData s (formatPast en (unixMilli en k) (simulationStartTime s)) of
        None \<Rightarrow> [] | Some p \<Rightarrow> p)"

text \<open>Every registered booth can collect a threshold signature: it has at least four members.\<close>

definition booths_big :: "node \<Rightarrow> bool" where
  "booths_big s \<longleftrightarrow> (\<forall>b \<in> set (booMgr_b s). 4 \<le> length (Indices b))"

definition look :: "node \<Rightarrow> node" where
  "look s = s\<lparr>clock_reads := Suc (clock_reads s)\<rparr>"

lemma getBoothID_step:
  "getBoothID ky en c (Suc fuel) s =
     (if length (participants_at en s (clock_reads s)) \<le> 2 then getBoothID ky en c fuel (look s)
      else checkExactMatchInBooMgr ky en c (ServerID c # participants_at en s (clock_reads s)) (look s))"
  by (simp add: getNowTimeKey_def participants_at_def look_def bindG_def)

lemma look_simps [simp]:
  "booMgr_b (look s) = booMgr_b s" "registry_inv en (look s) = registry_inv en s"
  "booths_big (look s) = booths_big s" "participants_at en (look s) = participants_at en s"
  "clock_reads (look s) = Suc (clock_reads s)"
  by (simp_all add: look_def registry_inv_def booths_big_def participants_at_def fun_eq_iff)

lemma booths_big_request:
  assumes "booths_big s" "4 \<le> length pattern" "checkExactMatchInBooMgr ky en c pattern s = Done i s'"
  shows "booths_big s'"
proof (cases "booMgr_index s (generateBoothHash en (sort pattern))")
  case None
  then show ?thesis using assms checkExactMatch_new [OF None, of ky c] by (auto simp: booths_big_def)
next
  case (Some j)
  then show ?thesis using assms by (simp add: checkExactMatch_known)
qed

lemma getBoothID_outcome:
  "is_done (getBoothID ky en c fuel s) \<longleftrightarrow>
     (\<exists>k < fuel. 2 < length (participants_at en s (clock_reads s + k)))"
  "(\<exists>i s'. getBoothID ky en c fuel s = Done i s') \<or> (\<exists>s'. getBoothID ky en c fuel s = Blocked s')"
proof (induction fuel arbitrary: s)
  case 0
  { case 1 show ?case by simp }
  { case 2 show ?case by simp }
next
  case (Suc fuel)
  { case 1
    show ?case
    proof (cases "length (participants_at en s (clock_reads s)) \<le> 2")
      case True
      have shift: "(\<exists>k < Suc fuel. P k) \<longleftrightarrow> P 0 \<or> (\<exists>k < fuel. P (Suc k))" for P :: "nat \<Rightarrow> bool"
        by (metis less_Suc_eq_0_disj)
      show ?thesis unfolding getBoothID_step shift using True Suc.IH(1) [of "look s"] by simp
    next
      case False
      obtain i s' where "checkExactMatchInBooMgr ky en c (ServerID c # participants_at en s (clock_reads s)) (look s) = Done i s'"
        using checkExactMatch_Done by blast
      then show ?thesis unfolding getBoothID_step using False by (auto intro!: exI [of _ 0])
    qed }
  { case 2
    show ?case unfolding getBoothID_step using Suc.IH(2) [of "look s"] checkExactMatch_Done by (auto split: if_splits) blast }
qed

text \<open>C28: \<open>getBoothID\<close> returns within \<open>fuel\<close> looks at the clock exactly when at one of them more than two
  vehicles participate; otherwise it is still waiting. It never panics.\<close>

theorem getBoothID_returns:
  "(is_done (getBoothID ky en c fuel s) \<longleftrightarrow>
     (\<exists>k < fuel. 2 < length (participants_at en s (clock_reads s + k))))
   \<and> ((\<exists>i s'. getBoothID ky en c fuel s = Done i s') \<or> (\<exists>s'. getBoothID ky en c fuel s = Blocked s'))"
  using getBoothID_outcome by blast

text \<open>The booth \<open>getBoothID\<close> answers is a valid position of \<open>booMgr.b\<close> and has at least four
  members, so its threshold is at least two; the registry stays consistent.\<close>

theorem getBoothID_big:
  assumes "registry_inv en s" "booths_big s" "getBoothID ky en c fuel s = Done i s'"
  shows "0 \<le> i \<and> i < int (length (booMgr_b s')) \<and> 4 \<le> length (Indices (booMgr_b s' ! nat i))
    \<and> 2 \<le> getThreshold (int (length (Indices (booMgr_b s' ! nat i))))
    \<and> registry_inv en s' \<and> booths_big s'"
  using assms
proof (induction fuel arbitrary: s)
  case (Suc fuel)
  let ?p = "participants_at en s (clock_reads s)"
  show ?case
  proof (cases "length ?p \<le> 2")
    case True
    then have "getBoothID ky en c fuel (look s) = Done i s'"
      using Suc.prems(3) by (simp add: getBoothID_step del: getBoothID.simps)
    then show ?thesis using Suc.IH [of "look s"] Suc.prems(1,2) by simp
  next
    case False
    then have run: "checkExactMatchInBooMgr ky en c (ServerID c # ?p) (look s) = Done i s'"
      using Suc.prems(3) by (simp add: getBoothID_step del: getBoothID.simps)
    have inv: "registry_inv en (look s)" using Suc.prems(1) by simp
    have big: "booths_big s'" using booths_big_request [OF _ _ run] Suc.prems(2) False by simp
    have "4 \<le> length (Indices (booMgr_b s' ! nat i))"
      using big registry_request(2,3) [OF inv run] by (simp add: booths_big_def)
    moreover from this have "2 \<le> getThreshold (int (length (Indices (booMgr_b s' ! nat i))))"
      by (simp only: getThreshold_nat)
    ultimately show ?thesis using big registry_request [OF inv run] by blast
  qed
qed simp

lemma booth_requests_witness:
  "\<exists>i s'. request_all demo_kyber demo_env demo_cfg [[10, 11, 12], [12, 11, 10]] init_node = Done [i, i] s'"
proof -
  have eq: "sort [10, 11, 12 :: int] = sort [12, 11, 10]" by simp
  obtain xs s' where r: "request_all demo_kyber demo_env demo_cfg [[10, 11, 12], [12, 11, 10]] init_node = Done xs s'" "length xs = 2"
      and same: "\<forall>m < 2. \<forall>n < 2. xs ! m = xs ! n \<longleftrightarrow> generateBoothHash demo_env (sort ([[10, 11, 12], [12, 11, 10]] ! m))
        = generateBoothHash demo_env (sort ([[10, 11, 12], [12, 11, 10]] ! n))"
    using booth_requests [of demo_kyber demo_env demo_cfg "[[10, 11, 12], [12, 11, 10]]"] by auto
  have "xs ! 0 = xs ! 1" using same [rule_format, of 0 1] eq by simp
  then have "xs = [xs ! 0, xs ! 0]" using r(2) by (auto simp: numeral_2_eq_2 length_Suc_conv)
  then show ?thesis using r(1) by metis
qed

lemma exact_match_uniform_ids_witness:
  "\<exists>s1 i s2. checkExactMatchInBooMgr demo_kyber demo_env demo_cfg [14, 10, 12, 11] init_node = Done 0 s1
    \<and> checkExactMatchInBooMgr demo_kyber demo_env demo_cfg [13, 12, 11, 10] s1 = Done i s2
    \<and> Indices (booMgr_b s2 ! nat i) = [10, 11, 12, 13]"
proof -
  have none: "booMgr_index init_node (generateBoothHash demo_env (sort [14, 10, 12, 11])) = None"
    by (simp add: init_node_def)
  obtain s1 where s1: "checkExactMatchInBooMgr demo_kyber demo_env demo_cfg [14, 10, 12, 11] init_node = Done 0 s1"
    "booMgr_b s1 = [\<lparr>ID = 0, Indices = [10, 11, 12, 14]\<rparr>]"
    using checkExactMatch_new [OF none, of demo_kyber demo_cfg] by (auto simp: init_node_def)
  have inv: "registry_inv demo_env s1" using registry_request(1) [OF registry_inv_init s1(1)] .
  have digits: "length (itoa x) = 2" if "x \<in> {10, 11, 12, 13, 14}" for x
    using that by (auto simp: itoa_def digits10.simps)
  have "\<exists>i s2. checkExactMatchInBooMgr demo_kyber demo_env demo_cfg [13, 12, 11, 10] s1 = Done i s2
    \<and> 0 \<le> i \<and> i < int (length (booMgr_b s2)) \<and> Indices (booMgr_b s2 ! nat i) = sort [13, 12, 11, 10]"
    by (rule exact_match_uniform_ids [OF inv, of 2]) (auto simp: s1(2) digits demo_env_def)
  then show ?thesis using s1(1) by auto
qed

text \<open>A state in which three vehicles participate.\<close>

definition demo_node :: node where
  "demo_node = init_node\<lparr>participantVehicleTimeData := [''100.00'' \<mapsto> [11, 12, 13]]\<rparr>"

lemma getBoothID_big_witness:
  "\<exists>s'. getBoothID demo_kyber demo_env demo_cfg 3 demo_node = Done 0 s' \<and> registry_inv demo_env s'"
proof -
  have inv: "registry_inv demo_env demo_node" "booths_big demo_node"
    by (simp_all add: registry_inv_def booths_big_def demo_node_def init_node_def)
  have pat: "participants_at demo_env demo_node 0 = [11, 12, 13]"
    by (simp add: participants_at_def demo_env_def demo_node_def init_node_def)
  have clock: "clock_reads demo_node = 0" by (simp add: demo_node_def init_node_def)
  have "is_done (getBoothID demo_kyber demo_env demo_cfg 3 demo_node)"
    unfolding getBoothID_outcome(1)
    using pat by (intro exI [of _ 0]) (simp add: clock)
  then obtain i s' where run: "getBoothID demo_kyber demo_env demo_cfg 3 demo_node = Done i s'"
    by (cases "getBoothID demo_kyber demo_env demo_cfg 3 demo_node") auto
  then have i: "0 \<le> i" "registry_inv demo_env s'"
    using getBoothID_big [OF inv run] by auto
  have "checkExactMatchInBooMgr demo_kyber demo_env demo_cfg [10, 11, 12, 13] (look demo_node) = Done i s'"
    using run pat clock by (simp add: numeral_3_eq_3 getBoothID_step demo_cfg_def del: getBoothID.simps)
  moreover have "booMgr_index (look demo_node) k = None" "booMgr_b (look demo_node) = []" for k
    by (simp_all add: look_def demo_node_def init_node_def)
  ultimately have "i = 0"
    using checkExactMatch_new [of "look demo_node" demo_env "[10, 11, 12, 13]" demo_kyber demo_cfg] by auto
  then show ?thesis using run i by blast
qed

section \<open>Quorums\<close>

text \<open>
  An order or commit certificate needs \<open>getThreshold n\<close> replies besides the proposer's own part,
  so \<open>getThreshold n + 1\<close> members of a booth of \<open>n\<close>. Byzantine agreement tolerates
  \<open>(n - 1) div 3\<close> faulty members.
\<close>

definition quorum_size :: "nat \<Rightarrow> nat" where
  "quorum_size n = nat (getThreshold (int n)) + 1"

lemma quorum_size_eq: "quorum_size n = 2 * (n div 3) + 1"
  by (simp add: quorum_size_def)

lemma quorum_overlap:
  assumes "finite B" "Q \<subseteq> B" "Q' \<subseteq> B"
  shows "card Q + card Q' \<le> card (Q \<inter> Q') + card B"
proof -
  have "card Q + card Q' = card (Q \<union> Q') + card (Q \<inter> Q')"
    using assms finite_subset by (metis card_Un_Int)
  moreover have "card (Q \<union> Q') \<le> card B" using assms by (intro card_mono) auto
  ultimately show ?thesis by linarith
qed

lemma quorum_arith:
  "f = k \<Longrightarrow> n = 3 * k + 1 \<Longrightarrow> f + n < 2 * (2 * k + 1) \<and> 2 * k + 1 + f \<le> (n :: nat)"
  "f = k \<Longrightarrow> n = 3 * k + 2 \<Longrightarrow> 2 * k + 1 \<le> n \<and> 2 * (2 * k + 1) = n + (f :: nat)"
  by simp_all

lemma quorum_size_overlap:
  assumes "n mod 3 \<noteq> 2" "0 < n"
  shows "(n - 1) div 3 + n < 2 * quorum_size n \<and> quorum_size n + (n - 1) div 3 \<le> n"
proof -
  let ?k = "n div 3"
  have split: "n = 3 * ?k + n mod 3" by simp
  have "n mod 3 = 0 \<or> n mod 3 = 1" using assms(1) by linarith
  then show ?thesis
  proof
    assume "n mod 3 = 0"
    then have "n = 3 * ?k" using split by simp
    moreover from this obtain j where "?k = Suc j" using assms(2) by (cases ?k) auto
    ultimately have "?k = Suc j \<and> n = 3 * j + 3" by simp
    moreover have "(3 * j + 3 - 1) div 3 = j" by linarith
    ultimately show ?thesis by (simp add: quorum_size_eq)
  next
    assume "n mod 3 = 1"
    then have "n - 1 = 3 * ?k" "n = 3 * ?k + 1" using split by simp_all
    then have "(n - 1) div 3 = ?k" by simp
    then show ?thesis
      unfolding quorum_size_eq using \<open>n = 3 * ?k + 1\<close> by (rule quorum_arith(1))
  qed
qed

text \<open>In a booth of \<open>n\<close> members, \<open>n mod 3\<close> not 2, two quorums share more than \<open>(n - 1) div 3\<close>
  members, hence a correct one; and a quorum can be formed without the faulty members.\<close>

theorem quorum_intersection:
  assumes "finite B" "Q \<subseteq> B" "Q' \<subseteq> B" "card Q = quorum_size (card B)" "card Q' = quorum_size (card B)"
    and "card B mod 3 \<noteq> 2" "0 < card B"
  shows "(card B - 1) div 3 < card (Q \<inter> Q') \<and> quorum_size (card B) + (card B - 1) div 3 \<le> card B"
proof -
  have "2 * quorum_size (card B) \<le> card (Q \<inter> Q') + card B"
    using quorum_overlap [OF assms(1-3)] assms(4,5) by linarith
  then show ?thesis using quorum_size_overlap [OF assms(6,7)] by linarith
qed

lemma quorum_intersection_witness:
  "(0 :: nat) < card ({0, 1, 2} \<inter> {1, 2, 3 :: nat}) \<and> quorum_size 4 \<le> 4"
  using quorum_intersection [of "{0, 1, 2, 3 :: nat}" "{0, 1, 2}" "{1, 2, 3}"] by (simp add: quorum_size_eq)

text \<open>When \<open>n mod 3 = 2\<close>, as in a booth of five, the overlap can be as small as the number of
  tolerated faults: there are quorums of a booth \<open>{0..<n}\<close> sharing \<open>(n - 1) div 3\<close> members only.\<close>

theorem quorum_intersection_fails:
  assumes "n mod 3 = 2"
  shows "\<exists>Q Q'. Q \<subseteq> {0..<n} \<and> Q' \<subseteq> {0..<n} \<and> card Q = quorum_size n \<and> card Q' = quorum_size n
    \<and> card (Q \<inter> Q') = (n - 1) div 3"
proof (intro exI conjI)
  let ?q = "quorum_size n"
  have n: "n = 3 * (n div 3) + 2" using assms by (metis mult_div_mod_eq)
  then have "(n - 1) div 3 = (3 * (n div 3) + 1) div 3" by linarith
  then have "(n - 1) div 3 = n div 3" by simp
  then have q: "?q \<le> n \<and> 2 * ?q = n + (n - 1) div 3" unfolding quorum_size_eq using n by (rule quorum_arith(2))
  show "{0..<?q} \<subseteq> {0..<n}" "{n - ?q..<n} \<subseteq> {0..<n}" using q by auto
  show "card {0..<?q} = ?q" "card {n - ?q..<n} = ?q" using q by simp_all
  have "{0..<?q} \<inter> {n - ?q..<n} = {n - ?q..<?q}" using q by auto
  moreover have "?q - (n - ?q) = (n - 1) div 3" using q by linarith
  ultimately show "card ({0..<?q} \<inter> {n - ?q..<n}) = (n - 1) div 3" by simp
qed

lemma quorum_intersection_fails_witness:
  "\<exists>Q Q'. Q \<subseteq> {0..<5 :: nat} \<and> Q' \<subseteq> {0..<5} \<and> card Q = 3 \<and> card Q' = 3 \<and> card (Q \<inter> Q') = 1"
  using quorum_intersection_fails [of 5] by (simp add: quorum_size_eq)

end
