(* ===== verification/Routing.thy ===== *)
theory Routing
  imports Mmu
begin

text \<open>
  Sending: who can reach whom at the current simulation time, the four broadcasts of \<open>mmu.go\<close>,
  the replies of \<open>handlers.go\<close> and the relay between proposers of \<open>connsprop.go\<close>. A send is an
  entry of the log \<open>sent\<close>; whether it fails is decided by the environment.
\<close>

section \<open>Reachability at the current time\<close>

text \<open>
  \<open>(False, v)\<close>: the validator hears this proposer. \<open>(True, p)\<close>: go through proposer \<open>p\<close>.
  \<open>(True, -1)\<close>: no way.
\<close>

definition checkComPathToValidator :: "env \<Rightarrow> cfg \<Rightarrow> int \<Rightarrow> (node, bool \<times> int) go" where
  "checkComPathToValidator en c validatorId =
     bindG (getNowTimeKey en) (\<lambda>timeKey.
     bindG (getG (\<lambda>s. case nget (proToValComTimeMap s) (ServerID c) timeKey of None \<Rightarrow> [] | Some l \<Rightarrow> l))
       (\<lambda>communicableValidatorList.
       if validatorId \<in> set communicableValidatorList then ret (False, validatorId)
       else bindG (getG (\<lambda>s. case nget (valToProComTimeMap s) validatorId timeKey of None \<Rightarrow> [] | Some l \<Rightarrow> l))
         (\<lambda>communicableProposerList.
           if \<not> AllowBypassRoute c \<or> communicableProposerList = [] then ret (True, - 1)
           else ret (True, hd communicableProposerList))))"

definition checkComPathToProposer :: "env \<Rightarrow> cfg \<Rightarrow> int \<Rightarrow> (node, bool \<times> int) go" where
  "checkComPathToProposer en c proposerId =
     bindG (getNowTimeKey en) (\<lambda>timeKey.
     bindG (getG (\<lambda>s. case nget (valToProComTimeMap s) (ServerID c) timeKey of None \<Rightarrow> [] | Some l \<Rightarrow> l))
       (\<lambda>communicableProposerList.
       if proposerId \<in> set communicableProposerList then ret (False, proposerId)
       else if \<not> AllowBypassRoute c \<or> communicableProposerList = [] then ret (True, - 1)
       else ret (True, hd communicableProposerList)))"

section \<open>Broadcasts\<close>

text \<open>\<open>concierge.n[phase][i] == nil\<close>, with the panic of the index expression.\<close>

definition registered :: "phase \<Rightarrow> int \<Rightarrow> (node, bool) go" where
  "registered ph i = bindG (getG (\<lambda>s. concierge s ph)) (\<lambda>docks.
     bindG (idxG docks i) (\<lambda>d. ret (d \<noteq> None)))"

definition set_broadcastError :: "(node, unit) go" where
  "set_broadcastError = modG (\<lambda>s. s\<lparr>broadcastError := True\<rparr>)"

text \<open>One \<open>Encode\<close> whose error sets the flag that stops all later broadcasts.\<close>

definition try_send :: "env \<Rightarrow> dest \<Rightarrow> msg \<Rightarrow> (node, unit) go" where
  "try_send en d m = bindG (encodeG en d m) (\<lambda>err. if err then set_broadcastError else ret ())"

definition broadcastToBooth :: "env \<Rightarrow> cfg \<Rightarrow> msg \<Rightarrow> phase \<Rightarrow> int \<Rightarrow> (node, unit) go" where
  "broadcastToBooth en c e ph boothId =
     bindG (getG broadcastError) (\<lambda>stop. if stop then ret () else
     bindG (getG booMgr_b) (\<lambda>b. bindG (idxG b boothId) (\<lambda>boo.
     forG (Indices boo) (\<lambda>i.
       if ServerID c = i then ret ()
       else bindG (registered ph i) (\<lambda>reg. if \<not> reg then ret ()
         else try_send en (Concierge ph i) e)))))"

definition broadcastToNewBooth :: "env \<Rightarrow> cfg \<Rightarrow> msg \<Rightarrow> phase \<Rightarrow> int \<Rightarrow> int list \<Rightarrow> msg \<Rightarrow> (node, unit) go" where
  "broadcastToNewBooth en c regularMsg ph boothId newMemberIDs newMsg =
     bindG (getG broadcastError) (\<lambda>stop. if stop then ret () else
     bindG (getG booMgr_b) (\<lambda>b. bindG (idxG b boothId) (\<lambda>boo.
     forG (Indices boo) (\<lambda>i.
       if ServerID c = i then ret ()
       else bindG (registered ph i) (\<lambda>reg. if \<not> reg then ret ()
         else thenG (forG newMemberIDs (\<lambda>newMember.
                if newMember = i then thenG (encodeG en (Concierge ph i) newMsg) (ret ()) else ret ()))
              (if i \<in> set newMemberIDs then ret ()
               else try_send en (Concierge ph i) regularMsg))))))"

definition broadcastToBoothWithComCheck :: "env \<Rightarrow> cfg \<Rightarrow> msg \<Rightarrow> phase \<Rightarrow> int \<Rightarrow> (node, unit) go" where
  "broadcastToBoothWithComCheck en c e ph boothId =
     bindG (getG broadcastError) (\<lambda>stop. if stop then ret () else
     bindG (getG booMgr_b) (\<lambda>b. bindG (idxG b boothId) (\<lambda>boo.
     forG (Indices boo) (\<lambda>i.
       if ServerID c = i then ret ()
       else bindG (checkComPathToValidator en c i) (\<lambda>(needDetour, detourNextNode).
         let nextNode = (if needDetour then detourNextNode else i);
             message = (if needDetour then Between e (ServerID c) i ph else e)
         in if nextNode = - 1 then ret ()
            else bindG (registered ph nextNode) (\<lambda>reg. if \<not> reg then ret ()
              else try_send en (Concierge ph nextNode) message))))))"

text \<open>
  After a failed send the code reads \<open>concierge.n[phase][i].SID\<close> for its log line, with the
  member \<open>i\<close> instead of the node the message went to.
\<close>

definition log_concierge_SID :: "phase \<Rightarrow> int \<Rightarrow> (node, unit) go" where
  "log_concierge_SID ph i = bindG (getG (\<lambda>s. concierge s ph)) (\<lambda>docks.
     bindG (idxG docks i) (\<lambda>d. case d of None \<Rightarrow> panicG NilDeref | Some _ \<Rightarrow> ret ()))"

definition broadcastToNewBoothWithComCheck :: "env \<Rightarrow> cfg \<Rightarrow> msg \<Rightarrow> phase \<Rightarrow> int \<Rightarrow> int list \<Rightarrow> msg \<Rightarrow> (node, unit) go" where
  "broadcastToNewBoothWithComCheck en c regularMsg ph boothId newMemberIDs newMsg =
     bindG (getG broadcastError) (\<lambda>stop. if stop then ret () else
     bindG (getG booMgr_b) (\<lambda>b. bindG (idxG b boothId) (\<lambda>boo.
     forG (Indices boo) (\<lambda>i.
       if ServerID c = i then ret ()
       else bindG (checkComPathToValidator en c i) (\<lambda>(needDetour, detourNextNode).
         let nextNode = (if needDetour then detourNextNode else i);
             wrap = (\<lambda>m. if needDetour then Between m (ServerID c) i ph else m)
         in if nextNode = - 1 then ret ()
            else bindG (registered ph nextNode) (\<lambda>reg. if \<not> reg then ret ()
              else thenG (forG newMemberIDs (\<lambda>newMember.
                     if newMember = i then thenG (encodeG en (Concierge ph nextNode) (wrap newMsg)) (ret ()) else ret ()))
                   (if i \<in> set newMemberIDs then ret ()
                    else bindG (encodeG en (Concierge ph nextNode) (wrap regularMsg))
                      (\<lambda>err. if err then thenG set_broadcastError (log_concierge_SID ph i) else ret ()))))))))"

definition broadcastToAll :: "env \<Rightarrow> cfg \<Rightarrow> msg \<Rightarrow> phase \<Rightarrow> (node, unit) go" where
  "broadcastToAll en c e ph =
     bindG (getG broadcastError) (\<lambda>stop. if stop then ret () else
     bindG (getG (\<lambda>s. length (concierge s ph))) (\<lambda>n.
     forG (map int [0..<n]) (\<lambda>i.
       if ServerID c = i then ret ()
       else bindG (registered ph i) (\<lambda>reg. if \<not> reg then ret ()
         else try_send en (Concierge ph i) e))))"

section \<open>Replies and relay\<close>

text \<open>A nil encoder is logged and then used, which panics.\<close>

definition dialSendBack :: "env \<Rightarrow> msg \<Rightarrow> dest option \<Rightarrow> (node, unit) go" where
  "dialSendBack en m encoder = (case encoder of None \<Rightarrow> panicG NilDeref
     | Some d \<Rightarrow> thenG (encodeG en d m) (ret ()))"

definition dialog_encoder :: "phase \<Rightarrow> int \<Rightarrow> (node, dest option) go" where
  "dialog_encoder ph sid = getG (\<lambda>s. map_option (\<lambda>_. Dialog ph sid) (dialogMgr s ph sid))"

definition dialSendBackWithComCheck :: "env \<Rightarrow> cfg \<Rightarrow> msg \<Rightarrow> dest option \<Rightarrow> phase \<Rightarrow> int \<Rightarrow> (node, unit) go" where
  "dialSendBackWithComCheck en c m encoder ph recipientProposerId =
     bindG (checkComPathToProposer en c recipientProposerId) (\<lambda>(needDetour, detourNextNode).
       if needDetour then
         if detourNextNode = - 1 then ret ()
         else bindG (dialog_encoder ph detourNextNode) (\<lambda>detourEncoder. dialSendBack en m detourEncoder)
       else dialSendBack en m encoder)"

text \<open>What a decoder yields: a message, the end of the connection, or another error.\<close>

datatype 'm recv = Received 'm | RecvEOF | RecvErr

text \<open>\<open>vgInst.Done()\<close>: a wait group panics below zero.\<close>

definition vgInst_Done :: "(node, unit) go" where
  "vgInst_Done = bindG (getG vgInst) (\<lambda>n.
     if n - 1 < 0 then panicG (PanicMsg ''sync: negative WaitGroup counter'')
     else modG (\<lambda>s. s\<lparr>vgInst := n - 1\<rparr>))"

text \<open>One \<open>BetweenProposerMsg\<close> with its four fields.\<close>

definition relay_one :: "env \<Rightarrow> cfg \<Rightarrow> phase \<Rightarrow> msg \<Rightarrow> int \<Rightarrow> int \<Rightarrow> phase \<Rightarrow> (node, unit) go" where
  "relay_one en c ph message sender recipient mph =
     bindG (checkComPathToValidator en c recipient) (\<lambda>(needDetour, detourNextNode).
       let nextNode = (if needDetour then detourNextNode else recipient);
           sendMessage = (if needDetour then Between message sender recipient mph else message)
       in if nextNode = - 1 then ret ()
          else bindG (registered ph nextNode) (\<lambda>reg. if \<not> reg then ret ()
            else try_send en (Concierge ph nextNode) sendMessage))"

fun relayBetweenProposerMessage :: "env \<Rightarrow> cfg \<Rightarrow> phase \<Rightarrow> (msg \<times> int \<times> int \<times> phase) recv list \<Rightarrow> (node, unit) go" where
  "relayBetweenProposerMessage en c ph [] = blockG"
| "relayBetweenProposerMessage en c ph (RecvEOF # rest) = vgInst_Done"
| "relayBetweenProposerMessage en c ph (RecvErr # rest) = relayBetweenProposerMessage en c ph rest"
| "relayBetweenProposerMessage en c ph (Received (m, sender, recipient, mph) # rest) =
     thenG (relay_one en c ph m sender recipient mph) (relayBetweenProposerMessage en c ph rest)"

section \<open>What sending changes\<close>

text \<open>Sending changes the log, the error flag and the number of clock reads, and nothing else.\<close>

definition net_frame :: "node \<Rightarrow> node \<Rightarrow> bool" where
  "net_frame s s' \<longleftrightarrow> s' = s\<lparr>sent := sent s', broadcastError := broadcastError s', clock_reads := clock_reads s'\<rparr>"

lemma net_frame_refl [simp]: "net_frame s s"
  by (simp add: net_frame_def)

lemma net_frame_ex: "net_frame s s' \<longleftrightarrow> (\<exists>a b n. s' = s\<lparr>sent := a, broadcastError := b, clock_reads := n\<rparr>)"
  unfolding net_frame_def by (auto; metis)

lemma net_frame_trans [trans]: "net_frame s t \<Longrightarrow> net_frame t u \<Longrightarrow> net_frame s u"
  unfolding net_frame_ex by clarsimp blast

lemma net_frame_intro [simp]:
  "net_frame s (s\<lparr>sent := x\<rparr>)" "net_frame s (s\<lparr>broadcastError := b\<rparr>)" "net_frame s (s\<lparr>clock_reads := n\<rparr>)"
  "net_frame s (s\<lparr>broadcastError := b, sent := x\<rparr>)" "net_frame s (s\<lparr>sent := x, broadcastError := b\<rparr>)"
  by (simp_all add: net_frame_def)

lemma net_frame_fields:
  assumes "net_frame s s'"
  shows "booMgr_b s' = booMgr_b s" "concierge s' = concierge s" "dialogMgr s' = dialogMgr s"
    "proToValComTimeMap s' = proToValComTimeMap s" "valToProComTimeMap s' = valToProComTimeMap s"
    "simulationStartTime s' = simulationStartTime s" "ordSnapshot s' = ordSnapshot s" "cmtSnapshot s' = cmtSnapshot s"
    "booMgr_index s' = booMgr_index s" "files s' = files s" "vgrec s' = vgrec s" "logIndex s' = logIndex s"
    "vgTxMeta_sigs s' = vgTxMeta_sigs s" "vgTxMeta_hash s' = vgTxMeta_hash s" "vgTxData_boo s' = vgTxData_boo s"
    "vgTxData_tx s' = vgTxData_tx s" "vgTxMeta_blockIDs s' = vgTxMeta_blockIDs s"
    "participantVehicleTimeData s' = participantVehicleTimeData s"
  using assms unfolding net_frame_ex by auto

text \<open>
  The log only grows, by messages that satisfy \<open>P\<close>, and the error flag is raised only by a
  failed send of this process.
\<close>

definition sends :: "(dest \<Rightarrow> msg \<Rightarrow> bool) \<Rightarrow> node \<Rightarrow> node \<Rightarrow> bool" where
  "sends P s s' \<longleftrightarrow> net_frame s s' \<and> (\<exists>new. sent s' = sent s @ new \<and> (\<forall>t \<in> set new. P (to t) (body t))
     \<and> (broadcastError s' \<longrightarrow> broadcastError s \<or> (\<exists>t \<in> set new. failed t)))"

lemma sends_refl [simp]: "sends P s s"
  by (simp add: sends_def)

lemma sends_clock: "sends P s0 s \<Longrightarrow> sends P s0 (s\<lparr>clock_reads := n\<rparr>)"
  unfolding sends_def by (auto intro: net_frame_trans)

lemma sends_encode:
  assumes "sends P s0 s" "P d m"
  shows "sends P s0 (s\<lparr>sent := sent s @ [\<lparr>to = d, body = m, failed = f\<rparr>]\<rparr>)"
    and "b \<Longrightarrow> broadcastError s \<or> f \<Longrightarrow> sends P s0 (s\<lparr>sent := sent s @ [\<lparr>to = d, body = m, failed = f\<rparr>], broadcastError := b\<rparr>)"
    and "\<not> b \<Longrightarrow> sends P s0 (s\<lparr>sent := sent s @ [\<lparr>to = d, body = m, failed = f\<rparr>], broadcastError := b\<rparr>)"
  using assms unfolding sends_def by (auto intro: net_frame_trans)

lemma try_send_run:
  "try_send en d m s = Done () (s\<lparr>sent := sent s @ [\<lparr>to = d, body = m, failed = encErr en (length (sent s))\<rparr>],
     broadcastError := (broadcastError s \<or> encErr en (length (sent s)))\<rparr>)"
  by (simp add: try_send_def set_broadcastError_def)

lemma registered_run:
  "registered ph i s = (if 0 \<le> i \<and> i < int (length (concierge s ph))
     then Done (concierge s ph ! nat i \<noteq> None) s else Panicked IndexOutOfRange s)"
  by (simp add: registered_def bindG_def)

text \<open>
  Exactly the messages \<open>g\<close> were handed to the network, and the error flag tells whether it was
  set before or one of these sends, to a destination that \<open>W\<close> counts, failed.
\<close>

fun logged :: "env \<Rightarrow> nat \<Rightarrow> (dest \<times> msg) list \<Rightarrow> transmission list" where
  "logged en n [] = []"
| "logged en n ((d, m) # g) = \<lparr>to = d, body = m, failed = encErr en n\<rparr> # logged en (Suc n) g"

lemma logged_append: "logged en n (g @ h) = logged en n g @ logged en (n + length g) h"
  by (induction g arbitrary: n) auto

lemma logged_length [simp]: "length (logged en n g) = length g"
  by (induction g arbitrary: n) auto

lemma logged_outbox: "map (\<lambda>t. (to t, body t)) (logged en n g) = g"
  by (induction g arbitrary: n) auto

definition log_step :: "env \<Rightarrow> (dest \<Rightarrow> bool) \<Rightarrow> (dest \<times> msg) list \<Rightarrow> node \<Rightarrow> node \<Rightarrow> bool" where
  "log_step en W g s s' \<longleftrightarrow> net_frame s s' \<and> sent s' = sent s @ logged en (length (sent s)) g
     \<and> (broadcastError s' \<longleftrightarrow> broadcastError s \<or> (\<exists>t \<in> set (logged en (length (sent s)) g). failed t \<and> W (to t)))"

lemma log_step_nil [simp]: "log_step en W [] s s"
  by (simp add: log_step_def)

lemma log_step_trans:
  assumes "log_step en W g s t" "log_step en W h t u"
  shows "log_step en W (g @ h) s u"
  using assms unfolding log_step_def by (auto simp: logged_append elim: net_frame_trans)

lemma log_step_frame: "log_step en W g s t \<Longrightarrow> net_frame s t"
  by (simp add: log_step_def)

lemma log_step_outbox: "log_step en W g s t \<Longrightarrow> outbox t = outbox s @ g"
  by (simp add: log_step_def outbox_def logged_outbox)

lemma log_step_sends: "log_step en W g s t \<Longrightarrow> \<forall>(d, m) \<in> set g. P d m \<Longrightarrow> sends P s t"
proof -
  have "\<forall>(d, m) \<in> set g. P d m \<Longrightarrow> \<forall>t \<in> set (logged en n g). P (to t) (body t)" for n
    by (induction g arbitrary: n) auto
  then show "log_step en W g s t \<Longrightarrow> \<forall>(d, m) \<in> set g. P d m \<Longrightarrow> sends P s t"
    unfolding log_step_def sends_def by auto
qed

lemma try_send_log: "W d \<Longrightarrow> \<exists>s'. try_send en d m s = Done () s' \<and> log_step en W [(d, m)] s s'"
  unfolding try_send_run by (simp add: log_step_def)

lemma quiet_send_log: "\<not> W d \<Longrightarrow> \<exists>s'. thenG (encodeG en d m) (ret ()) s = Done () s' \<and> log_step en W [(d, m)] s s'"
  by (auto simp add: log_step_def)

lemma forG_log:
  assumes "\<And>x t. x \<in> set xs \<Longrightarrow> net_frame s t \<Longrightarrow> \<exists>t'. f x t = Done () t' \<and> log_step en W (g x) t t'"
  shows "\<exists>s'. forG xs f s = Done () s' \<and> log_step en W (concat (map g xs)) s s'"
  using assms
proof (induction xs arbitrary: s)
  case (Cons x xs)
  obtain t where t: "f x s = Done () t" "log_step en W (g x) s t"
    using Cons.prems [of x s] by auto
  have "\<exists>s'. forG xs f t = Done () s' \<and> log_step en W (concat (map g xs)) t s'"
    by (rule Cons.IH) (use Cons.prems net_frame_trans [OF log_step_frame [OF t(2)]] in auto)
  then show ?case using t log_step_trans by fastforce
qed simp

definition members_to_send :: "cfg \<Rightarrow> node \<Rightarrow> phase \<Rightarrow> int list \<Rightarrow> int list" where
  "members_to_send c s ph is = filter (\<lambda>i. i \<noteq> ServerID c \<and> concierge s ph ! nat i \<noteq> None) is"

definition members_in_range :: "cfg \<Rightarrow> node \<Rightarrow> phase \<Rightarrow> int list \<Rightarrow> bool" where
  "members_in_range c s ph is \<longleftrightarrow> (\<forall>i \<in> set is. i \<noteq> ServerID c \<longrightarrow> 0 \<le> i \<and> i < int (length (concierge s ph)))"

lemma concat_members_to_send:
  "concat (map (\<lambda>i. if i = ServerID c \<or> concierge s ph ! nat i = None then [] else [f i]) is) = map f (members_to_send c s ph is)"
  by (induction "is") (auto simp: members_to_send_def)

lemma member_send_log:
  assumes "members_in_range c s ph is" "i \<in> set is" "net_frame s t"
  shows "\<exists>t'. (if ServerID c = i then ret () else bindG (registered ph i) (\<lambda>reg. if \<not> reg then ret () else try_send en (Concierge ph i) e)) t = Done () t'
    \<and> log_step en (\<lambda>_. True) (if i = ServerID c \<or> concierge s ph ! nat i = None then [] else [(Concierge ph i, e)]) t t'"
  using assms try_send_log [of "\<lambda>_. True" "Concierge ph i" en e t] net_frame_fields(2) [OF assms(3)]
  by (auto simp: members_in_range_def registered_run)

lemma broadcastToBooth_loop:
  assumes "\<not> broadcastError s" "0 \<le> b" "b < int (length (booMgr_b s))"
    and range: "members_in_range c s ph (Indices (booMgr_b s ! nat b))"
  shows "\<exists>s'. broadcastToBooth en c e ph b s = Done () s'
    \<and> log_step en (\<lambda>_. True) (map (\<lambda>i. (Concierge ph i, e)) (members_to_send c s ph (Indices (booMgr_b s ! nat b)))) s s'"
proof -
  let ?is = "Indices (booMgr_b s ! nat b)"
  have "\<exists>s'. forG ?is (\<lambda>i. if ServerID c = i then ret () else bindG (registered ph i)
        (\<lambda>reg. if \<not> reg then ret () else try_send en (Concierge ph i) e)) s = Done () s'
      \<and> log_step en (\<lambda>_. True) (concat (map (\<lambda>i. if i = ServerID c \<or> concierge s ph ! nat i = None then [] else [(Concierge ph i, e)]) ?is)) s s'"
    by (rule forG_log) (rule member_send_log [OF range])
  then show ?thesis
    unfolding concat_members_to_send using assms by (simp add: broadcastToBooth_def)
qed

text \<open>Without an earlier send error, and with every member of the booth a valid index of the connection table,
  \<open>broadcastToBooth\<close> returns after one send, in booth order, to every registered member other than
  the sender; the error flag is then set exactly when one of these sends failed.\<close>

theorem broadcastToBooth_sends:
  assumes "\<not> broadcastError s" "0 \<le> b" "b < int (length (booMgr_b s))"
    and range: "members_in_range c s ph (Indices (booMgr_b s ! nat b))"
  shows "\<exists>s'. broadcastToBooth en c e ph b s = Done () s'
    \<and> log_step en (\<lambda>_. True) (map (\<lambda>i. (Concierge ph i, e)) (members_to_send c s ph (Indices (booMgr_b s ! nat b)))) s s'"
  using assms by (rule broadcastToBooth_loop)

section \<open>Detours\<close>

text \<open>The route at the clock's \<open>k\<close>-th read.\<close>

definition key_at :: "env \<Rightarrow> node \<Rightarrow> nat \<Rightarrow> string" where
  "key_at en s k = formatPast en (unixMilli en k) (simulationStartTime s)"

definition heard_by :: "node \<Rightarrow> int \<Rightarrow> string \<Rightarrow> int list" where
  "heard_by s p key = (case nget (proToValComTimeMap s) p key of None \<Rightarrow> [] | Some l \<Rightarrow> l)"

definition hears :: "node \<Rightarrow> int \<Rightarrow> string \<Rightarrow> int list" where
  "hears s v key = (case nget (valToProComTimeMap s) v key of None \<Rightarrow> [] | Some l \<Rightarrow> l)"

definition route :: "env \<Rightarrow> cfg \<Rightarrow> node \<Rightarrow> nat \<Rightarrow> int \<Rightarrow> bool \<times> int" where
  "route en c s k v =
     (if v \<in> set (heard_by s (ServerID c) (key_at en s k)) then (False, v)
      else if AllowBypassRoute c \<and> hears s v (key_at en s k) \<noteq> [] then (True, hd (hears s v (key_at en s k)))
      else (True, - 1))"

lemma getNowTimeKey_run: "getNowTimeKey en s = Done (key_at en s (clock_reads s)) (look s)"
  by (simp add: getNowTimeKey_def key_at_def look_def)

lemma checkComPathToValidator_run:
  "checkComPathToValidator en c v s = Done (route en c s (clock_reads s) v) (look s)"
  by (simp add: checkComPathToValidator_def getNowTimeKey_run route_def heard_by_def hears_def look_def key_at_def)

lemma checkComPathToProposer_run:
  "checkComPathToProposer en c p s =
     (let l = hears s (ServerID c) (key_at en s (clock_reads s)) in
      Done (if p \<in> set l then (False, p) else if AllowBypassRoute c \<and> l \<noteq> [] then (True, hd l) else (True, - 1)) (look s))"
  by (simp add: checkComPathToProposer_def getNowTimeKey_run hears_def look_def key_at_def Let_def)

lemma net_frame_look [simp]: "net_frame s (look s)"
  by (simp add: look_def)

lemma net_frame_route: "net_frame s t \<Longrightarrow> route en c t k v = route en c s k v"
  by (simp add: route_def heard_by_def hears_def key_at_def net_frame_fields)

lemma look_fields: "sent (look s) = sent s" "broadcastError (look s) = broadcastError s"
  by (simp_all add: look_def)

lemma log_step_look: "log_step en W g (look s) s' \<Longrightarrow> log_step en W g s s'"
  using net_frame_trans [OF net_frame_look] by (simp add: log_step_def look_fields)

text \<open>The members that hear this proposer whenever it looks; then no message goes a detour.\<close>

definition all_heard :: "env \<Rightarrow> cfg \<Rightarrow> node \<Rightarrow> int list \<Rightarrow> bool" where
  "all_heard en c s is \<longleftrightarrow> (\<forall>i \<in> set is. i \<noteq> ServerID c \<longrightarrow> (\<forall>k. i \<in> set (heard_by s (ServerID c) (key_at en s k))))"

lemma all_heard_route:
  assumes "all_heard en c s is" "i \<in> set is" "i \<noteq> ServerID c" "net_frame s t"
  shows "checkComPathToValidator en c i t = Done (False, i) (look t)"
proof -
  have "route en c t (clock_reads t) i = (False, i)"
    using assms(1-3) by (simp add: net_frame_route [OF assms(4)]) (simp add: route_def all_heard_def)
  then show ?thesis by (simp add: checkComPathToValidator_run)
qed

text \<open>Routes that are the same at every look at the clock, with every next node an index of the connection table, or none.\<close>

definition steady_routes :: "env \<Rightarrow> cfg \<Rightarrow> node \<Rightarrow> phase \<Rightarrow> (int \<Rightarrow> bool \<times> int) \<Rightarrow> int list \<Rightarrow> bool" where
  "steady_routes en c s ph R is \<longleftrightarrow> (\<forall>i \<in> set is. i \<noteq> ServerID c \<longrightarrow> (\<forall>k. route en c s k i = R i)
     \<and> (snd (R i) = - 1 \<or> 0 \<le> snd (R i) \<and> snd (R i) < int (length (concierge s ph))))"

text \<open>What is then sent for one member: the message to the member, or wrapped to the next node, or nothing.\<close>

definition sent_over :: "cfg \<Rightarrow> node \<Rightarrow> phase \<Rightarrow> msg \<Rightarrow> (int \<Rightarrow> bool \<times> int) \<Rightarrow> int \<Rightarrow> (dest \<times> msg) list" where
  "sent_over c s ph e R i =
     (if i = ServerID c \<or> snd (R i) = - 1 \<or> concierge s ph ! nat (snd (R i)) = None then []
      else [(Concierge ph (snd (R i)), if fst (R i) then Between e (ServerID c) i ph else e)])"

lemma route_direct: "\<not> fst (route en c s k i) \<Longrightarrow> snd (route en c s k i) = i"
  by (simp add: route_def split: if_splits)

lemma broadcastToBoothWithComCheck_steady:
  assumes "\<not> broadcastError s" "0 \<le> b" "b < int (length (booMgr_b s))"
    and steady: "steady_routes en c s ph R (Indices (booMgr_b s ! nat b))"
  shows "\<exists>s'. broadcastToBoothWithComCheck en c e ph b s = Done () s'
    \<and> log_step en (\<lambda>_. True) (concat (map (sent_over c s ph e R) (Indices (booMgr_b s ! nat b)))) s s'"
proof -
  let ?is = "Indices (booMgr_b s ! nat b)"
  let ?f = "(\<lambda>i. if ServerID c = i then ret ()
       else bindG (checkComPathToValidator en c i) (\<lambda>(needDetour, detourNextNode).
         let nextNode = (if needDetour then detourNextNode else i);
             message = (if needDetour then Between e (ServerID c) i ph else e)
         in if nextNode = - 1 then ret ()
            else bindG (registered ph nextNode) (\<lambda>reg. if \<not> reg then ret () else try_send en (Concierge ph nextNode) message)))"
  have step: "\<exists>t'. ?f i t = Done () t' \<and> log_step en (\<lambda>_. True) (sent_over c s ph e R i) t t'" if i: "i \<in> set ?is" and t: "net_frame s t" for i t
  proof (cases "i = ServerID c")
    case False
    let ?n = "snd (R i)" and ?m = "if fst (R i) then Between e (ServerID c) i ph else e"
    have "route en c t (clock_reads t) i = R i" and n: "?n = - 1 \<or> 0 \<le> ?n \<and> ?n < int (length (concierge s ph))"
      using steady i False by (simp_all add: net_frame_route [OF t] steady_routes_def)
    moreover have "\<not> fst (R i) \<Longrightarrow> ?n = i" using route_direct [of en c t "clock_reads t" i] unfolding \<open>route en c t (clock_reads t) i = R i\<close> .
    ultimately have run: "?f i t = (if ?n = - 1 then ret () else bindG (registered ph ?n) (\<lambda>reg. if \<not> reg then ret () else try_send en (Concierge ph ?n) ?m)) (look t)"
      using False by (cases "fst (R i)") (simp_all add: checkComPathToValidator_run Let_def split_beta cong: if_cong)
    have "\<exists>t'. (if ?n = - 1 then ret () else bindG (registered ph ?n) (\<lambda>reg. if \<not> reg then ret () else try_send en (Concierge ph ?n) ?m)) (look t) = Done () t'
        \<and> log_step en (\<lambda>_. True) (sent_over c s ph e R i) (look t) t'"
      using try_send_log [of "\<lambda>_. True" "Concierge ph ?n" en ?m "look t"] net_frame_fields(2) [OF net_frame_trans [OF t net_frame_look]] n False
      by (auto simp: registered_run sent_over_def)
    then show ?thesis unfolding run using log_step_look by blast
  qed (simp add: sent_over_def)
  have "\<exists>s'. forG ?is ?f s = Done () s' \<and> log_step en (\<lambda>_. True) (concat (map (sent_over c s ph e R) ?is)) s s'"
    by (rule forG_log) (rule step)
  then show ?thesis using assms(1-3) by (simp add: broadcastToBoothWithComCheck_def)
qed

text \<open>Members in earshot all get the message itself.\<close>

lemma broadcastToBoothWithComCheck_loop:
  assumes "\<not> broadcastError s" "0 \<le> b" "b < int (length (booMgr_b s))"
    and range: "members_in_range c s ph (Indices (booMgr_b s ! nat b))" and heard: "all_heard en c s (Indices (booMgr_b s ! nat b))"
  shows "\<exists>s'. broadcastToBoothWithComCheck en c e ph b s = Done () s'
    \<and> log_step en (\<lambda>_. True) (map (\<lambda>i. (Concierge ph i, e)) (members_to_send c s ph (Indices (booMgr_b s ! nat b)))) s s'"
proof -
  let ?R = "\<lambda>i. (False, i)" and ?is = "Indices (booMgr_b s ! nat b)"
  have "steady_routes en c s ph ?R ?is"
    using range heard by (auto simp: steady_routes_def route_def all_heard_def members_in_range_def)
  moreover have "concat (map (sent_over c s ph e ?R) ?is) = map (\<lambda>i. (Concierge ph i, e)) (members_to_send c s ph ?is)"
    unfolding concat_members_to_send [symmetric]
    by (rule arg_cong [where f = concat], rule map_cong) (use range in \<open>auto simp: sent_over_def members_in_range_def\<close>)
  ultimately show ?thesis using broadcastToBoothWithComCheck_steady [OF assms(1-3), of en c ph ?R e] by simp
qed

text \<open>When every other member of the booth hears the proposer at all times,
  \<open>broadcastToBoothWithComCheck\<close> sends exactly what \<open>broadcastToBooth\<close> sends.\<close>

theorem com_check_all_heard:
  assumes "\<not> broadcastError s" "0 \<le> b" "b < int (length (booMgr_b s))"
    and range: "members_in_range c s ph (Indices (booMgr_b s ! nat b))" and heard: "all_heard en c s (Indices (booMgr_b s ! nat b))"
  shows "\<exists>s1 s2. broadcastToBoothWithComCheck en c e ph b s = Done () s1 \<and> broadcastToBooth en c e ph b s = Done () s2
    \<and> sent s1 = sent s2 \<and> broadcastError s1 = broadcastError s2"
  using broadcastToBoothWithComCheck_loop [OF assms, of e] broadcastToBooth_loop [OF assms(1-4), of en e]
  unfolding log_step_def by (elim exE conjE, intro exI conjI) (assumption | simp)+

text \<open>It returns, whatever the routes, when the proposers of possible detours are indices of the connection table.\<close>

definition detours_in_range :: "cfg \<Rightarrow> node \<Rightarrow> phase \<Rightarrow> bool" where
  "detours_in_range c s ph \<longleftrightarrow> EvaluateComPossibilityFlag c \<longrightarrow> AllowBypassRoute c \<longrightarrow>
     (\<forall>v key. \<forall>p \<in> set (hears s v key). 0 \<le> p \<and> p < int (length (concierge s ph)))"

lemma forG_returns:
  assumes "\<And>x t. x \<in> set xs \<Longrightarrow> net_frame s t \<Longrightarrow> \<exists>t'. f x t = Done () t' \<and> net_frame t t'"
  shows "\<exists>s'. forG xs f s = Done () s'"
  using assms
proof (induction xs arbitrary: s)
  case (Cons x xs)
  obtain t where t: "f x s = Done () t" "net_frame s t" using Cons.prems [of x s] by auto
  have "\<exists>s'. forG xs f t = Done () s'" by (rule Cons.IH) (use Cons.prems net_frame_trans [OF t(2)] in auto)
  then show ?case using t by simp
qed simp

lemma broadcastToBoothWithComCheck_returns:
  assumes "0 \<le> b" "b < int (length (booMgr_b s))" "members_in_range c s ph (Indices (booMgr_b s ! nat b))"
    and "detours_in_range c s ph" "EvaluateComPossibilityFlag c"
  shows "\<exists>s'. broadcastToBoothWithComCheck en c e ph b s = Done () s'"
proof (cases "broadcastError s")
  case False
  let ?f = "(\<lambda>i. if ServerID c = i then ret ()
       else bindG (checkComPathToValidator en c i) (\<lambda>(needDetour, detourNextNode).
         let nextNode = (if needDetour then detourNextNode else i);
             message = (if needDetour then Between e (ServerID c) i ph else e)
         in if nextNode = - 1 then ret ()
            else bindG (registered ph nextNode) (\<lambda>reg. if \<not> reg then ret () else try_send en (Concierge ph nextNode) message)))"
  have step: "\<exists>t'. ?f i t = Done () t' \<and> net_frame t t'" if i: "i \<in> set (Indices (booMgr_b s ! nat b))" and t: "net_frame s t" for i t
  proof (cases "ServerID c = i")
    case other: False
    obtain nd n where r: "route en c s (clock_reads t) i = (nd, n)" by fastforce
    let ?n = "if nd then n else i"
    have n: "?n = - 1 \<or> 0 \<le> ?n \<and> ?n < int (length (concierge s ph))"
    proof -
      let ?h = "hears s i (key_at en s (clock_reads t))"
      have "AllowBypassRoute c \<and> n \<in> set ?h \<or> n = i \<or> n = - 1" using r by (auto simp: route_def split: if_splits)
      moreover have "0 \<le> i \<and> i < int (length (concierge s ph))" using assms(3) i other by (auto simp: members_in_range_def)
      moreover have "AllowBypassRoute c \<Longrightarrow> n \<in> set ?h \<Longrightarrow> 0 \<le> n \<and> n < int (length (concierge s ph))"
        using assms(4,5) unfolding detours_in_range_def by blast
      ultimately show ?thesis by auto
    qed
    have send: "\<exists>t'. try_send en d m (look t) = Done () t' \<and> net_frame t t'" for d m
      using try_send_log [where W = "\<lambda>_. True" and d = d and en = en and m = m and s = "look t"] by (blast intro: net_frame_trans [OF net_frame_look] log_step_frame)
    have conc: "concierge (look t) = concierge s" by (rule net_frame_fields(2) [OF net_frame_trans [OF t net_frame_look]])
    have reg: "\<exists>t'. bindG (registered ph j) (\<lambda>reg. if \<not> reg then ret () else try_send en (Concierge ph j) m) (look t) = Done () t' \<and> net_frame t t'"
      if "0 \<le> j" "j < int (length (concierge s ph))" for j m
    proof -
      have "registered ph j (look t) = Done (concierge s ph ! nat j \<noteq> None) (look t)" using that by (simp add: registered_run conc)
      then show ?thesis unfolding bindG_Done [where m = "registered ph j", OF \<open>registered ph j (look t) = _\<close>] using send by (cases "concierge s ph ! nat j = None") simp_all
    qed
    have "checkComPathToValidator en c i t = Done (nd, n) (look t)"
      using r by (simp add: checkComPathToValidator_run net_frame_route [OF t])
    then show ?thesis using n other reg [of n] reg [of i] by (cases nd) (auto simp: Let_def)
  qed simp
  have "\<exists>s'. forG (Indices (booMgr_b s ! nat b)) ?f s = Done () s'" by (rule forG_returns) (rule step)
  then show ?thesis using False assms(1,2) by (simp add: broadcastToBoothWithComCheck_def)
qed (simp add: broadcastToBoothWithComCheck_def)

text \<open>
  What a broadcast with path check sends to the members \<open>is\<close> when its first check is the \<open>k\<close>-th
  reading of the clock: every member other than the sender takes one reading, and its message
  goes the route of that reading.
\<close>

fun checked_sends :: "env \<Rightarrow> cfg \<Rightarrow> node \<Rightarrow> phase \<Rightarrow> msg \<Rightarrow> nat \<Rightarrow> int list \<Rightarrow> (dest \<times> msg) list" where
  "checked_sends en c s ph e k [] = []"
| "checked_sends en c s ph e k (i # is) =
     (if i = ServerID c then checked_sends en c s ph e k is
      else sent_over c s ph e (route en c s k) i @ checked_sends en c s ph e (Suc k) is)"

text \<open>The number of checks, and the members before which the broadcast stops: the next node of the first
  one left out is no index of the connection table.\<close>

definition checks :: "cfg \<Rightarrow> int list \<Rightarrow> nat" where
  "checks c is = length (filter (\<lambda>i. i \<noteq> ServerID c) is)"

definition stops_after :: "env \<Rightarrow> cfg \<Rightarrow> node \<Rightarrow> phase \<Rightarrow> nat \<Rightarrow> int list \<Rightarrow> int list \<Rightarrow> bool" where
  "stops_after en c s ph k is sofar \<longleftrightarrow> (\<exists>i rest. is = sofar @ i # rest \<and> i \<noteq> ServerID c \<and>
     (let n = snd (route en c s (k + checks c sofar) i) in n \<noteq> - 1 \<and> \<not> (0 \<le> n \<and> n < int (length (concierge s ph)))))"

lemma checks_simps [simp]: "checks c [] = 0" "checks c (i # is) = (if i = ServerID c then checks c is else Suc (checks c is))"
  by (simp_all add: checks_def)

lemma stops_after_Cons:
  "i = ServerID c \<Longrightarrow> stops_after en c s ph k is sofar \<Longrightarrow> stops_after en c s ph k (i # is) (i # sofar)"
  "i \<noteq> ServerID c \<Longrightarrow> stops_after en c s ph (Suc k) is sofar \<Longrightarrow> stops_after en c s ph k (i # is) (i # sofar)"
  unfolding stops_after_def by auto

text \<open>The outcome of the loop over the members.\<close>

definition checked_outcome :: "env \<Rightarrow> cfg \<Rightarrow> node \<Rightarrow> phase \<Rightarrow> msg \<Rightarrow> nat \<Rightarrow> int list \<Rightarrow> node \<Rightarrow> (unit, node) outcome \<Rightarrow> bool" where
  "checked_outcome en c s ph e k is t out = (case out of
       Done _ t' \<Rightarrow> log_step en (\<lambda>_. True) (checked_sends en c s ph e k is) t t' \<and> clock_reads t' = k + checks c is
     | Panicked p t' \<Rightarrow> p = IndexOutOfRange \<and> (\<exists>sofar. stops_after en c s ph k is sofar
         \<and> log_step en (\<lambda>_. True) (checked_sends en c s ph e k sofar) t t')
     | Blocked t' \<Rightarrow> False)"

lemma checked_outcome_step:
  assumes "log_step en (\<lambda>_. True) (sent_over c s ph e (route en c s k) i) t u" "i \<noteq> ServerID c"
    and rest: "checked_outcome en c s ph e (Suc k) is u out"
  shows "checked_outcome en c s ph e k (i # is) t out"
proof (cases out)
  case (Panicked p v)
  then obtain sofar where d: "p = IndexOutOfRange" "stops_after en c s ph (Suc k) is sofar"
    "log_step en (\<lambda>_. True) (checked_sends en c s ph e (Suc k) sofar) u v"
    using rest by (auto simp: checked_outcome_def)
  have "log_step en (\<lambda>_. True) (checked_sends en c s ph e k (i # sofar)) t v"
    using log_step_trans [OF assms(1) d(3)] assms(2) by simp
  then show ?thesis using stops_after_Cons(2) [OF assms(2) d(2)] d(1) Panicked by (auto simp: checked_outcome_def)
qed (use assms log_step_trans [OF assms(1)] in \<open>auto simp: checked_outcome_def\<close>)

lemma checked_outcome_self:
  assumes "i = ServerID c" "checked_outcome en c s ph e k is t out"
  shows "checked_outcome en c s ph e k (i # is) t out"
proof (cases out)
  case (Panicked p v)
  then obtain sofar where d: "p = IndexOutOfRange" "stops_after en c s ph k is sofar"
    "log_step en (\<lambda>_. True) (checked_sends en c s ph e k sofar) t v"
    using assms(2) by (auto simp: checked_outcome_def)
  then have "log_step en (\<lambda>_. True) (checked_sends en c s ph e k (i # sofar)) t v" using assms(1) by simp
  then show ?thesis using stops_after_Cons(1) [OF assms(1) d(2)] d(1) Panicked by (auto simp: checked_outcome_def)
qed (use assms in \<open>auto simp: checked_outcome_def\<close>)

definition checked_send :: "env \<Rightarrow> cfg \<Rightarrow> msg \<Rightarrow> phase \<Rightarrow> int \<Rightarrow> (node, unit) go" where
  "checked_send en c e ph i = (if ServerID c = i then ret ()
     else bindG (checkComPathToValidator en c i) (\<lambda>(needDetour, detourNextNode).
       let nextNode = (if needDetour then detourNextNode else i);
           message = (if needDetour then Between e (ServerID c) i ph else e)
       in if nextNode = - 1 then ret ()
          else bindG (registered ph nextNode) (\<lambda>reg. if \<not> reg then ret () else try_send en (Concierge ph nextNode) message)))"

lemma checked_send_run:
  assumes t: "net_frame s t" and "i \<noteq> ServerID c" and n_def: "n = snd (route en c s (clock_reads t) i)"
  shows "if n \<noteq> - 1 \<and> \<not> (0 \<le> n \<and> n < int (length (concierge s ph)))
    then checked_send en c e ph i t = Panicked IndexOutOfRange (look t)
    else \<exists>u. checked_send en c e ph i t = Done () u \<and> clock_reads u = Suc (clock_reads t)
      \<and> log_step en (\<lambda>_. True) (sent_over c s ph e (route en c s (clock_reads t)) i) t u"
proof -
  obtain nd where r: "route en c s (clock_reads t) i = (nd, n)" unfolding n_def by (cases "route en c s (clock_reads t) i") auto
  have n: "(if nd then n else i) = n" using route_direct [of en c s "clock_reads t" i] r by auto
  have conc: "concierge t = concierge s" by (rule net_frame_fields(2) [OF t])
  have run: "checked_send en c e ph i t = (if n = - 1 then ret () else bindG (registered ph n) (\<lambda>reg. if \<not> reg then ret ()
      else try_send en (Concierge ph n) (if nd then Between e (ServerID c) i ph else e))) (look t)"
    using assms(2) r n by (simp add: checked_send_def checkComPathToValidator_run net_frame_route [OF t] Let_def cong: if_cong)
  show ?thesis unfolding run using assms(2) r
    by (auto simp: registered_run conc sent_over_def try_send_run log_step_def look_fields look_def
        bindG_def intro: net_frame_trans [OF net_frame_look])
qed

lemma checked_loop:
  assumes "net_frame s t"
  shows "checked_outcome en c s ph e (clock_reads t) is t (forG is (checked_send en c e ph) t)"
  using assms
proof (induction "is" arbitrary: t)
  case Nil
  then show ?case by (simp add: checked_outcome_def)
next
  case (Cons i "is")
  show ?case
  proof (cases "i = ServerID c")
    case True
    then show ?thesis using checked_outcome_self [OF True Cons.IH [OF Cons.prems]] by (simp add: checked_send_def)
  next
    case False
    let ?n = "snd (route en c s (clock_reads t) i)"
    note step = checked_send_run [OF Cons.prems False refl, of en ph e]
    show ?thesis
    proof (cases "?n \<noteq> - 1 \<and> \<not> (0 \<le> ?n \<and> ?n < int (length (concierge s ph)))")
      case True
      then have "stops_after en c s ph (clock_reads t) (i # is) []" using False by (auto simp: stops_after_def Let_def)
      moreover have "log_step en (\<lambda>_. True) [] t (look t)" by (rule log_step_look [OF log_step_nil])
      ultimately show ?thesis using step True by (auto simp: checked_outcome_def intro!: exI [of _ "[]"])
    next
      case ok: False
      then obtain u where u: "checked_send en c e ph i t = Done () u" "clock_reads u = Suc (clock_reads t)"
        "log_step en (\<lambda>_. True) (sent_over c s ph e (route en c s (clock_reads t)) i) t u"
        using step by (auto split: if_splits)
      have "checked_outcome en c s ph e (Suc (clock_reads t)) is u (forG is (checked_send en c e ph) u)"
        using Cons.IH [OF net_frame_trans [OF Cons.prems log_step_frame [OF u(3)]]] u(2) by simp
      then show ?thesis using checked_outcome_step [OF u(3) False] u(1) by simp
    qed
  qed
qed

lemma sends_look: "sends P s t \<Longrightarrow> sends P s (look t)"
  unfolding look_def by (rule sends_clock)

lemma sends_frame: "sends P s t \<Longrightarrow> net_frame s t"
  by (simp add: sends_def)

lemma pres_sends: "pres (sends P s) m \<Longrightarrow> sends P s (final (m s))"
  by (simp add: pres_def)

lemma pres_forG_set: "(\<And>x. x \<in> set xs \<Longrightarrow> pres J (f x)) \<Longrightarrow> pres J (forG xs f)"
  by (induction xs) (auto intro: pres_intros)

lemma pres_try_send: "P d m \<Longrightarrow> pres (sends P s) (try_send en d m)"
  unfolding pres_def try_send_run using sends_encode(2,3) [of P s _ d m]
  by (metis final.simps(1))

lemma pres_registered [pres_intros]: "pres J (registered ph i)"
  unfolding registered_def by (intro pres_intros)

lemma pres_route_then:
  assumes "\<And>k nd n. route en c s k i = (nd, n) \<Longrightarrow> pres (sends P s) (f (nd, n))"
  shows "pres (sends P s) (bindG (checkComPathToValidator en c i) f)"
proof (rule presI)
  fix t assume t: "sends P s t"
  obtain nd n where r: "route en c s (clock_reads t) i = (nd, n)" by fastforce
  have "bindG (checkComPathToValidator en c i) f t = f (nd, n) (look t)"
    using r by (simp add: checkComPathToValidator_run net_frame_route [OF sends_frame [OF t]])
  then show "sends P s (final (bindG (checkComPathToValidator en c i) f t))"
    using presD [OF assms [OF r] sends_look [OF t]] by simp
qed

text \<open>C20: The exact outcome of \<open>broadcastToBoothWithComCheck\<close> from any state. After an earlier send error it
  does nothing, and an unknown booth panics. Otherwise every member of the booth other than the
  sender is checked once, in booth order, with one reading of the clock per check, and by the time of that very
  reading the message goes to the member itself when the member hears the proposer; when it does not,
  and bypassing is allowed, wrapped to the first proposer the member can then talk to; and nowhere when there is no such proposer or no connection to the next node.
  Nothing else is sent, nothing but the log, the error flag (raised exactly when one of these sends fails) and the clock changes;
  the loop never blocks, and it panics only at a member whose next node is no index of the connection
  table, after the sends for the members before it.\<close>

theorem detour_safety:
  "if broadcastError s then broadcastToBoothWithComCheck en c e ph b s = Done () s
   else if b < 0 \<or> int (length (booMgr_b s)) \<le> b then broadcastToBoothWithComCheck en c e ph b s = Panicked IndexOutOfRange s
   else checked_outcome en c s ph e (clock_reads s) (Indices (booMgr_b s ! nat b)) s (broadcastToBoothWithComCheck en c e ph b s)"
proof -
  have "\<not> broadcastError s \<Longrightarrow> 0 \<le> b \<Longrightarrow> b < int (length (booMgr_b s)) \<Longrightarrow> broadcastToBoothWithComCheck en c e ph b s
      = forG (Indices (booMgr_b s ! nat b)) (checked_send en c e ph) s"
    by (simp add: broadcastToBoothWithComCheck_def checked_send_def [abs_def])
  then show ?thesis using checked_loop [OF net_frame_refl, of en c s ph e "Indices (booMgr_b s ! nat b)"]
    by (auto simp: broadcastToBoothWithComCheck_def bindG_def idxG_def)
qed

section \<open>After a failed send\<close>

lemma broadcasts_silent:
  assumes "broadcastError s"
  shows "broadcastToBooth en c e ph b s = Done () s" "broadcastToNewBooth en c e ph b ns e' s = Done () s"
    "broadcastToBoothWithComCheck en c e ph b s = Done () s"
    "broadcastToNewBoothWithComCheck en c e ph b ns e' s = Done () s" "broadcastToAll en c e ph s = Done () s"
  using assms by (simp_all add: broadcastToBooth_def broadcastToNewBooth_def broadcastToBoothWithComCheck_def
      broadcastToNewBoothWithComCheck_def broadcastToAll_def)

text \<open>One failed send silences the process: when a send of \<open>broadcastToBooth\<close> fails, every broadcast
  after it, of any message in any phase to any booth, with or without path check, sends nothing.\<close>

theorem failed_send_silences:
  assumes "\<not> broadcastError s" "0 \<le> b" "b < int (length (booMgr_b s))"
    and range: "members_in_range c s ph (Indices (booMgr_b s ! nat b))"
    and run: "broadcastToBooth en c e ph b s = Done () s'"
    and err: "\<exists>t \<in> set (drop (length (sent s)) (sent s')). failed t"
  shows "broadcastToBooth en c e1 ph1 b1 s' = Done () s' \<and> broadcastToNewBooth en c e1 ph1 b1 ns e2 s' = Done () s'
    \<and> broadcastToBoothWithComCheck en c e1 ph1 b1 s' = Done () s'
    \<and> broadcastToNewBoothWithComCheck en c e1 ph1 b1 ns e2 s' = Done () s' \<and> broadcastToAll en c e1 ph1 s' = Done () s'"
proof -
  have "broadcastError s'"
    using broadcastToBooth_loop [OF assms(1-3) range, of en e] run err by (auto simp: log_step_def)
  then show ?thesis by (simp add: broadcasts_silent)
qed

section \<open>A booth with new members\<close>

definition regular_or_new :: "phase \<Rightarrow> msg \<Rightarrow> int list \<Rightarrow> msg \<Rightarrow> int \<Rightarrow> dest \<times> msg" where
  "regular_or_new ph regularMsg newMemberIDs newMsg i = (Concierge ph i, if i \<in> set newMemberIDs then newMsg else regularMsg)"

lemma new_member_sends:
  assumes "distinct ns" "\<not> W (Concierge ph i)"
  shows "\<exists>t'. forG ns (\<lambda>n. if n = i then thenG (encodeG en (Concierge ph i) m) (ret ()) else ret ()) t = Done () t'
    \<and> log_step en W (if i \<in> set ns then [(Concierge ph i, m)] else []) t t'"
  using assms(1)
proof (induction ns arbitrary: t)
  case (Cons n ns)
  then show ?case
  proof (cases "n = i")
    case True
    then obtain u where u: "thenG (encodeG en (Concierge ph i) m) (ret ()) t = Done () u" "log_step en W [(Concierge ph i, m)] t u"
      using quiet_send_log [of W, OF assms(2)] by blast
    have "forG ns (\<lambda>n. if n = i then thenG (encodeG en (Concierge ph i) m) (ret ()) else ret ()) u = Done () u"
      using Cons.prems True by (induction ns) auto
    then show ?thesis using u True by simp
  qed auto
qed simp

lemma broadcastToNewBooth_loop:
  assumes "\<not> broadcastError s" "0 \<le> b" "b < int (length (booMgr_b s))" "distinct newMemberIDs"
    and range: "members_in_range c s ph (Indices (booMgr_b s ! nat b))"
  shows "\<exists>s'. broadcastToNewBooth en c regularMsg ph b newMemberIDs newMsg s = Done () s'
    \<and> log_step en (\<lambda>d. d \<notin> Concierge ph ` set newMemberIDs)
        (map (regular_or_new ph regularMsg newMemberIDs newMsg) (members_to_send c s ph (Indices (booMgr_b s ! nat b)))) s s'"
proof -
  let ?is = "Indices (booMgr_b s ! nat b)" and ?W = "\<lambda>d. d \<notin> Concierge ph ` set newMemberIDs"
  let ?g = "\<lambda>i. if i = ServerID c \<or> concierge s ph ! nat i = None then [] else [regular_or_new ph regularMsg newMemberIDs newMsg i]"
  let ?f = "(\<lambda>i. if ServerID c = i then ret ()
       else bindG (registered ph i) (\<lambda>reg. if \<not> reg then ret ()
         else thenG (forG newMemberIDs (\<lambda>newMember.
                if newMember = i then thenG (encodeG en (Concierge ph i) newMsg) (ret ()) else ret ()))
              (if i \<in> set newMemberIDs then ret () else try_send en (Concierge ph i) regularMsg)))"
  have step: "\<exists>t'. ?f i t = Done () t' \<and> log_step en ?W (?g i) t t'"
    if i: "i \<in> set ?is" and t: "net_frame s t" for i t
  proof (cases "i = ServerID c")
    case False
    then have reg: "registered ph i t = Done (concierge s ph ! nat i \<noteq> None) t"
      using range i by (simp add: registered_run members_in_range_def net_frame_fields(2) [OF t])
    show ?thesis
    proof (cases "i \<in> set newMemberIDs")
      case True
      then have "\<not> ?W (Concierge ph i)" by simp
      from new_member_sends [where W = ?W, OF \<open>distinct newMemberIDs\<close> this, of en newMsg t]
      show ?thesis using reg False True by (auto simp: regular_or_new_def)
    next
      case new: False
      have skip: "forG newMemberIDs (\<lambda>n. if n = i then thenG (encodeG en (Concierge ph i) newMsg) (ret ()) else ret ()) t = Done () t"
        using new by (induction newMemberIDs) auto
      have "?W (Concierge ph i)" using new by auto
      from try_send_log [where W = ?W, OF this, of en regularMsg t]
      show ?thesis using reg False new skip by (auto simp: regular_or_new_def)
    qed
  qed simp
  have "\<exists>s'. forG ?is ?f s = Done () s' \<and> log_step en ?W (concat (map ?g ?is)) s s'"
    by (rule forG_log) (rule step)
  then show ?thesis
    unfolding concat_members_to_send using assms(1-3) by (simp add: broadcastToNewBooth_def)
qed

text \<open>The same with a path check that every member passes.\<close>

lemma broadcastToNewBoothWithComCheck_loop:
  assumes "\<not> broadcastError s" "0 \<le> b" "b < int (length (booMgr_b s))" "distinct newMemberIDs"
    and range: "members_in_range c s ph (Indices (booMgr_b s ! nat b))" and heard: "all_heard en c s (Indices (booMgr_b s ! nat b))"
  shows "\<exists>s'. broadcastToNewBoothWithComCheck en c regularMsg ph b newMemberIDs newMsg s = Done () s'
    \<and> log_step en (\<lambda>d. d \<notin> Concierge ph ` set newMemberIDs)
        (map (regular_or_new ph regularMsg newMemberIDs newMsg) (members_to_send c s ph (Indices (booMgr_b s ! nat b)))) s s'"
proof -
  let ?is = "Indices (booMgr_b s ! nat b)" and ?W = "\<lambda>d. d \<notin> Concierge ph ` set newMemberIDs"
  let ?g = "\<lambda>i. if i = ServerID c \<or> concierge s ph ! nat i = None then [] else [regular_or_new ph regularMsg newMemberIDs newMsg i]"
  let ?f = "(\<lambda>i. if ServerID c = i then ret ()
       else bindG (checkComPathToValidator en c i) (\<lambda>(needDetour, detourNextNode).
         let nextNode = (if needDetour then detourNextNode else i);
             wrap = (\<lambda>m. if needDetour then Between m (ServerID c) i ph else m)
         in if nextNode = - 1 then ret ()
            else bindG (registered ph nextNode) (\<lambda>reg. if \<not> reg then ret ()
              else thenG (forG newMemberIDs (\<lambda>newMember.
                     if newMember = i then thenG (encodeG en (Concierge ph nextNode) (wrap newMsg)) (ret ()) else ret ()))
                   (if i \<in> set newMemberIDs then ret ()
                    else bindG (encodeG en (Concierge ph nextNode) (wrap regularMsg))
                      (\<lambda>err. if err then thenG set_broadcastError (log_concierge_SID ph i) else ret ())))))"
  have step: "\<exists>t'. ?f i t = Done () t' \<and> log_step en ?W (?g i) t t'" if i: "i \<in> set ?is" and t: "net_frame s t" for i t
  proof (cases "i = ServerID c")
    case False
    have here: "0 \<le> i" "i < int (length (concierge s ph))" using range i False by (simp_all add: members_in_range_def)
    then have reg: "registered ph i (look t) = Done (concierge s ph ! nat i \<noteq> None) (look t)"
      by (simp add: registered_run net_frame_fields(2) [OF net_frame_trans [OF t net_frame_look]])
    let ?k = "thenG (forG newMemberIDs (\<lambda>n. if n = i then thenG (encodeG en (Concierge ph i) newMsg) (ret ()) else ret ()))
      (if i \<in> set newMemberIDs then ret () else bindG (encodeG en (Concierge ph i) regularMsg)
         (\<lambda>err. if err then thenG set_broadcastError (log_concierge_SID ph i) else ret ()))"
    have run: "?f i t = (if concierge s ph ! nat i = None then Done () (look t) else ?k (look t))"
      using all_heard_route [OF heard i False t] False here(1) reg by (simp add: Let_def)
    have "\<exists>t'. ?k (look t) = Done () t' \<and> log_step en ?W [regular_or_new ph regularMsg newMemberIDs newMsg i] (look t) t'" if "concierge s ph ! nat i \<noteq> None"
    proof (cases "i \<in> set newMemberIDs")
      case True
      then have "\<not> ?W (Concierge ph i)" by simp
      from new_member_sends [where W = ?W, OF \<open>distinct newMemberIDs\<close> this, of en newMsg "look t"]
      show ?thesis using True by (auto simp: regular_or_new_def)
    next
      case new: False
      have skip: "forG newMemberIDs (\<lambda>n. if n = i then thenG (encodeG en (Concierge ph i) newMsg) (ret ()) else ret ()) (look t) = Done () (look t)"
        using new by (induction newMemberIDs) auto
      have "concierge (look t) = concierge s" using net_frame_fields(2) [OF net_frame_trans [OF t net_frame_look]] .
      then have "?k (look t) = try_send en (Concierge ph i) regularMsg (look t)"
        using new skip here \<open>concierge s ph ! nat i \<noteq> None\<close> by (auto simp: try_send_def set_broadcastError_def log_concierge_SID_def)
      moreover have "?W (Concierge ph i)" using new by auto
      ultimately show ?thesis using try_send_log [where W = ?W, of "Concierge ph i" en regularMsg "look t"] new by (simp add: regular_or_new_def)
    qed
    note send = this
    show ?thesis
    proof (cases "concierge s ph ! nat i = None")
      case True
      then show ?thesis unfolding run using log_step_look [OF log_step_nil] by simp
    next
      case to: False
      then show ?thesis unfolding run using False send [OF to] log_step_look by auto
    qed
  qed simp
  have "\<exists>s'. forG ?is ?f s = Done () s' \<and> log_step en ?W (concat (map ?g ?is)) s s'"
    by (rule forG_log) (rule step)
  then show ?thesis
    unfolding concat_members_to_send using assms(1-3) by (simp add: broadcastToNewBoothWithComCheck_def)
qed

text \<open>\<open>broadcastToNewBooth\<close> sends every registered member other than the sender exactly one message, in booth
  order: the message with the previous blocks to the new members and the regular one to the
  others. The error flag rises exactly when a send to a member that is not new failed.\<close>

theorem broadcastToNewBooth_sends:
  assumes "\<not> broadcastError s" "0 \<le> b" "b < int (length (booMgr_b s))" "distinct newMemberIDs"
    and range: "members_in_range c s ph (Indices (booMgr_b s ! nat b))"
  shows "\<exists>s'. broadcastToNewBooth en c regularMsg ph b newMemberIDs newMsg s = Done () s'
    \<and> log_step en (\<lambda>d. d \<notin> Concierge ph ` set newMemberIDs)
        (map (regular_or_new ph regularMsg newMemberIDs newMsg) (members_to_send c s ph (Indices (booMgr_b s ! nat b)))) s s'"
  using assms by (rule broadcastToNewBooth_loop)

section \<open>Within earshot\<close>

text \<open>With or without the path check the members get their messages directly: the check is off, or every one hears the proposer.\<close>

definition audible :: "env \<Rightarrow> cfg \<Rightarrow> node \<Rightarrow> int list \<Rightarrow> bool" where
  "audible en c s is \<longleftrightarrow> EvaluateComPossibilityFlag c \<longrightarrow> all_heard en c s is"

text \<open>What a choice of route depends on.\<close>

definition same_links :: "node \<Rightarrow> node \<Rightarrow> bool" where
  "same_links s t \<longleftrightarrow> simulationStartTime t = simulationStartTime s \<and> proToValComTimeMap t = proToValComTimeMap s
     \<and> valToProComTimeMap t = valToProComTimeMap s \<and> blockchainInfo t = blockchainInfo s"

lemma same_links_refl [simp]: "same_links s s"
  by (simp add: same_links_def)

lemma same_links_trans [trans]: "same_links s t \<Longrightarrow> same_links t u \<Longrightarrow> same_links s u"
  by (simp add: same_links_def)

lemma net_frame_links: "net_frame s t \<Longrightarrow> same_links s t"
  unfolding net_frame_ex same_links_def by auto

lemma audible_links: "same_links s t \<Longrightarrow> audible en c t is \<longleftrightarrow> audible en c s is"
  by (simp add: same_links_def audible_def all_heard_def heard_by_def key_at_def)

text \<open>A validator that hears the proposer of blockchain \<open>b\<close> whenever it looks, or does not look, replies directly.\<close>

definition answers :: "env \<Rightarrow> cfg \<Rightarrow> node \<Rightarrow> int \<Rightarrow> phase \<Rightarrow> bool" where
  "answers en c s b ph \<longleftrightarrow> EvaluateComPossibilityFlag c \<longrightarrow>
     (\<forall>k. (case nget (blockchainInfo s) b ph of None \<Rightarrow> 0 | Some p \<Rightarrow> p) \<in> set (hears s (ServerID c) (key_at en s k)))"

lemma answers_links: "same_links s t \<Longrightarrow> answers en c t b ph \<longleftrightarrow> answers en c s b ph"
  by (simp add: same_links_def answers_def hears_def key_at_def)

section \<open>The relay\<close>

text \<open>The relay undoes the wrapping: a message that the sender wrapped for a detour, received by a proposer
  that the recipient hears, leaves this proposer as the original message, and goes to the member the
  sender meant.\<close>

theorem relay_unwraps:
  assumes r: "i \<in> set (heard_by r (ServerID c) (key_at en r (clock_reads r)))"
    and reg: "0 \<le> i" "i < int (length (concierge r ph))" "concierge r ph ! nat i \<noteq> None"
    and wrapped: "m = Between e sid i ph0"
  shows "\<exists>r'. relay_one en c ph (Message m) (Sender m) (Recipient m) (Phase m) r = Done () r'
    \<and> log_step en (\<lambda>_. True) [(Concierge ph i, e)] r r'"
proof -
  have "route en c r (clock_reads r) i = (False, i)" using r by (simp add: route_def)
  moreover have "registered ph i (look r) = Done True (look r)"
    using reg by (simp add: registered_run look_def)
  moreover obtain r' where "try_send en (Concierge ph i) e (look r) = Done () r'"
    "log_step en (\<lambda>_. True) [(Concierge ph i, e)] (look r) r'"
    using try_send_log [of "\<lambda>_. True"] by blast
  ultimately show ?thesis using r reg wrapped
    by (auto simp: relay_one_def checkComPathToValidator_run Let_def intro: log_step_look)
qed

text \<open>A relayed message that still cannot reach its recipient is wrapped again or dropped, never
  delivered to anyone else unwrapped.\<close>

lemma relay_again:
  "sends (\<lambda>d m. (d = Concierge ph recipient \<and> m = message) \<or> (\<exists>p. d = Concierge ph p \<and> m = Between message sender recipient mph)) r
     (final (relay_one en c ph message sender recipient mph r))"
proof (rule pres_sends)
  show "pres (sends (\<lambda>d m. (d = Concierge ph recipient \<and> m = message) \<or> (\<exists>p. d = Concierge ph p \<and> m = Between message sender recipient mph)) r)
     (relay_one en c ph message sender recipient mph)"
    unfolding relay_one_def Let_def by (intro pres_route_then) (simp only: split, intro pres_intros pres_try_send, simp)
qed

section \<open>Two ways to panic\<close>

text \<open>A failed detoured send to a member without a connection of its own kills the proposer:
  the log line of \<open>broadcastToNewBoothWithComCheck\<close> reads the connection of the member instead of the
  connection of the proposer the message went to.\<close>

theorem detour_log_panics:
  assumes "\<not> broadcastError s" "0 \<le> b" "b < int (length (booMgr_b s))"
    and "Indices (booMgr_b s ! nat b) = i # rest" "i \<noteq> ServerID c" "i \<notin> set newMemberIDs"
    and "route en c s (clock_reads s) i = (True, p)"
    and "0 \<le> p" "p < int (length (concierge s ph))" "concierge s ph ! nat p \<noteq> None"
    and "0 \<le> i" "i < int (length (concierge s ph))" "concierge s ph ! nat i = None"
    and "encErr en (length (sent s))"
  shows "\<exists>s'. broadcastToNewBoothWithComCheck en c regularMsg ph b newMemberIDs newMsg s = Panicked NilDeref s'
    \<and> outbox s' = outbox s @ [(Concierge ph p, Between regularMsg (ServerID c) i ph)]"
proof -
  have skip: "forG newMemberIDs (\<lambda>n. if n = i then f else ret ()) t = Done () t" for f and t :: node
    using assms(6) by (induction newMemberIDs) auto
  show ?thesis
    using assms by (simp add: broadcastToNewBoothWithComCheck_def checkComPathToValidator_run Let_def registered_run skip look_def
        set_broadcastError_def log_concierge_SID_def outbox_def)
qed

text \<open>A reply through a missing connection is reported and then sent, which panics.\<close>

lemma dialSendBack_nil: "dialSendBack en m None s = Panicked NilDeref s"
  by (simp add: dialSendBack_def)

section \<open>Witnesses\<close>

text \<open>Server 0 with members 1 and 2 of booth 0; it hears only 1 in the table of \<open>demo_net\<close>, and in
  \<open>detour_net\<close> it reaches 2 through proposer 1, without a connection to 2 of its own.\<close>

definition net_cfg :: cfg where
  "net_cfg = demo_cfg\<lparr>ServerID := 0, AllowBypassRoute := True\<rparr>"

definition net_msg :: msg where
  "net_msg = TimeSync \<lparr>sync_Time = 7, sync_ProposerId = 0\<rparr>"

definition new_msg :: msg where
  "new_msg = TimeSync \<lparr>sync_Time = 8, sync_ProposerId = 0\<rparr>"

definition demo_net :: node where
  "demo_net = init_node\<lparr>booMgr_b := [\<lparr>ID = 0, Indices = [0, 1, 2]\<rparr>],
     concierge := (\<lambda>_. [None, Some \<lparr>SID = 1, remote = ''r''\<rparr>, Some \<lparr>SID = 2, remote = ''r''\<rparr>]),
     proToValComTimeMap := [0 \<mapsto> [''100.00'' \<mapsto> [1, 2]]]\<rparr>"

definition detour_net :: node where
  "detour_net = init_node\<lparr>booMgr_b := [\<lparr>ID = 0, Indices = [2, 0]\<rparr>],
     concierge := (\<lambda>_. [None, Some \<lparr>SID = 1, remote = ''r''\<rparr>, None]),
     proToValComTimeMap := [0 \<mapsto> [''100.00'' \<mapsto> []]], valToProComTimeMap := [2 \<mapsto> [''100.00'' \<mapsto> [1]]]\<rparr>"

definition lossy_env :: env where
  "lossy_env = demo_env\<lparr>encErr := (\<lambda>_. True)\<rparr>"

lemmas net_defs = net_cfg_def demo_net_def detour_net_def lossy_env_def demo_cfg_def demo_env_def init_node_def
  members_in_range_def heard_by_def hears_def key_at_def nget_def

theorem broadcastToBooth_sends_witness:
  "\<exists>s'. broadcastToBooth demo_env net_cfg net_msg OPA 0 demo_net = Done () s'
    \<and> log_step demo_env (\<lambda>_. True) (map (\<lambda>i. (Concierge OPA i, net_msg)) (members_to_send net_cfg demo_net OPA (Indices (booMgr_b demo_net ! nat 0)))) demo_net s'"
  by (rule broadcastToBooth_sends) (simp_all add: net_defs)

theorem com_check_all_heard_witness:
  "\<exists>s1 s2. broadcastToBoothWithComCheck demo_env net_cfg net_msg OPA 0 demo_net = Done () s1
    \<and> broadcastToBooth demo_env net_cfg net_msg OPA 0 demo_net = Done () s2
    \<and> sent s1 = sent s2 \<and> broadcastError s1 = broadcastError s2"
  by (rule com_check_all_heard) (simp_all add: net_defs all_heard_def)

theorem failed_send_silences_witness:
  "\<exists>s'. broadcastToBooth lossy_env net_cfg net_msg OPA 0 demo_net = Done () s'
    \<and> broadcastToAll lossy_env net_cfg new_msg CPA s' = Done () s'"
proof -
  have pre: "\<not> broadcastError demo_net" "(0::int) \<le> 0" "0 < int (length (booMgr_b demo_net))"
    "members_in_range net_cfg demo_net OPA (Indices (booMgr_b demo_net ! nat 0))"
    by (simp_all add: net_defs)
  obtain s' where run: "broadcastToBooth lossy_env net_cfg net_msg OPA 0 demo_net = Done () s'"
    and log: "log_step lossy_env (\<lambda>_. True) (map (\<lambda>i. (Concierge OPA i, net_msg)) (members_to_send net_cfg demo_net OPA (Indices (booMgr_b demo_net ! nat 0)))) demo_net s'"
    using broadcastToBooth_loop [OF pre] by blast
  have "\<exists>t \<in> set (drop (length (sent demo_net)) (sent s')). failed t"
    using log by (simp add: log_step_def members_to_send_def net_defs)
  with failed_send_silences [OF pre run] run show ?thesis by blast
qed

theorem broadcastToNewBooth_sends_witness:
  "\<exists>s'. broadcastToNewBooth lossy_env net_cfg net_msg CPA 0 [2] new_msg demo_net = Done () s'
    \<and> log_step lossy_env (\<lambda>d. d \<notin> Concierge CPA ` set [2])
        (map (regular_or_new CPA net_msg [2] new_msg) (members_to_send net_cfg demo_net CPA (Indices (booMgr_b demo_net ! nat 0)))) demo_net s'"
  by (rule broadcastToNewBooth_sends) (simp_all add: net_defs)

theorem relay_unwraps_witness:
  "\<exists>r'. relay_one demo_env net_cfg OPA (Message (Between net_msg 10 2 OPA)) (Sender (Between net_msg 10 2 OPA))
        (Recipient (Between net_msg 10 2 OPA)) (Phase (Between net_msg 10 2 OPA)) demo_net = Done () r'
    \<and> log_step demo_env (\<lambda>_. True) [(Concierge OPA 2, net_msg)] demo_net r'"
  by (rule relay_unwraps) (simp_all add: net_defs)

theorem detour_log_panics_witness:
  "\<exists>s'. broadcastToNewBoothWithComCheck lossy_env net_cfg net_msg CPA 0 [] new_msg detour_net = Panicked NilDeref s'
    \<and> outbox s' = outbox detour_net @ [(Concierge CPA 1, Between net_msg (ServerID net_cfg) 2 CPA)]"
  by (rule detour_log_panics [where rest = "[0]"]) (simp_all add: net_defs route_def)

end
