(* ===== verification/Metre.thy ===== *)
theory Metre
  imports Routing
begin

text \<open>
  The latency metre (\<open>perfmetres.go\<close>): start and ordering times by block, and the report printed
  after a consensus instance, which consumes the samples of the blocks committed so far.
\<close>

definition recordStartTime :: "env \<Rightarrow> int64 \<Rightarrow> (node, unit) go" where
  "recordStartTime en blockId = bindG (nowG en) (\<lambda>t. modG (\<lambda>s. s\<lparr>metre_startTime := alput blockId t (metre_startTime s)\<rparr>))"

definition recordOrderTime :: "env \<Rightarrow> int64 \<Rightarrow> (node, unit) go" where
  "recordOrderTime en blockId = bindG (nowG en) (\<lambda>t. modG (\<lambda>s. s\<lparr>metre_orderTime := alput blockId t (metre_orderTime s)\<rparr>))"

text \<open>The numbers of the printed line; the two averages are the sums divided by \<open>rep_n\<close>.\<close>

record report =
  rep_ordering :: int64
  rep_consensus :: int64
  rep_n :: nat
  rep_counter :: nat
  rep_skipped :: nat

text \<open>The loop over \<open>orderTime\<close>, in the order in which \<open>range\<close> visits the samples.\<close>

fun latency_loop :: "int64 \<Rightarrow> nat \<Rightarrow> (int64 \<times> int64) list \<Rightarrow> report \<Rightarrow> (node, report) go" where
  "latency_loop commitTime lastBlk [] r = ret r"
| "latency_loop commitTime lastBlk ((i, t) # rest) r =
     (if sint i > sint (word_of_int (int lastBlk) :: int64)
      then latency_loop commitTime lastBlk rest (r\<lparr>rep_skipped := Suc (rep_skipped r)\<rparr>)
      else bindG (getG (\<lambda>s. case map_of (metre_startTime s) i of None \<Rightarrow> 0 | Some x \<Rightarrow> x)) (\<lambda>start.
           thenG (modG (\<lambda>s. s\<lparr>metre_orderTime := AList.delete i (metre_orderTime s),
                              metre_startTime := AList.delete i (metre_startTime s)\<rparr>))
           (latency_loop commitTime lastBlk rest
              (r\<lparr>rep_counter := Suc (rep_counter r), rep_ordering := rep_ordering r + (t - start),
                 rep_consensus := rep_consensus r + (commitTime - start)\<rparr>))))"

definition printConsensusLatency :: "env \<Rightarrow> ((int64 \<times> int64) list \<Rightarrow> (int64 \<times> int64) list) \<Rightarrow> nat \<Rightarrow> (node, report) go" where
  "printConsensusLatency en visit lastBlk =
     bindG (nowG en) (\<lambda>commitTime.
     bindG (getG metre_orderTime) (\<lambda>orderTime.
     latency_loop commitTime lastBlk (visit orderTime)
       \<lparr>rep_ordering = 0, rep_consensus = 0, rep_n = length orderTime, rep_counter = 0, rep_skipped = 0\<rparr>))"

section \<open>What a report contains\<close>

definition due :: "nat \<Rightarrow> int64 \<times> int64 \<Rightarrow> bool" where
  "due lastBlk p \<longleftrightarrow> sint (fst p) \<le> sint (word_of_int (int lastBlk) :: int64)"

definition started :: "node \<Rightarrow> int64 \<Rightarrow> int64" where
  "started s i = (case map_of (metre_startTime s) i of None \<Rightarrow> 0 | Some x \<Rightarrow> x)"

lemma latency_loop_run:
  assumes "distinct (map fst l)"
  shows "latency_loop ct n l r s = Done
      (r\<lparr>rep_counter := rep_counter r + length (filter (due n) l),
         rep_skipped := rep_skipped r + length (filter (\<lambda>p. \<not> due n p) l),
         rep_ordering := rep_ordering r + sum_list (map (\<lambda>(i, t). t - started s i) (filter (due n) l)),
         rep_consensus := rep_consensus r + sum_list (map (\<lambda>(i, t). ct - started s i) (filter (due n) l))\<rparr>)
      (s\<lparr>metre_orderTime := filter (\<lambda>p. fst p \<notin> fst ` set (filter (due n) l)) (metre_orderTime s),
         metre_startTime := filter (\<lambda>p. fst p \<notin> fst ` set (filter (due n) l)) (metre_startTime s)\<rparr>)"
  using assms
proof (induction l arbitrary: r s)
  case (Cons p l)
  obtain i t where p: "p = (i, t)" by fastforce
  show ?case
  proof (cases "due n p")
    case False
    then show ?thesis using Cons p by (simp add: due_def not_le)
  next
    case True
    let ?s = "s\<lparr>metre_orderTime := AList.delete i (metre_orderTime s), metre_startTime := AList.delete i (metre_startTime s)\<rparr>"
    have same: "started ?s j = started s j" if "j \<noteq> i" for j
      using that by (simp add: started_def delete_conv)
    have other: "fst q \<noteq> i" if "q \<in> set l" for q using Cons.prems p that by force
    have "map (\<lambda>(j, u). f u (started ?s j)) (filter (due n) l) = map (\<lambda>(j, u). f u (started s j)) (filter (due n) l)" for f :: "int64 \<Rightarrow> int64 \<Rightarrow> int64"
      using other by (force simp: same)
    note eqs = this [of "\<lambda>u v. u - v"] this [of "\<lambda>u v. ct - v"]
    have filt: "filter (\<lambda>q. fst q \<notin> X) (AList.delete i m) = filter (\<lambda>q. fst q \<noteq> i \<and> fst q \<notin> X) m" for X and m :: "(int64 \<times> int64) list"
      by (induction m) auto
    have le: "\<not> sint i > sint (word_of_int (int n) :: int64)" using True p by (simp add: due_def)
    have "latency_loop ct n (p # l) r s = latency_loop ct n l (r\<lparr>rep_counter := Suc (rep_counter r),
        rep_ordering := rep_ordering r + (t - started s i), rep_consensus := rep_consensus r + (ct - started s i)\<rparr>) ?s"
      using le p by (simp add: started_def)
    also have "\<dots> = Done
      (r\<lparr>rep_counter := rep_counter r + length (filter (due n) (p # l)),
         rep_skipped := rep_skipped r + length (filter (\<lambda>p. \<not> due n p) (p # l)),
         rep_ordering := rep_ordering r + sum_list (map (\<lambda>(i, t). t - started s i) (filter (due n) (p # l))),
         rep_consensus := rep_consensus r + sum_list (map (\<lambda>(i, t). ct - started s i) (filter (due n) (p # l)))\<rparr>)
      (s\<lparr>metre_orderTime := filter (\<lambda>q. fst q \<notin> fst ` set (filter (due n) (p # l))) (metre_orderTime s),
         metre_startTime := filter (\<lambda>q. fst q \<notin> fst ` set (filter (due n) (p # l))) (metre_startTime s)\<rparr>)"
      using Cons.prems p True by (simp add: Cons.IH eqs filt add.assoc)
    finally show ?thesis .
  qed
qed simp

lemma latency_loop_sends: "\<exists>r' t. latency_loop ct n l r s = Done r' t \<and> sent t = sent s"
proof (induction l arbitrary: r s)
  case (Cons p l)
  obtain i t where p: "p = (i, t)" by fastforce
  show ?case
    using Cons.IH [of "r\<lparr>rep_skipped := Suc (rep_skipped r)\<rparr>" s]
      Cons.IH [of "r\<lparr>rep_counter := Suc (rep_counter r), rep_ordering := rep_ordering r + (t - started s i),
        rep_consensus := rep_consensus r + (ct - started s i)\<rparr>"
        "s\<lparr>metre_orderTime := AList.delete i (metre_orderTime s), metre_startTime := AList.delete i (metre_startTime s)\<rparr>"]
    by (simp add: p started_def)
qed simp

lemma printConsensusLatency_sends: "\<exists>r t. printConsensusLatency en visit n s = Done r t \<and> sent t = sent s"
  using latency_loop_sends unfolding printConsensusLatency_def bindG_def by fastforce

lemma sum_list_mset: "mset xs = mset ys \<Longrightarrow> sum_list (map f xs) = sum_list (map (f :: 'a \<Rightarrow> int64) ys)"
  by (metis mset_map sum_mset_sum_list)

text \<open>The report does not depend on the order in which the runtime visits the samples: it sums exactly the
  samples of the blocks up to \<open>lastIdx\<close>, each once, removes exactly these, keeps the others for
  a later report, and divides by the number of all samples, the skipped ones included.\<close>

theorem latency_report:
  assumes perm: "mset (visit (metre_orderTime s)) = mset (metre_orderTime s)"
    and keys: "distinct (map fst (metre_orderTime s))"
  shows "printConsensusLatency en visit n s = (let ot = metre_orderTime s; ct = unixMilli en (clock_reads s) in Done
     \<lparr>rep_ordering = sum_list (map (\<lambda>(i, t). t - started s i) (filter (due n) ot)),
       rep_consensus = sum_list (map (\<lambda>(i, t). ct - started s i) (filter (due n) ot)),
       rep_n = length (filter (due n) ot) + length (filter (\<lambda>p. \<not> due n p) ot),
       rep_counter = length (filter (due n) ot), rep_skipped = length (filter (\<lambda>p. \<not> due n p) ot)\<rparr>
     (s\<lparr>clock_reads := Suc (clock_reads s), metre_orderTime := filter (\<lambda>p. \<not> due n p) ot,
        metre_startTime := filter (\<lambda>p. fst p \<notin> fst ` set (filter (due n) ot)) (metre_startTime s)\<rparr>))"
proof -
  let ?ot = "metre_orderTime s" and ?l = "visit (metre_orderTime s)"
  have d: "distinct (map fst ?l)" using perm keys by (metis mset_map mset_eq_imp_distinct_iff)
  have F: "mset (filter P ?l) = mset (filter P ?ot)" for P using perm by simp
  have sets: "set (filter (due n) ?l) = set (filter (due n) ?ot)" using F by (metis set_mset_mset)
  have len: "length (filter P ?l) = length (filter P ?ot)" for P using F by (metis size_mset)
  have rest: "filter (\<lambda>p. fst p \<notin> fst ` set (filter (due n) ?ot)) ?ot = filter (\<lambda>p. \<not> due n p) ?ot"
    using keys by (intro filter_cong) (auto simp: due_def)
  show ?thesis
    by (simp add: printConsensusLatency_def latency_loop_run [OF d] Let_def sets [unfolded set_filter] len
        sum_list_mset [OF F] rest [unfolded set_filter] sum_length_filter_compl started_def)
qed

text \<open>Two samples, visited backwards; block 9 is not committed yet.\<close>

definition metre_node :: node where
  "metre_node = init_node\<lparr>metre_orderTime := [(1, 5), (9, 7)], metre_startTime := [(1, 2), (9, 3)]\<rparr>"

theorem latency_report_witness:
  "printConsensusLatency demo_env rev 5 metre_node = Done
     \<lparr>rep_ordering = 3, rep_consensus = - 2, rep_n = 2, rep_counter = 1, rep_skipped = 1\<rparr>
     (metre_node\<lparr>clock_reads := 1, metre_orderTime := [(9, 7)], metre_startTime := [(9, 3)]\<rparr>)"
  by (subst latency_report) (simp_all add: metre_node_def init_node_def demo_env_def due_def started_def Let_def del: set_filter)

end
