(* ===== verification/Ordering.thy ===== *)
theory Ordering
  imports Metre
begin

text \<open>
  The ordering phase at the proposer (\<open>vordering.go\<close>): the recorder of ordered block ids, the two
  loops that cut the request queue into blocks, and the collection of validators' votes. A
  worker's own buffer \<open>shuffle\<close> is passed along; its \<open>cycle\<close> only decides on a sleep and is left
  out. The queue of a worker is the list of proposals it will receive.
\<close>

section \<open>The recorder of ordered blocks\<close>

definition rec_Add :: "int64 \<Rightarrow> IDRecorder \<Rightarrow> IDRecorder" where
  "rec_Add i r = r\<lparr>blockIDs := blockIDs r @ [i]\<rparr>"

text \<open>The loop \<open>for i := r.lastIdx; i < curIdx; i++\<close>.\<close>

definition rec_GetIDRange :: "IDRecorder \<Rightarrow> int64 list \<times> IDRecorder" where
  "rec_GetIDRange r = (let curIdx = length (blockIDs r) in
     (map (\<lambda>i. blockIDs r ! i) [lastIdx r..<curIdx], r\<lparr>lastIdx := curIdx\<rparr>))"

definition rec_GetLastIdx :: "IDRecorder \<Rightarrow> nat" where
  "rec_GetLastIdx r = lastIdx r"

definition vgrec_Add :: "int64 \<Rightarrow> (node, unit) go" where
  "vgrec_Add i = modG (\<lambda>s. s\<lparr>vgrec := rec_Add i (vgrec s)\<rparr>)"

definition vgrec_GetIDRange :: "(node, int64 list) go" where
  "vgrec_GetIDRange = bindG (getG (\<lambda>s. rec_GetIDRange (vgrec s))) (\<lambda>(ids, r).
     thenG (modG (\<lambda>s. s\<lparr>vgrec := r\<rparr>)) (ret ids))"

section \<open>Cutting blocks\<close>

record shuffleBuf =
  counter :: int
  buf :: "(int \<times> Entry) list"

definition empty_shuffle :: shuffleBuf where
  "empty_shuffle = \<lparr>counter = 0, buf = []\<rparr>"

text \<open>\<open>for k := from; k < n; k++ { if e, ok := m[k]; ok { out[..] = e } }\<close>\<close>

definition present :: "(int \<times> Entry) list \<Rightarrow> int list \<Rightarrow> (int \<times> Entry) list" where
  "present m ks = concat (map (\<lambda>k. case map_of m k of None \<Rightarrow> [] | Some e \<Rightarrow> [(k, e)]) ks)"

definition upto_int :: "int \<Rightarrow> int \<Rightarrow> int list" where
  "upto_int a b = map (\<lambda>k. a + int k) [0..<nat (b - a)]"

definition put_entry :: "shuffleBuf \<Rightarrow> Proposal \<Rightarrow> shuffleBuf" where
  "put_entry sh m = sh\<lparr>buf := alput (counter sh) \<lparr>TimeStamp = Timestamp m, Tx = Transaction m\<rparr> (buf sh),
     counter := counter sh + 1\<rparr>"

definition snapshot_of :: "env \<Rightarrow> bytes \<Rightarrow> (int \<times> Entry) list \<Rightarrow> Booth \<Rightarrow> blockSnapshot" where
  "snapshot_of en h es boo = \<lparr>hash = h, entries = es, sigs = [], tSig = [], booth = boo\<rparr>"

definition broadcast_booth :: "env \<Rightarrow> cfg \<Rightarrow> msg \<Rightarrow> phase \<Rightarrow> int \<Rightarrow> (node, unit) go" where
  "broadcast_booth en c e ph b = (if EvaluateComPossibilityFlag c
     then broadcastToBoothWithComCheck en c e ph b else broadcastToBooth en c e ph b)"

definition record_start :: "env \<Rightarrow> cfg \<Rightarrow> int64 \<Rightarrow> (node, unit) go" where
  "record_start en c newBlockId =
     (if PerfMetres c
      then bindG (remG newBlockId (LatMetreInterval c)) (\<lambda>r. if r = 0 then recordStartTime en newBlockId else ret ())
      else ret ())"

text \<open>From \<open>incrementLogIndex\<close> to the two snapshots of the block.\<close>

definition register_block :: "int \<Rightarrow> int64 \<Rightarrow> blockSnapshot \<Rightarrow> (node, unit) go" where
  "register_block blockchainId newBlockId frag =
     thenG (bindG incrementLogIndex (\<lambda>_. ret ()))
     (thenG (modG (\<lambda>s. s\<lparr>ordSnapshot := nset (ordSnapshot s) blockchainId newBlockId frag\<rparr>))
     (modG (\<lambda>s. s\<lparr>cmtSnapshot := nset (cmtSnapshot s) blockchainId newBlockId frag\<rparr>)))"

definition makeAndBroadcast :: "('sc, 'pt, 'pub) kyber \<Rightarrow> env \<Rightarrow> cfg \<Rightarrow> nat \<Rightarrow> shuffleBuf \<Rightarrow> (node, shuffleBuf) go" where
  "makeAndBroadcast ky en c fuel sh =
     (if counter sh = 0 then ret sh
      else let localEntries = present (buf sh) (upto_int 0 (counter sh)); blockchainId = ServerID c in
      case serialization_entries localEntries of None \<Rightarrow> ret sh | Some serializedEntries \<Rightarrow>
      bindG getLogIndex (\<lambda>newBlockId.
      bindG (getBoothID ky en c fuel) (\<lambda>orderingBoothID.
      bindG (getG booMgr_b) (\<lambda>b. bindG (idxG b orderingBoothID) (\<lambda>boo.
      let postEntry = \<lparr>opa_Booth = boo, opa_BlockId = newBlockId, opa_BlockchainId = blockchainId,
                        opa_Entries = localEntries, opa_Hash = getDigest en serializedEntries\<rparr>;
          frag = snapshot_of en (opa_Hash postEntry) localEntries boo in
      thenG (bindG (nowG en) (\<lambda>_. ret ()))
      (thenG (record_start en c newBlockId)
      (thenG (register_block blockchainId newBlockId frag)
      (thenG (bindG (nowG en) (\<lambda>_. ret ()))
      (thenG (broadcast_booth en c (OPAEntry postEntry) OPA orderingBoothID)
      (thenG (bindG (nowG en) (\<lambda>_. ret ()))
      (ret empty_shuffle)))))))))))"

text \<open>
  The batch-size driven loop. After the last proposal the worker waits on its queue for ever, or
  leaves when the queue is closed.
\<close>

fun current_loop :: "('sc, 'pt, 'pub) kyber \<Rightarrow> env \<Rightarrow> cfg \<Rightarrow> nat \<Rightarrow> bool \<Rightarrow> Proposal list \<Rightarrow> shuffleBuf \<Rightarrow> (node, unit) go" where
  "current_loop ky en c fuel closed [] sh = (if closed then ret () else blockG)"
| "current_loop ky en c fuel closed (m # q) sh =
     (let sh' = put_entry sh m; shouldCut = (counter sh' \<ge> BatchSize c) in
      if \<not> shouldCut then current_loop ky en c fuel closed q sh'
      else bindG (makeAndBroadcast ky en c fuel sh') (current_loop ky en c fuel closed q))"

text \<open>
  The time-driven loop, for a finite schedule of what \<open>select\<close> finds ready. A full buffer makes
  the input channel nil, so that only a tick is taken then; a choice that is not enabled is
  passed over. The result is the rest of the queue and the buffer, or \<open>None\<close> when the loop ended.
\<close>

datatype ready = Input | Tick

definition renumber :: "(int \<times> Entry) list \<Rightarrow> (int \<times> Entry) list" where
  "renumber m = zip (upto_int 0 (int (length m))) (map snd m)"

definition tick_block :: "('sc, 'pt, 'pub) kyber \<Rightarrow> env \<Rightarrow> cfg \<Rightarrow> nat \<Rightarrow> shuffleBuf \<Rightarrow> (node, shuffleBuf) go" where
  "tick_block ky en c fuel sh =
     (let cnt = counter sh in
      if cnt = 0 then ret sh
      else let takeN = (if cnt < BatchSize c then cnt else BatchSize c);
               found = present (buf sh) (upto_int 0 cnt);
               batch = renumber (filter (\<lambda>(k, e). k < takeN) found);
               rest = renumber (filter (\<lambda>(k, e). \<not> k < takeN) found)
           in thenG (bindG (makeAndBroadcast ky en c fuel \<lparr>counter = takeN, buf = batch\<rparr>) (\<lambda>_. ret ()))
              (ret \<lparr>counter = int (length rest), buf = rest\<rparr>))"

fun periodic_loop :: "('sc, 'pt, 'pub) kyber \<Rightarrow> env \<Rightarrow> cfg \<Rightarrow> nat \<Rightarrow> bool \<Rightarrow> ready list \<Rightarrow> Proposal list \<Rightarrow> shuffleBuf
    \<Rightarrow> (node, (Proposal list \<times> shuffleBuf) option) go" where
  "periodic_loop ky en c fuel closed [] q sh = ret (Some (q, sh))"
| "periodic_loop ky en c fuel closed (Input # sched) q sh =
     (if counter sh \<ge> BatchSize c then periodic_loop ky en c fuel closed sched q sh
      else case q of
        [] \<Rightarrow> if closed then ret None else periodic_loop ky en c fuel closed sched q sh
      | m # q' \<Rightarrow> periodic_loop ky en c fuel closed sched q' (put_entry sh m))"
| "periodic_loop ky en c fuel closed (Tick # sched) q sh =
     bindG (tick_block ky en c fuel sh) (periodic_loop ky en c fuel closed sched q)"

definition startOrderingPhaseA :: "('sc, 'pt, 'pub) kyber \<Rightarrow> env \<Rightarrow> cfg \<Rightarrow> nat \<Rightarrow> bool \<Rightarrow> ready list \<Rightarrow> int \<Rightarrow> (node, unit) go" where
  "startOrderingPhaseA ky en c fuel closed sched i =
     bindG (getG requestQueue) (\<lambda>qs. bindG (idxG qs i) (\<lambda>q.
       if UsePeriodicOrdering c
       then bindG (periodic_loop ky en c fuel closed sched q empty_shuffle) (\<lambda>_. ret ())
       else current_loop ky en c fuel closed q empty_shuffle))"

section \<open>Votes\<close>

text \<open>
  The part of \<open>asyncHandleOBReply\<close> under the block's lock, up to the comparison with the
  threshold. \<open>Some\<close> lets the caller recover the signature from these votes.
\<close>

definition ob_vote :: "cfg \<Rightarrow> ValidatorOPAReply \<Rightarrow> (node, (blockSnapshot \<times> bytes list) option) go" where
  "ob_vote c m =
     bindG (getG (\<lambda>s. nget (ordSnapshot s) (opar_BlockchainId m) (opar_BlockId m))) (\<lambda>f.
       case f of None \<Rightarrow> ret None | Some blockOrderFrag \<Rightarrow>
       (let indicator = int (length (sigs blockOrderFrag));
            threshold = getThreshold (int (length (Indices (booth blockOrderFrag)))) in
        if indicator = threshold then ret None
        else let aggregatedSigs = sigs blockOrderFrag @ [opar_ParSig m] in
          thenG (modG (\<lambda>s. s\<lparr>ordSnapshot := nset (ordSnapshot s) (opar_BlockchainId m) (opar_BlockId m)
                                   (blockOrderFrag\<lparr>sigs := aggregatedSigs\<rparr>)\<rparr>))
          (if indicator + 1 < threshold then ret None
           else if indicator + 1 > threshold then ret None
           else ret (Some (blockOrderFrag, aggregatedSigs)))))"

definition ob_recover :: "('sc, 'pt, 'pub) kyber \<Rightarrow> env \<Rightarrow> cfg \<Rightarrow> ValidatorOPAReply \<Rightarrow> blockSnapshot \<Rightarrow> bytes list \<Rightarrow> (node, bytes option) go" where
  "ob_recover ky en c m frag aggregatedSigs =
     (let n = int (length (Indices (booth frag))) in
      bindG (nowG en) (\<lambda>_.
      bindG (fetchKeysByBoothId ky (getThreshold n) (ServerID c) (ID (booth frag)) (opar_BlockchainId m)) (\<lambda>(pub, pri).
      ret (PenRecovery ky aggregatedSigs (hash frag) pub n))))"

text \<open>After the recovery: the id is published to the consensus phase, then the signature stored.\<close>

definition ob_record :: "env \<Rightarrow> cfg \<Rightarrow> ValidatorOPAReply \<Rightarrow> (node, unit) go" where
  "ob_record en c m = thenG (vgrec_Add (opar_BlockId m))
     (if PerfMetres c
      then bindG (remG (opar_BlockId m) (LatMetreInterval c)) (\<lambda>r. if r = 0 then recordOrderTime en (opar_BlockId m) else ret ())
      else ret ())"

definition ob_store :: "ValidatorOPAReply \<Rightarrow> bytes \<Rightarrow> (node, unit) go" where
  "ob_store m thresholdSig =
     bindG (getG (\<lambda>s. nget (cmtSnapshot s) (opar_BlockchainId m) (opar_BlockId m))) (\<lambda>f.
       case f of None \<Rightarrow> panicG NilDeref
       | Some frag \<Rightarrow> modG (\<lambda>s. s\<lparr>cmtSnapshot := nset (cmtSnapshot s) (opar_BlockchainId m) (opar_BlockId m)
                                   (frag\<lparr>tSig := thresholdSig\<rparr>)\<rparr>))"

definition order_entry :: "ValidatorOPAReply \<Rightarrow> blockSnapshot \<Rightarrow> bytes \<Rightarrow> ProposerOPBEntry" where
  "order_entry m frag thresholdSig = \<lparr>opb_Booth = booth frag, opb_BlockchainId = opar_BlockchainId m,
     opb_BlockId = opar_BlockId m, opb_CombSig = thresholdSig, opb_Entries = [], opb_Hash = hash frag\<rparr>"

definition asyncHandleOBReply :: "('sc, 'pt, 'pub) kyber \<Rightarrow> env \<Rightarrow> cfg \<Rightarrow> ValidatorOPAReply \<Rightarrow> int \<Rightarrow> (node, unit) go" where
  "asyncHandleOBReply ky en c m sid =
     bindG (ob_vote c m) (\<lambda>v. case v of None \<Rightarrow> ret () | Some (frag, aggregatedSigs) \<Rightarrow>
     bindG (ob_recover ky en c m frag aggregatedSigs) (\<lambda>r. case r of None \<Rightarrow> ret () | Some thresholdSig \<Rightarrow>
       thenG (ob_record en c m)
       (thenG (ob_store m thresholdSig)
       (thenG (broadcast_booth en c (OPBEntry (order_entry m frag thresholdSig)) OPB (ID (booth frag)))
       (bindG (nowG en) (\<lambda>_. ret ()))))))"

section \<open>The recorder hands out every id once, in order\<close>

text \<open>
  What the consensus phase relies on: ids are handed out in the order they were recorded, none
  twice and none left behind.
\<close>

datatype 'i recorder_op = RAdd 'i | RTake

locale fifo_log =
  fixes add :: "'i \<Rightarrow> 'r \<Rightarrow> 'r"
    and take_all :: "'r \<Rightarrow> 'i list \<times> 'r"
    and recorded :: "'r \<Rightarrow> 'i list"
    and handed :: "'r \<Rightarrow> 'i list"
    and inv :: "'r \<Rightarrow> bool"
  assumes inv_add: "inv r \<Longrightarrow> inv (add i r)"
    and inv_take: "inv r \<Longrightarrow> inv (snd (take_all r))"
    and recorded_add: "inv r \<Longrightarrow> recorded (add i r) = recorded r @ [i]"
    and handed_add: "inv r \<Longrightarrow> handed (add i r) = handed r"
    and recorded_take: "inv r \<Longrightarrow> recorded (snd (take_all r)) = recorded r"
    and handed_take: "inv r \<Longrightarrow> handed (snd (take_all r)) = recorded r"
    and taken: "inv r \<Longrightarrow> handed r @ fst (take_all r) = recorded r"
begin

fun run :: "'i recorder_op list \<Rightarrow> 'r \<Rightarrow> 'i list list \<times> 'r" where
  "run [] r = ([], r)"
| "run (RAdd i # ops) r = run ops (add i r)"
| "run (RTake # ops) r = (fst (take_all r) # fst (run ops (snd (take_all r))), snd (run ops (snd (take_all r))))"

lemma run_inv: "inv r \<Longrightarrow> inv (snd (run ops r))"
  by (induction ops r rule: run.induct) (simp_all add: inv_add inv_take)

lemma run_recorded: "inv r \<Longrightarrow> recorded (snd (run ops r)) = recorded r @ concat (map (\<lambda>x. case x of RAdd i \<Rightarrow> [i] | RTake \<Rightarrow> []) ops)"
  by (induction ops r rule: run.induct) (simp_all add: inv_add inv_take recorded_add recorded_take)

lemma run_handed: "inv r \<Longrightarrow> handed (snd (run ops r)) = handed r @ concat (fst (run ops r))"
proof (induction ops r rule: run.induct)
  case (3 ops r)
  have "handed (snd (run ops (snd (take_all r)))) = handed (snd (take_all r)) @ concat (fst (run ops (snd (take_all r))))"
    using 3 by (simp add: inv_take)
  then show ?case
    using taken [OF "3.prems"] by (simp add: handed_take [OF "3.prems"] flip: append_assoc)
qed (simp_all add: inv_add handed_add)

end

definition recorder_inv :: "IDRecorder \<Rightarrow> bool" where
  "recorder_inv r \<longleftrightarrow> lastIdx r \<le> length (blockIDs r)"

lemma map_nth_from: "map ((!) xs) [n..<length xs] = drop n xs"
  by (rule nth_equalityI) simp_all

lemma rec_GetIDRange_eq: "rec_GetIDRange r = (drop (lastIdx r) (blockIDs r), r\<lparr>lastIdx := length (blockIDs r)\<rparr>)"
  by (simp add: rec_GetIDRange_def Let_def map_nth_from)

interpretation recorder: fifo_log rec_Add rec_GetIDRange blockIDs "\<lambda>r. take (lastIdx r) (blockIDs r)" recorder_inv
  by unfold_locales (auto simp: recorder_inv_def rec_Add_def rec_GetIDRange_eq)

fun recorder_run :: "int64 recorder_op list \<Rightarrow> IDRecorder \<Rightarrow> int64 list list \<times> IDRecorder" where
  "recorder_run [] r = ([], r)"
| "recorder_run (RAdd i # ops) r = recorder_run ops (rec_Add i r)"
| "recorder_run (RTake # ops) r = (fst (rec_GetIDRange r) # fst (recorder_run ops (snd (rec_GetIDRange r))),
     snd (recorder_run ops (snd (rec_GetIDRange r))))"

lemma recorder_run_eq: "recorder_run ops r = recorder.run ops r"
  by (induction ops r rule: recorder_run.induct) simp_all

fun added_ids :: "int64 recorder_op list \<Rightarrow> int64 list" where
  "added_ids [] = []"
| "added_ids (RAdd i # ops) = i # added_ids ops"
| "added_ids (RTake # ops) = added_ids ops"

lemma added_ids_eq: "concat (map (\<lambda>x. case x of RAdd i \<Rightarrow> [i] | RTake \<Rightarrow> []) ops) = added_ids ops"
  by (induction ops rule: added_ids.induct) simp_all

lemma take_drop_split: "n \<le> length xs \<Longrightarrow> xs = zs \<Longrightarrow> take n xs = ys \<Longrightarrow> ys @ drop n xs = zs \<and> n = length ys"
  by auto

text \<open>C23: Over any sequence of \<open>Add\<close> and \<open>GetIDRange\<close> on a fresh recorder, the ranges handed out, one after the
  other, followed by the ids still pending, are exactly the ids added, in order; \<open>lastIdx\<close> counts
  the ids handed out.\<close>

theorem recorder_fifo:
  "let (ranges, r) = recorder_run ops \<lparr>blockIDs = [], lastIdx = 0\<rparr> in
     concat ranges @ drop (lastIdx r) (blockIDs r) = added_ids ops \<and> lastIdx r = length (concat ranges)"
proof -
  let ?init = "\<lparr>blockIDs = [], lastIdx = 0\<rparr>"
  obtain x r where run: "recorder_run ops ?init = (x, r)" by fastforce
  have inv0: "recorder_inv ?init" by (simp add: recorder_inv_def)
  have "lastIdx r \<le> length (blockIDs r)"
    using recorder.run_inv [OF inv0, of ops] run by (simp add: recorder_inv_def flip: recorder_run_eq)
  moreover have "blockIDs r = added_ids ops"
    using recorder.run_recorded [OF inv0, of ops] run by (simp add: added_ids_eq flip: recorder_run_eq)
  moreover have "take (lastIdx r) (blockIDs r) = concat x"
    using recorder.run_handed [OF inv0, of ops] run by (simp flip: recorder_run_eq)
  ultimately have "concat x @ drop (lastIdx r) (blockIDs r) = added_ids ops \<and> lastIdx r = length (concat x)"
    by (intro take_drop_split)
  then show ?thesis unfolding Let_def run prod.case .
qed

section \<open>What one block leaves behind\<close>

text \<open>The buffer as the list it stands for, and the part of the state that holds the chain.\<close>

definition numbered :: "Entry list \<Rightarrow> (int \<times> Entry) list" where
  "numbered es = zip (upto_int 0 (int (length es))) es"

definition sh_of :: "Entry list \<Rightarrow> shuffleBuf" where
  "sh_of es = \<lparr>counter = int (length es), buf = numbered es\<rparr>"

definition entry_of :: "Proposal \<Rightarrow> Entry" where
  "entry_of m = \<lparr>TimeStamp = Timestamp m, Tx = Transaction m\<rparr>"

type_synonym chain_state = "int64 \<times> (int, int64, blockSnapshot) nmap \<times> (int, int64, blockSnapshot) nmap"

definition chain :: "node \<Rightarrow> chain_state" where
  "chain s = (logIndex s, ordSnapshot s, cmtSnapshot s)"

lemma upto_int_Suc: "upto_int 0 (1 + int n) = upto_int 0 (int n) @ [int n]"
  by (simp add: upto_int_def nat_add_distrib)

lemma length_upto_int [simp]: "length (upto_int 0 (int n)) = n"
  by (simp add: upto_int_def)

lemma numbered_Nil [simp]: "numbered [] = []"
  by (simp add: numbered_def)

lemma numbered_snoc: "numbered (es @ [e]) = numbered es @ [(int (length es), e)]"
  by (simp add: numbered_def upto_int_Suc)

lemma numbered_keys: "fst ` set (numbered es) \<subseteq> {0..<int (length es)}"
  by (induction es rule: rev_induct) (auto simp: numbered_snoc)

lemma map_snd_numbered [simp]: "map snd (numbered es) = es"
  by (simp add: numbered_def)

lemma map_of_numbered: "map_of (numbered es) k = (if 0 \<le> k \<and> k < int (length es) then Some (es ! nat k) else None)"
proof (induction es rule: rev_induct)
  case (snoc e es)
  then show ?case by (auto simp: numbered_snoc map_add_def nth_append map_of_append)
qed simp

lemma present_numbered: "n \<le> length es \<Longrightarrow> present (numbered es) (upto_int 0 (int n)) = numbered (take n es)"
proof (induction n)
  case (Suc n)
  then show ?case
    by (simp add: upto_int_Suc present_def map_of_numbered take_Suc_conv_app_nth numbered_snoc)
qed (simp add: present_def upto_int_def)

lemma put_entry_sh_of: "put_entry (sh_of es) m = sh_of (es @ [entry_of m])"
proof -
  have "int (length es) \<notin> fst ` set (numbered es)" using numbered_keys [of es] by auto
  then show ?thesis by (simp add: put_entry_def sh_of_def entry_of_def numbered_snoc alput_new)
qed

lemma empty_shuffle_sh_of: "empty_shuffle = sh_of []"
  by (simp add: empty_shuffle_def sh_of_def)

definition block_of :: "env \<Rightarrow> Entry list \<Rightarrow> Booth \<Rightarrow> blockSnapshot" where
  "block_of en es boo = snapshot_of en (getDigest en (the (serialization_entries (numbered es)))) (numbered es) boo"

definition add_block :: "env \<Rightarrow> cfg \<Rightarrow> Entry list \<times> Booth \<Rightarrow> chain_state \<Rightarrow> chain_state" where
  "add_block en c = (\<lambda>(es, boo) (n, om, cm). (n + 1, nset om (ServerID c) n (block_of en es boo), nset cm (ServerID c) n (block_of en es boo)))"

text \<open>Everything except the chain may change on the way.\<close>

lemma pres_nowG: "(\<And>s n. J s \<Longrightarrow> J (s\<lparr>clock_reads := n\<rparr>)) \<Longrightarrow> pres J (nowG en)"
  by (simp add: pres_def)

lemma chain_upd [simp]:
  "chain (s\<lparr>clock_reads := n\<rparr>) = chain s" "chain (s\<lparr>files := f\<rparr>) = chain s"
  "chain (s\<lparr>booMgr_b := b, booMgr_index := i\<rparr>) = chain s" "chain (s\<lparr>metre_startTime := m\<rparr>) = chain s"
  by (simp_all add: chain_def)

lemma pres_chain_checkExact: "pres (\<lambda>t. chain t = x) (checkExactMatchInBooMgr ky en c p)"
  unfolding checkExactMatchInBooMgr_def generateBoothKey_def Let_def by (intro pres_intros) simp_all

lemma pres_chain_getBoothID: "pres (\<lambda>t. chain t = x) (getBoothID ky en c fuel)"
proof (induction fuel)
  case (Suc fuel)
  show ?case unfolding getBoothID.simps getNowTimeKey_def
    by (intro pres_intros pres_chain_checkExact pres_nowG Suc) simp
qed (simp only: getBoothID.simps pres_blockG)

lemma net_frame_sent: "net_frame s t \<Longrightarrow> net_frame s (t\<lparr>sent := x, broadcastError := b\<rparr>)"
  by (erule net_frame_trans) simp

lemma pres_frame_send: "pres (net_frame s) (try_send en d m)"
  unfolding pres_def try_send_run by (simp add: net_frame_sent)

lemma pres_frame_com: "pres (net_frame s) (bindG (checkComPathToValidator en c i) f)" if "\<And>x. pres (net_frame s) (f x)"
  by (intro pres_bindG that) (simp add: pres_def checkComPathToValidator_run net_frame_trans [OF _ net_frame_look])

lemma pres_frame_broadcast: "pres (net_frame s) (broadcast_booth en c e ph b)"
  unfolding broadcast_booth_def broadcastToBoothWithComCheck_def broadcastToBooth_def Let_def split_beta
  by (intro pres_intros pres_frame_send pres_frame_com)

lemma broadcast_frame: "net_frame s (final (broadcast_booth en c e ph b s))"
  using presD [OF pres_frame_broadcast net_frame_refl] .

lemma net_frame_chain: "net_frame s t \<Longrightarrow> chain t = chain s"
  by (simp add: chain_def net_frame_fields)

lemma record_start_outcome:
  obtains (go) t where "record_start en c i s = Done () t" "chain t = chain s"
  | (panic) "record_start en c i s = Panicked DivideByZero s"
proof (cases "PerfMetres c")
  case True
  then show ?thesis
    using that(1) [of "if rem64 i (LatMetreInterval c) = 0 then final (recordStartTime en i s) else s"] that(2)
    by (cases "LatMetreInterval c = 0") (simp_all add: record_start_def remG_def recordStartTime_def)
next
  case False
  then show ?thesis using that(1) [of s] by (simp add: record_start_def)
qed

lemma register_block_run:
  "\<exists>t. register_block (ServerID c) (logIndex s) (snapshot_of en (getDigest en (the (serialization_entries (numbered es)))) (numbered es) boo) s = Done () t
    \<and> chain t = add_block en c (es, boo) (chain s)"
  by (simp add: register_block_def incrementLogIndex_def chain_def add_block_def block_of_def)

lemma announced:
  "(is_done (thenG m (thenG (bindG (nowG en) (\<lambda>_. ret ())) (ret empty_shuffle)) s)
     \<longrightarrow> (\<exists>t. thenG m (thenG (bindG (nowG en) (\<lambda>_. ret ())) (ret empty_shuffle)) s = Done (sh_of []) t))
   \<and> chain (final (thenG m (thenG (bindG (nowG en) (\<lambda>_. ret ())) (ret empty_shuffle)) s)) = chain (final (m s))"
  unfolding thenG_def bindG_def empty_shuffle_sh_of by (cases "m s") (simp_all del: chain_upd add: chain_upd(1))

lemma make_outcome:
  assumes "es \<noteq> []"
  obtains (none) "\<not> is_done (makeAndBroadcast ky en c fuel (sh_of es) s)" "chain (final (makeAndBroadcast ky en c fuel (sh_of es) s)) = chain s"
  | (made) boo where "chain (final (makeAndBroadcast ky en c fuel (sh_of es) s)) = add_block en c (es, boo) (chain s)"
      "\<And>sh t. makeAndBroadcast ky en c fuel (sh_of es) s = Done sh t \<Longrightarrow> sh = sh_of []"
proof -
  obtain d where ser: "serialization_entries (numbered es) = Some d" by (simp add: serialization_entries_def)
  let ?h = "getDigest en d"
  let ?m = "makeAndBroadcast ky en c fuel (sh_of es) s"
  have loc: "present (numbered es) (upto_int 0 (int (length es))) = numbered es" by (simp add: present_numbered)
  note unf = makeAndBroadcast_def sh_of_def loc ser getLogIndex_def Let_def
  have ch: "chain (final (getBoothID ky en c fuel s)) = chain s"
    using presD [OF pres_chain_getBoothID [where x = "chain s"] refl] .
  show ?thesis
  proof (cases "getBoothID ky en c fuel s")
    case (Done b s1)
    show ?thesis
    proof (cases "0 \<le> b \<and> b < int (length (booMgr_b s1))")
      case False
      then have "?m = Panicked IndexOutOfRange s1" using assms Done by (simp add: unf)
      then show ?thesis using none ch Done by simp
    next
      case True
      let ?boo = "booMgr_b s1 ! nat b" and ?s2 = "s1\<lparr>clock_reads := Suc (clock_reads s1)\<rparr>"
      let ?frag = "snapshot_of en ?h (numbered es) ?boo"
      let ?post = "\<lparr>opa_Booth = ?boo, opa_BlockId = logIndex s, opa_BlockchainId = ServerID c, opa_Entries = numbered es, opa_Hash = ?h\<rparr>"
      show ?thesis
      proof (cases rule: record_start_outcome [of en c "logIndex s" ?s2])
        case panic
        then have "?m = Panicked DivideByZero ?s2" using assms Done True by (simp add: unf Let_def)
        then show ?thesis using none ch Done by simp
      next
        case (go s3)
        have c3: "chain s3 = chain s" using go(2) ch Done by simp
        then have id3: "logIndex s3 = logIndex s" by (simp add: chain_def)
        obtain s4 where s4: "register_block (ServerID c) (logIndex s) ?frag s3 = Done () s4" "chain s4 = add_block en c (es, ?boo) (chain s)"
          using register_block_run [of c s3 en es ?boo] c3 id3 by (auto simp: ser)
        let ?s5 = "s4\<lparr>clock_reads := Suc (clock_reads s4)\<rparr>"
        let ?br = "broadcast_booth en c (OPAEntry ?post) OPA b ?s5"
        have "chain (final ?br) = chain ?s5" by (rule net_frame_chain [OF broadcast_frame])
        then have fin: "chain (final ?br) = add_block en c (es, ?boo) (chain s)" using s4(2) by simp
        have "?m = thenG (broadcast_booth en c (OPAEntry ?post) OPA b) (thenG (bindG (nowG en) (\<lambda>_. ret ())) (ret empty_shuffle)) ?s5"
          using assms Done True go(1) s4(1) by (simp add: unf)
        then have "(is_done ?m \<longrightarrow> (\<exists>t. ?m = Done (sh_of []) t)) \<and> chain (final ?m) = chain (final ?br)"
          by (rule ssubst) (rule announced)
        then show ?thesis using made [of ?boo] fin by (metis is_done.simps(1) outcome.inject(1))
      qed
    qed
  qed (use assms none ch in \<open>simp_all add: unf\<close>)
qed

text \<open>A worker that goes on with \<open>k\<close> after a block: it stops before the block is on the chain, after it is, or goes on with an empty buffer.\<close>

lemma make_then:
  assumes "es \<noteq> []"
  obtains (before) "\<not> is_done (bindG (makeAndBroadcast ky en c fuel (sh_of es)) k s)"
      "chain (final (bindG (makeAndBroadcast ky en c fuel (sh_of es)) k s)) = chain s"
  | (after) boo where "\<not> is_done (bindG (makeAndBroadcast ky en c fuel (sh_of es)) k s)"
      "chain (final (bindG (makeAndBroadcast ky en c fuel (sh_of es)) k s)) = add_block en c (es, boo) (chain s)"
  | (on) boo t where "bindG (makeAndBroadcast ky en c fuel (sh_of es)) k s = k (sh_of []) t" "chain t = add_block en c (es, boo) (chain s)"
proof (cases rule: make_outcome [OF assms, of ky en c fuel s])
  case 1
  then show ?thesis by (cases "makeAndBroadcast ky en c fuel (sh_of es) s") (simp_all add: before)
next
  case (2 boo)
  show ?thesis
  proof (cases "makeAndBroadcast ky en c fuel (sh_of es) s")
    case (Done sh t)
    then show ?thesis using 2 on [of t boo] by auto
  qed (use 2 in \<open>simp_all add: after\<close>)
qed

section \<open>The batch-size driven loop\<close>

text \<open>The chain after the blocks \<open>ess\<close> were appended, each in some booth.\<close>

definition extended :: "env \<Rightarrow> cfg \<Rightarrow> Entry list list \<Rightarrow> chain_state \<Rightarrow> chain_state \<Rightarrow> bool" where
  "extended en c ess x y \<longleftrightarrow> (\<exists>boos. length boos = length ess \<and> y = fold (add_block en c) (zip ess boos) x)"

lemma extended_Nil [simp]: "extended en c [] x y \<longleftrightarrow> y = x"
  by (simp add: extended_def)

lemma extended_Cons: "extended en c ess (add_block en c (es, boo) x) y \<Longrightarrow> extended en c (es # ess) x y"
  unfolding extended_def by (clarify, rule_tac x = "boo # boos" in exI) simp

lemma extended_one: "extended en c [es] x (add_block en c (es, boo) x)"
  by (rule extended_Cons) simp

definition batches :: "nat \<Rightarrow> 'a list \<Rightarrow> 'a list list" where
  "batches n xs = map (\<lambda>k. take n (drop (k * n) xs)) [0..<length xs div n]"

lemma batches_short: "length xs < n \<Longrightarrow> batches n xs = []"
  by (simp add: batches_def)

lemma batches_append:
  assumes "length xs = n" "0 < n"
  shows "batches n (xs @ ys) = xs # batches n ys"
proof -
  have "length (xs @ ys) div n = Suc (length ys div n)" using assms by (simp add: div_add_self1)
  then show ?thesis using assms
    by (simp add: batches_def map_upt_Suc del: upt_Suc length_append)
qed

lemma length_batches: "length (batches n xs) = length xs div n"
  by (simp add: batches_def)

lemma snoc_not_Nil: "xs @ [x] \<noteq> []"
  by simp

lemma current_loop_safe:
  assumes "BatchSize c = int n" "0 < n" "length es < n"
  shows "\<exists>m \<le> length (batches n (es @ map entry_of q)).
      extended en c (take m (batches n (es @ map entry_of q))) (chain s) (chain (final (current_loop ky en c fuel closed q (sh_of es) s)))
    \<and> (is_done (current_loop ky en c fuel closed q (sh_of es) s) \<longrightarrow> closed \<and> m = length (batches n (es @ map entry_of q)))"
  using assms(3)
proof (induction q arbitrary: es s)
  case Nil
  then show ?case by (simp add: batches_short)
next
  case (Cons p q)
  let ?es = "es @ [entry_of p]"
  have len: "counter (put_entry (sh_of es) p) = int (Suc (length es))"
    unfolding put_entry_sh_of by (simp add: sh_of_def)
  have split: "es @ map entry_of (p # q) = ?es @ map entry_of q" by simp
  show ?case
  proof (cases "length ?es < n")
    case True
    then have "current_loop ky en c fuel closed (p # q) (sh_of es) = current_loop ky en c fuel closed q (sh_of ?es)"
      using len assms(1) by (simp add: Let_def put_entry_sh_of)
    then show ?thesis using Cons.IH [OF True, of s] unfolding split by simp
  next
    case False
    then have full: "length ?es = n" using Cons.prems by simp
    let ?make = "makeAndBroadcast ky en c fuel (sh_of ?es)"
    have loop: "current_loop ky en c fuel closed (p # q) (sh_of es) = bindG ?make (current_loop ky en c fuel closed q)"
      using len assms(1) full by (simp add: Let_def put_entry_sh_of)
    have b: "batches n (es @ map entry_of (p # q)) = ?es # batches n (map entry_of q)"
      unfolding split using full assms(2) by (rule batches_append)
    show ?thesis
    proof (cases rule: make_then [OF snoc_not_Nil, of ky en c fuel es "entry_of p" "current_loop ky en c fuel closed q" s])
      case 1
      then show ?thesis unfolding loop b by (intro exI [of _ 0]) simp
    next
      case (2 boo)
      then show ?thesis unfolding loop b by (intro exI [of _ 1]) (simp add: extended_one)
    next
      case (3 boo t)
      obtain m where "m \<le> length (batches n (map entry_of q))"
        "extended en c (take m (batches n (map entry_of q))) (chain t) (chain (final (current_loop ky en c fuel closed q (sh_of []) t)))"
        "is_done (current_loop ky en c fuel closed q (sh_of []) t) \<longrightarrow> closed \<and> m = length (batches n (map entry_of q))"
        using Cons.IH [of "[]" t] assms(2) by auto
      then show ?thesis unfolding loop b by (intro exI [of _ "Suc m"]) (auto simp: 3 intro: extended_Cons)
    qed
  qed
qed

lemma add_block_get:
  fixes x :: chain_state
  defines "n \<equiv> fst x"
  shows "fst (add_block en c (es, boo) x) = n + 1"
    "nget (fst (snd (add_block en c (es, boo) x))) b i = (if b = ServerID c \<and> i = n then Some (block_of en es boo) else nget (fst (snd x)) b i)"
    "nget (snd (snd (add_block en c (es, boo) x))) b i = (if b = ServerID c \<and> i = n then Some (block_of en es boo) else nget (snd (snd x)) b i)"
  by (simp_all add: n_def add_block_def split_beta)

text \<open>
  The chain of this proposer holds the blocks \<open>ess\<close> at consecutive ids from \<open>n\<close> on, in both
  snapshots and with the same booth, and nothing else changed.
\<close>

definition chain_holds :: "env \<Rightarrow> cfg \<Rightarrow> Entry list list \<Rightarrow> node \<Rightarrow> node \<Rightarrow> bool" where
  "chain_holds en c ess s t \<longleftrightarrow>
     logIndex t = logIndex s + of_nat (length ess)
   \<and> (\<forall>k < length ess. \<exists>boo. nget (ordSnapshot t) (ServerID c) (logIndex s + of_nat k) = Some (block_of en (ess ! k) boo)
        \<and> nget (cmtSnapshot t) (ServerID c) (logIndex s + of_nat k) = Some (block_of en (ess ! k) boo))
   \<and> (\<forall>b i. b \<noteq> ServerID c \<or> (\<forall>k < length ess. i \<noteq> logIndex s + of_nat k) \<longrightarrow>
        nget (ordSnapshot t) b i = nget (ordSnapshot s) b i \<and> nget (cmtSnapshot t) b i = nget (cmtSnapshot s) b i)"

lemma of_nat_word_eq: "k < 2 ^ 64 \<Longrightarrow> m < 2 ^ 64 \<Longrightarrow> (of_nat k :: int64) = of_nat m \<longleftrightarrow> k = m"
  by (auto dest!: arg_cong [where f = unat] simp: unat_of_nat)

lemma fold_chain:
  fixes x :: chain_state
  assumes "length ps \<le> 2 ^ 64"
  shows "fst (fold (add_block en c) ps x) = fst x + of_nat (length ps)
    \<and> (\<forall>k < length ps. nget (fst (snd (fold (add_block en c) ps x))) (ServerID c) (fst x + of_nat k) = Some (block_of en (fst (ps ! k)) (snd (ps ! k)))
        \<and> nget (snd (snd (fold (add_block en c) ps x))) (ServerID c) (fst x + of_nat k) = Some (block_of en (fst (ps ! k)) (snd (ps ! k))))
    \<and> (\<forall>b i. b \<noteq> ServerID c \<or> (\<forall>k < length ps. i \<noteq> fst x + of_nat k) \<longrightarrow>
        nget (fst (snd (fold (add_block en c) ps x))) b i = nget (fst (snd x)) b i
        \<and> nget (snd (snd (fold (add_block en c) ps x))) b i = nget (snd (snd x)) b i)"
  using assms
proof (induction ps rule: rev_induct)
  case (snoc p ps)
  obtain es boo where p: "p = (es, boo)" by fastforce
  let ?y = "fold (add_block en c) ps x"
  have ih: "fst ?y = fst x + of_nat (length ps)"
    "\<And>k. k < length ps \<Longrightarrow> nget (fst (snd ?y)) (ServerID c) (fst x + of_nat k) = Some (block_of en (fst (ps ! k)) (snd (ps ! k)))
        \<and> nget (snd (snd ?y)) (ServerID c) (fst x + of_nat k) = Some (block_of en (fst (ps ! k)) (snd (ps ! k)))"
    "\<And>b i. b \<noteq> ServerID c \<or> (\<forall>k < length ps. i \<noteq> fst x + of_nat k) \<Longrightarrow>
        nget (fst (snd ?y)) b i = nget (fst (snd x)) b i \<and> nget (snd (snd ?y)) b i = nget (snd (snd x)) b i"
    using snoc by auto
  have fresh: "of_nat k \<noteq> (of_nat (length ps) :: int64)" if "k < length ps" for k
    using that snoc.prems of_nat_word_eq [of k "length ps"] by simp
  show ?case
    by (auto simp: p add_block_get ih fresh nth_append less_Suc_eq)
qed simp

lemma extended_chain_holds:
  assumes "extended en c ess (chain s) (chain t)" "length ess \<le> 2 ^ 64"
  shows "chain_holds en c ess s t"
proof -
  obtain boos where b: "length boos = length ess" "chain t = fold (add_block en c) (zip ess boos) (chain s)"
    using assms(1) unfolding extended_def by blast
  have fld: "logIndex u = fst (chain u)" "ordSnapshot u = fst (snd (chain u))" "cmtSnapshot u = snd (snd (chain u))" for u
    by (simp_all add: chain_def)
  show ?thesis
    using fold_chain [of "zip ess boos" en c "chain s"] b assms(2) unfolding chain_holds_def fld by auto
qed

text \<open>C5: Whatever happens to a worker of the batch-size driven loop (it waits, panics, or waits for a booth),
  what it has put on the chain is an initial part of its request queue, cut into full batches, in
  order, at consecutive block ids, with the hash of exactly these entries, the same in both
  snapshots; nothing else on any chain changed. A worker that returns has emptied a closed queue and
  left out only the incomplete last batch.\<close>

theorem current_ordering_safe:
  assumes "BatchSize c = int n" "0 < n" "length q < 2 ^ 64"
  shows "\<exists>m \<le> length q div n. chain_holds en c (take m (batches n (map entry_of q))) s
      (final (current_loop ky en c fuel closed q empty_shuffle s))
    \<and> (is_done (current_loop ky en c fuel closed q empty_shuffle s) \<longrightarrow> closed \<and> m = length q div n)"
proof -
  let ?b = "batches n (map entry_of q)"
  have len: "length ?b = length q div n" by (simp add: length_batches)
  obtain m where m: "m \<le> length ?b"
      "extended en c (take m ?b) (chain s) (chain (final (current_loop ky en c fuel closed q empty_shuffle s)))"
      "is_done (current_loop ky en c fuel closed q empty_shuffle s) \<longrightarrow> closed \<and> m = length ?b"
    using current_loop_safe [OF assms(1,2), of "[]" q en s ky fuel closed] assms(2) by (auto simp: empty_shuffle_sh_of)
  have "length q div n \<le> length q" by simp
  then have "length (take m ?b) \<le> 2 ^ 64" using m(1) len assms(3) unfolding length_take by linarith
  then show ?thesis using extended_chain_holds [OF m(2)] m(1,3) len by auto
qed

section \<open>A broadcast in either configuration\<close>

lemma broadcast_booth_returns:
  assumes "0 \<le> b" "b < int (length (booMgr_b s))" "members_in_range c s ph (Indices (booMgr_b s ! nat b))" "detours_in_range c s ph"
  shows "\<exists>s'. broadcast_booth en c e ph b s = Done () s'"
proof (cases "EvaluateComPossibilityFlag c")
  case True
  then show ?thesis using broadcastToBoothWithComCheck_returns [OF assms] by (simp add: broadcast_booth_def)
next
  case False
  have "\<exists>s'. broadcastToBooth en c e ph b s = Done () s'"
    using broadcasts_silent(1) broadcastToBooth_loop [OF _ assms(1-3)] by (cases "broadcastError s") blast+
  then show ?thesis using False by (simp add: broadcast_booth_def)
qed

lemma broadcast_booth_sends:
  assumes "\<not> broadcastError s" "0 \<le> b" "b < int (length (booMgr_b s))" "members_in_range c s ph (Indices (booMgr_b s ! nat b))"
    and "audible en c s (Indices (booMgr_b s ! nat b))"
  shows "\<exists>s'. broadcast_booth en c e ph b s = Done () s'
    \<and> log_step en (\<lambda>_. True) (map (\<lambda>i. (Concierge ph i, e)) (members_to_send c s ph (Indices (booMgr_b s ! nat b)))) s s'"
proof (cases "EvaluateComPossibilityFlag c")
  case True
  then show ?thesis using broadcastToBoothWithComCheck_loop [OF assms(1-4), of en e] assms(5) by (simp add: broadcast_booth_def audible_def)
next
  case False
  then show ?thesis using broadcastToBooth_loop [OF assms(1-4), of en e] by (simp add: broadcast_booth_def)
qed

section \<open>The batch-size driven loop gets through its queue\<close>

text \<open>
  The conditions under which nothing stops a worker: vehicles participate at all times and every
  member of a booth, and every proposer of a possible detour, is an index of the connection table.
\<close>

definition world_ok :: "env \<Rightarrow> cfg \<Rightarrow> node \<Rightarrow> bool" where
  "world_ok en c s \<longleftrightarrow> registry_inv en s \<and> (\<forall>bo \<in> set (booMgr_b s). members_in_range c s OPA (Indices bo))
     \<and> (\<forall>k. 2 < length (participants_at en s k) \<and> members_in_range c s OPA (participants_at en s k)) \<and> detours_in_range c s OPA"

definition world_frame :: "node \<Rightarrow> node \<Rightarrow> bool" where
  "world_frame s t \<longleftrightarrow> booMgr_b t = booMgr_b s \<and> booMgr_index t = booMgr_index s \<and> concierge t = concierge s
     \<and> participantVehicleTimeData t = participantVehicleTimeData s \<and> simulationStartTime t = simulationStartTime s
     \<and> valToProComTimeMap t = valToProComTimeMap s"

lemma world_ok_frame: "world_frame s t \<Longrightarrow> world_ok en c s \<Longrightarrow> world_ok en c t"
  by (simp add: world_frame_def world_ok_def registry_inv_def members_in_range_def participants_at_def detours_in_range_def hears_def)

lemma net_frame_world: "net_frame s t \<Longrightarrow> world_frame s t"
  by (simp add: world_frame_def net_frame_fields)

lemma world_frame_trans: "world_frame s t \<Longrightarrow> world_frame t u \<Longrightarrow> world_frame s u"
  by (simp add: world_frame_def)

lemma getBoothID_world:
  assumes "world_ok en c s"
  shows "\<exists>b t. getBoothID ky en c (Suc fuel) s = Done b t \<and> 0 \<le> b \<and> b < int (length (booMgr_b t)) \<and> world_ok en c t"
proof -
  let ?p = "ServerID c # participants_at en s (clock_reads s)"
  have inv: "registry_inv en (look s)" using assms by (simp add: world_ok_def)
  obtain b t where run: "checkExactMatchInBooMgr ky en c ?p (look s) = Done b t" using checkExactMatch_Done by blast
  note r = registry_request [OF inv run]
  have t: "(\<forall>bo \<in> set (booMgr_b t). bo \<in> set (booMgr_b s) \<or> Indices bo = sort ?p) \<and> concierge t = concierge s
      \<and> participantVehicleTimeData t = participantVehicleTimeData s \<and> simulationStartTime t = simulationStartTime s
      \<and> valToProComTimeMap t = valToProComTimeMap s"
  proof (cases "booMgr_index (look s) (generateBoothHash en (sort ?p))")
    case None
    then show ?thesis using run checkExactMatch_new [OF None, of ky c] by (auto simp: look_def simp del: sort_key_simps)
  next
    case (Some j)
    then show ?thesis using run by (auto simp: checkExactMatch_known look_def simp del: sort_key_simps)
  qed
  then have "world_ok en c t" using r(1) assms
    by (auto simp: world_ok_def members_in_range_def participants_at_def detours_in_range_def hears_def simp del: sort_key_simps)
  moreover have "getBoothID ky en c (Suc fuel) s = Done b t"
    unfolding getBoothID_step using assms run by (auto simp: world_ok_def not_le [symmetric])
  ultimately show ?thesis using r(2,3) by blast
qed

lemma make_done:
  assumes "world_ok en c s" "es \<noteq> []" "PerfMetres c \<longrightarrow> LatMetreInterval c \<noteq> 0"
  shows "\<exists>t. makeAndBroadcast ky en c (Suc fuel) (sh_of es) s = Done (sh_of []) t \<and> world_ok en c t"
proof -
  obtain d where ser: "serialization_entries (numbered es) = Some d" by (simp add: serialization_entries_def)
  have loc: "present (numbered es) (upto_int 0 (int (length es))) = numbered es" by (simp add: present_numbered)
  obtain b t where b: "getBoothID ky en c (Suc fuel) s = Done b t" "0 \<le> b" "b < int (length (booMgr_b t))" and w: "world_ok en c t"
    using getBoothID_world [OF assms(1)] by blast
  let ?boo = "booMgr_b t ! nat b" and ?t2 = "t\<lparr>clock_reads := Suc (clock_reads t)\<rparr>"
  have "\<exists>u. record_start en c (logIndex s) ?t2 = Done () u \<and> world_frame ?t2 u"
    using assms(3) by (auto simp: record_start_def remG_def recordStartTime_def world_frame_def)
  then obtain u where u: "record_start en c (logIndex s) ?t2 = Done () u" "world_frame ?t2 u" by blast
  let ?frag = "snapshot_of en (getDigest en d) (numbered es) ?boo"
  obtain v where v: "register_block (ServerID c) (logIndex s) ?frag u = Done () v" "world_frame u v"
    by (simp add: register_block_def incrementLogIndex_def world_frame_def)
  let ?v2 = "v\<lparr>clock_reads := Suc (clock_reads v)\<rparr>"
  let ?post = "\<lparr>opa_Booth = ?boo, opa_BlockId = logIndex s, opa_BlockchainId = ServerID c, opa_Entries = numbered es, opa_Hash = getDigest en d\<rparr>"
  have fr: "world_frame t ?v2" using u(2) v(2) by (simp add: world_frame_def)
  then have "world_ok en c ?v2" "booMgr_b ?v2 = booMgr_b t" using world_ok_frame [OF fr w] by (simp_all add: world_frame_def)
  then have "\<exists>x. broadcast_booth en c (OPAEntry ?post) OPA b ?v2 = Done () x"
    using b by (intro broadcast_booth_returns) (auto simp: world_ok_def)
  then obtain x where x: "broadcast_booth en c (OPAEntry ?post) OPA b ?v2 = Done () x" by blast
  then have "net_frame ?v2 x" using broadcast_frame [of ?v2 en c "OPAEntry ?post" OPA b] by simp
  then have "world_ok en c (x\<lparr>clock_reads := Suc (clock_reads x)\<rparr>)"
    using world_ok_frame [OF world_frame_trans [OF fr net_frame_world] w, of x]
    by (auto elim!: world_ok_frame [rotated] simp: world_frame_def)
  moreover have "makeAndBroadcast ky en c (Suc fuel) (sh_of es) s = Done (sh_of []) (x\<lparr>clock_reads := Suc (clock_reads x)\<rparr>)"
    using assms(2) b u(1) v(1) x
    by (simp add: makeAndBroadcast_def sh_of_def loc ser getLogIndex_def Let_def empty_shuffle_def del: getBoothID.simps)
  ultimately show ?thesis by blast
qed

lemma current_loop_done:
  assumes "world_ok en c s" "PerfMetres c \<longrightarrow> LatMetreInterval c \<noteq> 0"
  shows "is_done (current_loop ky en c (Suc fuel) True q (sh_of es) s)"
  using assms(1)
proof (induction q arbitrary: es s)
  case (Cons m q)
  obtain t where "makeAndBroadcast ky en c (Suc fuel) (sh_of (es @ [entry_of m])) s = Done (sh_of []) t" "world_ok en c t"
    using make_done [OF Cons.prems snoc_not_Nil assms(2)] by blast
  then show ?case using Cons.IH [OF Cons.prems] Cons.IH [of t "[]"] by (simp add: Let_def put_entry_sh_of)
qed simp

text \<open>A worker of the batch-size driven loop gets through a queue that is closed in the end: when vehicles
  participate at all times, every member is an index of the connection table and the sampling interval is
  not zero, it returns with all full batches of its queue on the chain.\<close>

theorem current_ordering_complete:
  assumes "world_ok en c s" "PerfMetres c \<longrightarrow> LatMetreInterval c \<noteq> 0"
    and "BatchSize c = int n" "0 < n" "length q < 2 ^ 64"
  shows "\<exists>t. current_loop ky en c (Suc fuel) True q empty_shuffle s = Done () t
    \<and> chain_holds en c (batches n (map entry_of q)) s t"
proof -
  obtain t where t: "current_loop ky en c (Suc fuel) True q (sh_of []) s = Done () t"
    using current_loop_done [OF assms(1,2), of ky fuel q "[]"] by (cases "current_loop ky en c (Suc fuel) True q (sh_of []) s") auto
  let ?b = "batches n (map entry_of q)"
  have "extended en c ?b (chain s) (chain t)"
    using current_loop_safe [OF assms(3,4), of "[]" q en s ky "Suc fuel" True] t assms(4) by auto
  moreover have "length ?b \<le> 2 ^ 64"
    using assms(5) div_le_dividend [of "length q" n] unfolding length_batches length_map by linarith
  ultimately show ?thesis using t extended_chain_holds unfolding empty_shuffle_sh_of by blast
qed

section \<open>The time-driven loop\<close>

lemma filter_numbered_less: "filter (\<lambda>(k, e). k < int (length es)) (numbered es) = numbered es"
  using numbered_keys [of es] by (intro filter_True) force

lemma filter_numbered_rest: "filter (\<lambda>(k, e). \<not> k < int (length es)) (numbered es) = []"
  using numbered_keys [of es] by (intro filter_False) force

lemma renumber_numbered: "renumber (numbered es) = numbered es"
proof -
  have "length (numbered es) = length es" by (simp add: numbered_def)
  then show ?thesis by (simp add: renumber_def) (simp add: numbered_def)
qed

lemma tick_block_run:
  assumes "BatchSize c = int n" "length es \<le> n"
  shows "tick_block ky en c fuel (sh_of es) = (if es = [] then ret (sh_of [])
     else thenG (bindG (makeAndBroadcast ky en c fuel (sh_of es)) (\<lambda>_. ret ())) (ret (sh_of [])))"
proof (cases "es = []")
  case False
  have takeN: "(if int (length es) < BatchSize c then int (length es) else BatchSize c) = int (length es)" using assms by auto
  have found: "present (numbered es) (upto_int 0 (int (length es))) = numbered es" by (simp add: present_numbered)
  show ?thesis using False
    unfolding tick_block_def Let_def sh_of_def shuffleBuf.simps takeN found filter_numbered_less filter_numbered_rest renumber_numbered
    by (simp add: renumber_def)
qed (simp add: tick_block_def sh_of_def)

text \<open>What a run of the loop did to the chain and to its input.\<close>

definition periodic_ok :: "env \<Rightarrow> cfg \<Rightarrow> nat \<Rightarrow> Entry list \<Rightarrow> Proposal list \<Rightarrow> chain_state
    \<Rightarrow> ((Proposal list \<times> shuffleBuf) option, node) outcome \<Rightarrow> Entry list list \<Rightarrow> bool" where
  "periodic_ok en c n es q x out ess \<longleftrightarrow>
     (\<forall>b \<in> set ess. b \<noteq> [] \<and> length b \<le> n) \<and> extended en c ess x (chain (final out))
   \<and> (\<exists>zs. concat ess @ zs = es @ map entry_of q)
   \<and> (\<forall>q' sh t. out = Done (Some (q', sh)) t \<longrightarrow>
        (\<exists>es' p. sh = sh_of es' \<and> length es' \<le> n \<and> q = p @ q' \<and> concat ess @ es' = es @ map entry_of p))"

lemma periodic_ok_tick:
  assumes "periodic_ok en c n [] q (add_block en c (es, boo) x) out ess" "es \<noteq> []" "length es \<le> n"
  shows "periodic_ok en c n es q x out (es # ess)"
  using assms unfolding periodic_ok_def by (auto intro: extended_Cons) 

lemma periodic_ok_input:
  assumes "periodic_ok en c n (es @ [entry_of m]) q x out ess"
  shows "periodic_ok en c n es (m # q) x out ess"
proof -
  have "\<exists>es' p'. sh = sh_of es' \<and> length es' \<le> n \<and> m # q = p' @ q' \<and> concat ess @ es' = es @ map entry_of p'"
    if "sh = sh_of es'" "length es' \<le> n" "q = p @ q'" "concat ess @ es' = (es @ [entry_of m]) @ map entry_of p" for sh es' p q'
    using that by (intro exI [of _ es'] exI [of _ "m # p"]) simp
  then show ?thesis using assms unfolding periodic_ok_def by fastforce
qed

lemma periodic_ok_stop:
  assumes "chain (final out) = x" "\<And>q' sh t. out = Done (Some (q', sh)) t \<Longrightarrow> sh = sh_of es \<and> q' = q" "length es \<le> n"
  shows "periodic_ok en c n es q x out []"
  using assms unfolding periodic_ok_def by auto

lemma periodic_ok_made:
  assumes "chain (final out) = add_block en c (es, boo) x" "\<not> is_done out" "es \<noteq> []" "length es \<le> n"
  shows "periodic_ok en c n es q x out [es]"
  using assms extended_one [of en c es x boo] unfolding periodic_ok_def by auto

lemma periodic_input_ok:
  assumes IH: "\<And>q es s. length es \<le> n \<Longrightarrow> \<exists>ess. periodic_ok en c n es q (chain s) (periodic_loop ky en c fuel closed sched q (sh_of es) s) ess"
    and "BatchSize c = int n" "length es \<le> n"
  shows "\<exists>ess. periodic_ok en c n es q (chain s) (periodic_loop ky en c fuel closed (Input # sched) q (sh_of es) s) ess"
proof (cases "length es = n")
  case True
  then have "periodic_loop ky en c fuel closed (Input # sched) q (sh_of es) = periodic_loop ky en c fuel closed sched q (sh_of es)"
    using assms(2) by (simp add: sh_of_def)
  then show ?thesis using IH assms(3) by simp
next
  case False
  then have room: "\<not> counter (sh_of es) \<ge> BatchSize c" "length (es @ [entry_of m]) \<le> n" for m
    using assms(2,3) by (simp_all add: sh_of_def)
  show ?thesis
  proof (cases q)
    case Nil
    show ?thesis
    proof (cases closed)
      case True
      then show ?thesis using room Nil assms(3) by (intro exI [of _ "[]"] periodic_ok_stop) auto
    qed (use room Nil IH assms(3) in simp)
  next
    case (Cons m q')
    then show ?thesis using IH [OF room(2), of m q' s] room(1) periodic_ok_input by (simp add: put_entry_sh_of) blast
  qed
qed

lemma periodic_tick_ok:
  assumes IH: "\<And>q es s. length es \<le> n \<Longrightarrow> \<exists>ess. periodic_ok en c n es q (chain s) (periodic_loop ky en c fuel closed sched q (sh_of es) s) ess"
    and "BatchSize c = int n" "length es \<le> n"
  shows "\<exists>ess. periodic_ok en c n es q (chain s) (periodic_loop ky en c fuel closed (Tick # sched) q (sh_of es) s) ess"
proof (cases "es = []")
  case True
  then show ?thesis using IH [of "[]" q s] tick_block_run [OF assms(2), of "[]" ky] by simp
next
  case False
  let ?go = "\<lambda>_. periodic_loop ky en c fuel closed sched q (sh_of [])"
  have loop: "periodic_loop ky en c fuel closed (Tick # sched) q (sh_of es) s = bindG (makeAndBroadcast ky en c fuel (sh_of es)) ?go s"
    using False tick_block_run [OF assms(2,3), of ky] by (cases "makeAndBroadcast ky en c fuel (sh_of es) s") simp_all
  show ?thesis
  proof (cases rule: make_then [OF False, of ky en c fuel ?go s])
    case 1
    then show ?thesis unfolding loop using assms(3) by (intro exI [of _ "[]"] periodic_ok_stop) auto
  next
    case (2 boo)
    then show ?thesis unfolding loop using False assms(3) periodic_ok_made by blast
  next
    case (3 boo t)
    obtain ess where "periodic_ok en c n [] q (add_block en c (es, boo) (chain s)) (?go () t) ess"
      using IH [of "[]" q t] 3(2) by auto
    then show ?thesis unfolding loop 3(1) using periodic_ok_tick False assms(3) by blast
  qed
qed

lemma periodic_loop_ok:
  assumes "BatchSize c = int n" "length es \<le> n"
  shows "\<exists>ess. periodic_ok en c n es q (chain s) (periodic_loop ky en c fuel closed sched q (sh_of es) s) ess"
  using assms(2)
proof (induction sched arbitrary: q es s)
  case Nil
  then show ?case by (intro exI [of _ "[]"] periodic_ok_stop) auto
next
  case (Cons r sched)
  have IH: "\<exists>ess. periodic_ok en c n es q (chain s) (periodic_loop ky en c fuel closed sched q (sh_of es) s) ess" if "length es \<le> n" for q es s
    using Cons.IH that by blast
  show ?case
    by (cases r) (auto simp del: periodic_loop.simps intro: periodic_input_ok [OF IH assms(1) Cons.prems] periodic_tick_ok [OF IH assms(1) Cons.prems])
qed

text \<open>C19: Under any schedule of ticks and requests, and whatever the outcome, the time-driven loop puts on the
  chain, at consecutive ids, non-empty blocks of at most \<open>BatchSize\<close> entries whose concatenation is an
  initial part of the request queue. When it is still running, blocks, buffer and the rest of the queue
  together are the queue it started from, no entry lost or doubled, and the buffer never exceeds \<open>BatchSize\<close>.\<close>

theorem periodic_ordering_safe:
  assumes "BatchSize c = int n" "length q < 2 ^ 64"
  shows "\<exists>ess. chain_holds en c ess s (final (periodic_loop ky en c fuel closed sched q empty_shuffle s))
    \<and> periodic_ok en c n [] q (chain s) (periodic_loop ky en c fuel closed sched q empty_shuffle s) ess"
proof -
  obtain ess where ok: "periodic_ok en c n [] q (chain s) (periodic_loop ky en c fuel closed sched q empty_shuffle s) ess"
    using periodic_loop_ok [OF assms(1), of "[]" en q s ky fuel closed sched] unfolding empty_shuffle_sh_of by auto
  have len: "\<forall>b \<in> set xss. b \<noteq> [] \<Longrightarrow> length xss \<le> length (concat xss)" for xss :: "Entry list list"
  proof (induction xss)
    case (Cons a xss)
    have "0 < length a" using Cons.prems by simp
    moreover have "length xss \<le> length (concat xss)" using Cons by simp
    ultimately show ?case unfolding concat.simps list.size length_append by linarith
  qed simp
  obtain zs where "concat ess @ zs = map entry_of q" using ok unfolding periodic_ok_def by auto
  then have "length (concat ess) + length zs = length q" by (metis length_append length_map)
  moreover have "length ess \<le> length (concat ess)" using ok len unfolding periodic_ok_def by blast
  ultimately have "length ess \<le> 2 ^ 64" using assms(2) by linarith
  moreover have "extended en c ess (chain s) (chain (final (periodic_loop ky en c fuel closed sched q empty_shuffle s)))"
    using ok unfolding periodic_ok_def by (elim conjE)
  ultimately show ?thesis using ok extended_chain_holds by blast
qed

section \<open>Collecting votes\<close>

text \<open>
  The contract of a vote counter: votes are kept in order of arrival until there are \<open>quorum\<close> of
  them, and exactly the vote that completes the quorum is told so, with all votes.
\<close>

locale vote_collector =
  fixes vote :: "'sig \<Rightarrow> 's \<Rightarrow> 'sig list option \<times> 's"
    and votes :: "'s \<Rightarrow> 'sig list"
    and quorum :: nat
    and ok :: "'s \<Rightarrow> bool"
  assumes ok_vote: "ok s \<Longrightarrow> ok (snd (vote x s))"
    and counted: "ok s \<Longrightarrow> votes (snd (vote x s)) = (if length (votes s) = quorum then votes s else votes s @ [x])"
    and fires: "ok s \<Longrightarrow> fst (vote x s) = (if Suc (length (votes s)) = quorum then Some (votes s @ [x]) else None)"
begin

fun tally :: "'sig list \<Rightarrow> 's \<Rightarrow> 'sig list option list \<times> 's" where
  "tally [] s = ([], s)"
| "tally (x # xs) s = (fst (vote x s) # fst (tally xs (snd (vote x s))), snd (tally xs (snd (vote x s))))"

lemma tally_length: "length (fst (tally xs s)) = length xs"
  by (induction xs arbitrary: s) simp_all

lemma tally_ok: "ok s \<Longrightarrow> ok (snd (tally xs s))"
  by (induction xs arbitrary: s) (simp_all add: ok_vote)

lemma tally_votes:
  "ok s \<Longrightarrow> length (votes s) \<le> quorum \<Longrightarrow> votes (snd (tally xs s)) = take quorum (votes s @ xs)"
proof (induction xs arbitrary: s)
  case (Cons x xs)
  have "votes (snd (tally xs (snd (vote x s)))) = take quorum (votes (snd (vote x s)) @ xs)"
    by (rule Cons.IH) (use Cons.prems in \<open>auto simp: ok_vote counted\<close>)
  then show ?case using Cons.prems by (auto simp: counted take_Cons')
qed simp

lemma tally_fires:
  assumes "ok s" "length (votes s) \<le> quorum" "k < length xs"
  shows "fst (tally xs s) ! k = (if Suc (length (votes s) + k) = quorum then Some (take quorum (votes s @ xs)) else None)"
  using assms
proof (induction xs arbitrary: s k)
  case (Cons x xs)
  show ?case
  proof (cases k)
    case 0
    then show ?thesis using Cons.prems by (auto simp: fires)
  next
    case (Suc j)
    let ?s = "snd (vote x s)"
    have "fst (tally xs ?s) ! j = (if Suc (length (votes ?s) + j) = quorum then Some (take quorum (votes ?s @ xs)) else None)"
      by (rule Cons.IH) (use Cons.prems Suc in \<open>auto simp: ok_vote counted\<close>)
    then show ?thesis using Cons.prems Suc by (auto simp: counted)
  qed
qed simp

lemma fires_once:
  assumes "ok s" "votes s = []" "0 < quorum"
  shows "length (filter (\<lambda>r. r \<noteq> None) (fst (tally xs s))) = (if quorum \<le> length xs then 1 else 0)"
proof -
  have "fst (tally xs s) = map (\<lambda>k. if Suc k = quorum then Some (take quorum xs) else None) [0..<length xs]"
    by (rule nth_equalityI) (simp_all add: tally_length tally_fires assms(1,2))
  then have "length (filter (\<lambda>r. r \<noteq> None) (fst (tally xs s))) = length (filter (\<lambda>k. Suc k = quorum) [0..<length xs])"
    by (simp add: filter_map o_def if_distrib cong: if_cong)
  also have "filter (\<lambda>k. Suc k = quorum) [0..<n] = (if quorum \<le> n then [quorum - 1] else [])" for n
    using assms(3) by (induction n) auto
  finally show ?thesis by simp
qed

end

definition ob_votes :: "int \<Rightarrow> int64 \<Rightarrow> node \<Rightarrow> bytes list" where
  "ob_votes b i s = (case nget (ordSnapshot s) b i of None \<Rightarrow> [] | Some f \<Rightarrow> sigs f)"

definition ob_open :: "int \<Rightarrow> int64 \<Rightarrow> nat \<Rightarrow> node \<Rightarrow> bool" where
  "ob_open b i n s \<longleftrightarrow> (\<exists>f. nget (ordSnapshot s) b i = Some f \<and> length (Indices (booth f)) = n)"

definition opa_reply :: "int \<Rightarrow> int64 \<Rightarrow> bytes \<Rightarrow> ValidatorOPAReply" where
  "opa_reply b i x = \<lparr>opar_BlockchainId = b, opar_BlockId = i, opar_ParSig = x\<rparr>"

definition ob_step :: "cfg \<Rightarrow> int \<Rightarrow> int64 \<Rightarrow> bytes \<Rightarrow> node \<Rightarrow> bytes list option \<times> node" where
  "ob_step c b i x s = (case ob_vote c (opa_reply b i x) s of
     Done r s' \<Rightarrow> (map_option snd r, s') | Panicked p s' \<Rightarrow> (None, s') | Blocked s' \<Rightarrow> (None, s'))"

lemma ob_vote_run:
  assumes "nget (ordSnapshot s) b i = Some f"
  shows "ob_vote c (opa_reply b i x) s =
    (let t = 2 * (length (Indices (booth f)) div 3) in
     if length (sigs f) = t then Done None s
     else Done (if Suc (length (sigs f)) = t then Some (f, sigs f @ [x]) else None)
       (s\<lparr>ordSnapshot := nset (ordSnapshot s) b i (f\<lparr>sigs := sigs f @ [x]\<rparr>)\<rparr>))"
proof -
  have "int m + 1 = int n \<longleftrightarrow> Suc m = n" for m n by auto
  then show ?thesis using assms
    by (auto simp: ob_vote_def opa_reply_def Let_def getThreshold_nat simp del: of_nat_mult)
qed

interpretation ob: vote_collector "ob_step c b i" "ob_votes b i" "2 * (n div 3)" "ob_open b i n" for c b i n
  by unfold_locales (auto simp: ob_step_def ob_vote_run ob_votes_def ob_open_def Let_def)

fun ob_vote_all :: "cfg \<Rightarrow> ValidatorOPAReply list \<Rightarrow> (node, (blockSnapshot \<times> bytes list) option list) go" where
  "ob_vote_all c [] = ret []"
| "ob_vote_all c (m # ms) = bindG (ob_vote c m) (\<lambda>r. bindG (ob_vote_all c ms) (\<lambda>rs. ret (r # rs)))"

lemma ob_vote_all_tally:
  assumes "ob_open b i n s"
  shows "\<exists>rs. ob_vote_all c (map (opa_reply b i) xs) s = Done rs (snd (ob.tally c b i xs s)) \<and> map (map_option snd) rs = fst (ob.tally c b i xs s)"
  using assms
proof (induction xs arbitrary: s)
  case (Cons x xs)
  obtain f where f: "nget (ordSnapshot s) b i = Some f" using Cons.prems by (auto simp: ob_open_def)
  have "\<exists>r s'. ob_vote c (opa_reply b i x) s = Done r s'"
    unfolding ob_vote_run [OF f] Let_def by (cases "length (sigs f) = 2 * (length (Indices (booth f)) div 3)") simp_all
  then obtain r where r: "ob_vote c (opa_reply b i x) s = Done r (snd (ob_step c b i x s))" "map_option snd r = fst (ob_step c b i x s)"
    by (auto simp: ob_step_def)
  obtain rs where "ob_vote_all c (map (opa_reply b i) xs) (snd (ob_step c b i x s)) = Done rs (snd (ob.tally c b i xs (snd (ob_step c b i x s))))"
      "map (map_option snd) rs = fst (ob.tally c b i xs (snd (ob_step c b i x s)))"
    using Cons.IH [OF ob.ok_vote [OF Cons.prems]] by blast
  then show ?case using r by simp
qed simp

text \<open>C18: Replies to one block, in any number, order and from any senders, complete its ordering quorum exactly
  once: the reply number \<open>2 * (n div 3)\<close> of a booth of \<open>n\<close> members gets the first \<open>2 * (n div 3)\<close> signatures
  for the recovery, every other reply gets nothing, and no more signatures are kept. Nothing
  checks that the replies come from distinct members or that their signatures are valid.\<close>

theorem ob_quorum_once:
  assumes "nget (ordSnapshot s) b i = Some f" "sigs f = []" "t = 2 * (length (Indices (booth f)) div 3)"
  shows "\<exists>s' rs. ob_vote_all c (map (opa_reply b i) xs) s = Done rs s'
    \<and> map (map_option snd) rs = map (\<lambda>k. if Suc k = t then Some (take t xs) else None) [0..<length xs]
    \<and> ob_votes b i s' = take t xs"
proof -
  let ?n = "length (Indices (booth f))"
  have ok: "ob_open b i ?n s" using assms(1) by (simp add: ob_open_def)
  have none: "ob_votes b i s = []" using assms(1,2) by (simp add: ob_votes_def)
  obtain rs where rs: "ob_vote_all c (map (opa_reply b i) xs) s = Done rs (snd (ob.tally c b i xs s))"
    "map (map_option snd) rs = fst (ob.tally c b i xs s)"
    using ob_vote_all_tally [OF ok] by blast
  have "fst (ob.tally c b i xs s) = map (\<lambda>k. if Suc k = t then Some (take t xs) else None) [0..<length xs]"
    by (rule nth_equalityI) (simp_all add: ob.tally_length ob.tally_fires [OF ok] none assms(3))
  moreover have "ob_votes b i (snd (ob.tally c b i xs s)) = take t xs"
    using ob.tally_votes [OF ok] by (simp add: none assms(3))
  ultimately show ?thesis using rs by auto
qed

text \<open>The reply that completes the quorum, up to the recovery.\<close>

definition voted :: "node \<Rightarrow> int \<Rightarrow> int64 \<Rightarrow> blockSnapshot \<Rightarrow> bytes \<Rightarrow> node" where
  "voted s b i f x = s\<lparr>ordSnapshot := nset (ordSnapshot s) b i (f\<lparr>sigs := sigs f @ [x]\<rparr>), clock_reads := Suc (clock_reads s)\<rparr>"

lemma ob_reply_quorum:
  assumes "nget (ordSnapshot s) b i = Some f" "Suc (length (sigs f)) = 2 * (length (Indices (booth f)) div 3)"
    and keys: "fetchKeysByBoothId ky (getThreshold (int (length (Indices (booth f))))) (ServerID c) (ID (booth f)) b s = Done (pub, pri) s"
  shows "asyncHandleOBReply ky en c (opa_reply b i x) sid s =
       (case PenRecovery ky (sigs f @ [x]) (hash f) pub (int (length (Indices (booth f)))) of
          None \<Rightarrow> ret ()
        | Some sg \<Rightarrow> thenG (ob_record en c (opa_reply b i x)) (thenG (ob_store (opa_reply b i x) sg)
            (thenG (broadcast_booth en c (OPBEntry (order_entry (opa_reply b i x) f sg)) OPB (ID (booth f)))
            (bindG (nowG en) (\<lambda>_. ret ()))))) (voted s b i f x)"
proof -
  let ?s0 = "s\<lparr>ordSnapshot := nset (ordSnapshot s) b i (f\<lparr>sigs := sigs f @ [x]\<rparr>)\<rparr>"
  have k: "fetchKeysByBoothId ky (getThreshold (int (length (Indices (booth f))))) (ServerID c) (ID (booth f)) b (voted s b i f x) = Done (pub, pri) (voted s b i f x)"
    using keys by (auto simp: fetchKeysByBoothId_def voted_def split: sum.splits)
  have v: "ob_vote c (opa_reply b i x) s = Done (Some (f, sigs f @ [x])) ?s0"
    using assms(2) unfolding ob_vote_run [OF assms(1)] Let_def by simp
  have clk: "nowG en ?s0 = Done (unixMilli en (clock_reads s)) (voted s b i f x)"
    by (simp add: voted_def)
  have r: "ob_recover ky en c (opa_reply b i x) f (sigs f @ [x]) ?s0 =
      Done (PenRecovery ky (sigs f @ [x]) (hash f) pub (int (length (Indices (booth f))))) (voted s b i f x)"
    using k clk by (simp add: ob_recover_def Let_def opa_reply_def del: nowG_app)
  show ?thesis
    unfolding asyncHandleOBReply_def
    by (rule trans [OF bindG_Done [of "ob_vote c (opa_reply b i x)", OF v]])
      (use bindG_Done [of "ob_recover ky en c (opa_reply b i x) f (sigs f @ [x])", OF r] in simp)
qed

text \<open>What a broadcast depends on, and the commit instances.\<close>

definition booth_view :: "node \<Rightarrow> node \<Rightarrow> bool" where
  "booth_view s t \<longleftrightarrow> booMgr_b t = booMgr_b s \<and> concierge t = concierge s \<and> broadcastError t = broadcastError s \<and> sent t = sent s
     \<and> booMgr_index t = booMgr_index s \<and> files t = files s \<and> vgTxMeta_sigs t = vgTxMeta_sigs s \<and> participantVehicleTimeData t = participantVehicleTimeData s
     \<and> same_links s t"

lemma ob_record_run:
  assumes "PerfMetres c \<longrightarrow> LatMetreInterval c \<noteq> 0"
  shows "\<exists>s1. ob_record en c m s = Done () s1 \<and> vgrec s1 = rec_Add (opar_BlockId m) (vgrec s)
    \<and> cmtSnapshot s1 = cmtSnapshot s \<and> ordSnapshot s1 = ordSnapshot s \<and> booth_view s s1"
  using assms by (auto simp: booth_view_def same_links_def ob_record_def vgrec_Add_def remG_def recordOrderTime_def)

lemma ob_orders_run:
  assumes "nget (ordSnapshot s) b i = Some f" "Suc (length (sigs f)) = 2 * (length (Indices (booth f)) div 3)"
    and "fetchKeysByBoothId ky (getThreshold (int (length (Indices (booth f))))) (ServerID c) (ID (booth f)) b s = Done (pub, pri) s"
    and "PenRecovery ky (sigs f @ [x]) (hash f) pub (int (length (Indices (booth f)))) = Some sg"
    and "nget (cmtSnapshot s) b i = Some g" "PerfMetres c \<longrightarrow> LatMetreInterval c \<noteq> 0"
  shows "\<exists>s1. asyncHandleOBReply ky en c (opa_reply b i x) sid s =
      thenG (broadcast_booth en c (OPBEntry (order_entry (opa_reply b i x) f sg)) OPB (ID (booth f))) (bindG (nowG en) (\<lambda>_. ret ())) s1
    \<and> blockIDs (vgrec s1) = blockIDs (vgrec s) @ [i] \<and> nget (cmtSnapshot s1) b i = Some (g\<lparr>tSig := sg\<rparr>)
    \<and> nget (ordSnapshot s1) b i = Some (f\<lparr>sigs := sigs f @ [x]\<rparr>) \<and> booth_view s s1 \<and> lastIdx (vgrec s1) = lastIdx (vgrec s)"
proof -
  obtain s1 where s1: "ob_record en c (opa_reply b i x) (voted s b i f x) = Done () s1" "vgrec s1 = rec_Add i (vgrec s)"
      "cmtSnapshot s1 = cmtSnapshot s" "ordSnapshot s1 = nset (ordSnapshot s) b i (f\<lparr>sigs := sigs f @ [x]\<rparr>)" "booth_view s s1"
    using ob_record_run [OF assms(6), of en "opa_reply b i x" "voted s b i f x"] by (auto simp: voted_def opa_reply_def booth_view_def same_links_def)
  let ?s2 = "s1\<lparr>cmtSnapshot := nset (cmtSnapshot s1) b i (g\<lparr>tSig := sg\<rparr>)\<rparr>"
  have "ob_store (opa_reply b i x) sg s1 = Done () ?s2"
    using s1(3) assms(5) by (simp add: ob_store_def opa_reply_def)
  then have "asyncHandleOBReply ky en c (opa_reply b i x) sid s =
      thenG (broadcast_booth en c (OPBEntry (order_entry (opa_reply b i x) f sg)) OPB (ID (booth f))) (bindG (nowG en) (\<lambda>_. ret ())) ?s2"
    unfolding ob_reply_quorum [OF assms(1-3)] using s1(1) assms(4) by simp
  then show ?thesis using s1 by (intro exI [of _ ?s2]) (simp add: rec_Add_def booth_view_def same_links_def)
qed

text \<open>C6: The reply that completes the quorum of a block orders it: when the signature is recovered, the
  block's id is appended to the recorder, its signature is stored in the commit snapshot, and, in the state
  so reached, the ordering result is broadcast to the booth that ordered it.\<close>

theorem ob_quorum_orders:
  assumes "nget (ordSnapshot s) b i = Some f" "Suc (length (sigs f)) = 2 * (length (Indices (booth f)) div 3)"
    and "fetchKeysByBoothId ky (getThreshold (int (length (Indices (booth f))))) (ServerID c) (ID (booth f)) b s = Done (pub, pri) s"
    and "PenRecovery ky (sigs f @ [x]) (hash f) pub (int (length (Indices (booth f)))) = Some sg"
    and "nget (cmtSnapshot s) b i = Some g" "PerfMetres c \<longrightarrow> LatMetreInterval c \<noteq> 0"
  shows "\<exists>s1. asyncHandleOBReply ky en c (opa_reply b i x) sid s =
      thenG (broadcast_booth en c (OPBEntry (order_entry (opa_reply b i x) f sg)) OPB (ID (booth f))) (bindG (nowG en) (\<lambda>_. ret ())) s1
    \<and> blockIDs (vgrec s1) = blockIDs (vgrec s) @ [i] \<and> nget (cmtSnapshot s1) b i = Some (g\<lparr>tSig := sg\<rparr>)
    \<and> nget (ordSnapshot s1) b i = Some (f\<lparr>sigs := sigs f @ [x]\<rparr>) \<and> sent s1 = sent s"
  using ob_orders_run [OF assms] unfolding booth_view_def by blast

text \<open>When the recovery from the first quorum of votes fails (one invalid signature among them is
  enough), the block is stuck: it is not recorded, nothing is sent, and every later reply to it, valid or
  not, is dropped without any effect.\<close>

theorem ob_failed_recovery_stuck:
  assumes "nget (ordSnapshot s) b i = Some f" "Suc (length (sigs f)) = 2 * (length (Indices (booth f)) div 3)"
    and "fetchKeysByBoothId ky (getThreshold (int (length (Indices (booth f))))) (ServerID c) (ID (booth f)) b s = Done (pub, pri) s"
    and "PenRecovery ky (sigs f @ [x]) (hash f) pub (int (length (Indices (booth f)))) = None"
  shows "\<exists>s1. asyncHandleOBReply ky en c (opa_reply b i x) sid s = Done () s1
    \<and> vgrec s1 = vgrec s \<and> sent s1 = sent s \<and> cmtSnapshot s1 = cmtSnapshot s
    \<and> (\<forall>x' sid'. asyncHandleOBReply ky en c (opa_reply b i x') sid' s1 = Done () s1)"
proof -
  have "nget (ordSnapshot (voted s b i f x)) b i = Some (f\<lparr>sigs := sigs f @ [x]\<rparr>)" by (simp add: voted_def)
  from ob_vote_run [OF this] assms(2)
  have "ob_vote c (opa_reply b i x') (voted s b i f x) = Done None (voted s b i f x)" for x'
    by (simp add: Let_def)
  then have "asyncHandleOBReply ky en c (opa_reply b i x') sid' (voted s b i f x) = Done () (voted s b i f x)" for x' sid'
    by (simp add: asyncHandleOBReply_def)
  moreover have "asyncHandleOBReply ky en c (opa_reply b i x) sid s = Done () (voted s b i f x)"
    unfolding ob_reply_quorum [OF assms(1-3)] assms(4) by simp
  ultimately show ?thesis by (intro exI [of _ "voted s b i f x"]) (simp add: voted_def)
qed

section \<open>Witnesses\<close>

definition demo_queue :: "Proposal list" where
  "demo_queue = [\<lparr>Timestamp = 1, Transaction = [65]\<rparr>, \<lparr>Timestamp = 2, Transaction = [66]\<rparr>, \<lparr>Timestamp = 3, Transaction = [67]\<rparr>]"

definition ord_cfg :: cfg where
  "ord_cfg = demo_cfg\<lparr>NumOfConn := 14\<rparr>"

definition ord_node :: node where
  "ord_node = demo_node\<lparr>participantVehicleTimeData := (\<lambda>_. Some [11, 12, 13]), concierge := (\<lambda>_. replicate 14 None)\<rparr>"

lemma ord_world_ok: "world_ok demo_env ord_cfg ord_node"
  by (simp add: world_ok_def registry_inv_def participants_at_def members_in_range_def detours_in_range_def ord_cfg_def demo_cfg_def ord_node_def demo_node_def init_node_def)

theorem current_ordering_safe_witness:
  "\<exists>m \<le> length demo_queue div 2. chain_holds demo_env ord_cfg (take m (batches 2 (map entry_of demo_queue))) ord_node
      (final (current_loop demo_kyber demo_env ord_cfg 5 False demo_queue empty_shuffle ord_node))
    \<and> (is_done (current_loop demo_kyber demo_env ord_cfg 5 False demo_queue empty_shuffle ord_node) \<longrightarrow> False \<and> m = length demo_queue div 2)"
  by (rule current_ordering_safe) (simp_all add: ord_cfg_def demo_cfg_def demo_queue_def)

theorem current_ordering_complete_witness:
  "\<exists>t. current_loop demo_kyber demo_env ord_cfg (Suc 0) True demo_queue empty_shuffle ord_node = Done () t
    \<and> chain_holds demo_env ord_cfg (batches 2 (map entry_of demo_queue)) ord_node t"
  by (rule current_ordering_complete [OF ord_world_ok]) (simp_all add: ord_cfg_def demo_cfg_def demo_queue_def)

theorem periodic_ordering_safe_witness:
  "\<exists>ess. chain_holds demo_env ord_cfg ess ord_node (final (periodic_loop demo_kyber demo_env ord_cfg 5 False [Input, Input, Tick, Input] demo_queue empty_shuffle ord_node))
    \<and> periodic_ok demo_env ord_cfg 2 [] demo_queue (chain ord_node)
        (periodic_loop demo_kyber demo_env ord_cfg 5 False [Input, Input, Tick, Input] demo_queue empty_shuffle ord_node) ess"
  by (rule periodic_ordering_safe) (simp_all add: ord_cfg_def demo_cfg_def demo_queue_def)

text \<open>Block 7 of proposer 10, ordered in booth 3 of four members, with one vote in.\<close>

definition voting_block :: blockSnapshot where
  "voting_block = \<lparr>hash = [1, 2], entries = [], sigs = [], tSig = [], booth = \<lparr>ID = 3, Indices = [10, 11, 12, 13]\<rparr>\<rparr>"

definition voting_node :: "(string \<rightharpoonup> string) \<Rightarrow> node" where
  "voting_node fs = init_node\<lparr>ordSnapshot := nset Map.empty 10 7 (voting_block\<lparr>sigs := [[5, 1, 2]]\<rparr>),
     cmtSnapshot := nset Map.empty 10 7 voting_block, files := fs\<rparr>"

lemma demo_keys:
  "\<exists>fs. \<forall>s. files s = fs \<longrightarrow> fetchKeysByBoothId demo_kyber 2 10 3 10 s = Done ([7, 9], \<lparr>I = 10, V = 10\<rparr>) s"
proof -
  obtain fs where run: "generator_main demo_kyber [7, 9] 14 3 10 Map.empty = Inr fs"
    using generator_main_total [OF demo_kyber_encodes] by (metis list.distinct(1))
  have "fetchKeysByBoothId demo_kyber 2 10 3 10 s = Done ([7, 9], \<lparr>I = 10, V = 10\<rparr>) s" if "files s = fs" for s
    using fetchKeys_generated [OF demo_kyber_encodes, where i = 10 and n = 14 and chain = 10 and coeffs = "[7, 9]"
        and boothId = 3 and f = Map.empty and s = s] run that
    by (simp add: demo_kyber_def)
  then show ?thesis by blast
qed

theorem ob_quorum_once_witness:
  "\<exists>s' rs. ob_vote_all demo_cfg (map (opa_reply 10 7) [[5], [5], [6]]) (init_node\<lparr>ordSnapshot := nset Map.empty 10 7 voting_block\<rparr>) = Done rs s'
    \<and> map (map_option snd) rs = map (\<lambda>k. if Suc k = 2 then Some (take 2 [[5], [5], [6]]) else None) [0..<length [[5::byte], [5], [6]]]
    \<and> ob_votes 10 7 s' = take 2 [[5], [5], [6]]"
  by (rule ob_quorum_once [where f = voting_block]) (simp_all add: voting_block_def)

theorem ob_quorum_orders_witness:
  "\<exists>fs s1. asyncHandleOBReply demo_kyber demo_env demo_cfg (opa_reply 10 7 [6, 1, 2]) 12 (voting_node fs) =
      thenG (broadcast_booth demo_env demo_cfg (OPBEntry (order_entry (opa_reply 10 7 [6, 1, 2]) (voting_block\<lparr>sigs := [[5, 1, 2]]\<rparr>) [255, 1, 2])) OPB 3)
        (bindG (nowG demo_env) (\<lambda>_. ret ())) s1
    \<and> blockIDs (vgrec s1) = [7]"
proof -
  obtain fs where keys: "\<forall>s. files s = fs \<longrightarrow> fetchKeysByBoothId demo_kyber 2 10 3 10 s = Done ([7, 9], \<lparr>I = 10, V = 10\<rparr>) s"
    using demo_keys by blast
  let ?f = "voting_block\<lparr>sigs := [[5, 1, 2]]\<rparr>"
  have "nget (ordSnapshot (voting_node fs)) 10 7 = Some ?f" "nget (cmtSnapshot (voting_node fs)) 10 7 = Some voting_block"
    by (simp_all add: voting_node_def)
  moreover have "fetchKeysByBoothId demo_kyber (getThreshold (int (length (Indices (booth ?f))))) (ServerID demo_cfg) (ID (booth ?f)) 10 (voting_node fs)
      = Done ([7, 9], \<lparr>I = 10, V = 10\<rparr>) (voting_node fs)"
    using keys by (simp add: voting_block_def demo_cfg_def voting_node_def getThreshold_def go_div_def)
  moreover have "PenRecovery demo_kyber (sigs ?f @ [[6, 1, 2]]) (hash ?f) [7, 9] (int (length (Indices (booth ?f)))) = Some [255, 1, 2]"
    by (simp add: PenRecovery_def demo_kyber_def voting_block_def getThreshold_def go_div_def)
  moreover have "Suc (length (sigs ?f)) = 2 * (length (Indices (booth ?f)) div 3)" "blockIDs (vgrec (voting_node fs)) = []" "ID (booth ?f) = 3"
    by (simp_all add: voting_block_def voting_node_def init_node_def)
  moreover have "PerfMetres demo_cfg \<longrightarrow> LatMetreInterval demo_cfg \<noteq> 0" by (simp add: demo_cfg_def)
  ultimately show ?thesis
    using ob_quorum_orders [of "voting_node fs" 10 7 ?f demo_kyber demo_cfg "[7, 9]" "\<lparr>I = 10, V = 10\<rparr>" "[6, 1, 2]" "[255, 1, 2]" voting_block demo_env 12]
    by (intro exI [of _ fs]) auto
qed

theorem ob_failed_recovery_stuck_witness:
  "\<exists>fs s1. asyncHandleOBReply demo_kyber demo_env demo_cfg (opa_reply 10 7 [6, 9, 9]) 12 (voting_node fs) = Done () s1
    \<and> asyncHandleOBReply demo_kyber demo_env demo_cfg (opa_reply 10 7 [6, 1, 2]) 13 s1 = Done () s1 \<and> blockIDs (vgrec s1) = []"
proof -
  obtain fs where keys: "\<forall>s. files s = fs \<longrightarrow> fetchKeysByBoothId demo_kyber 2 10 3 10 s = Done ([7, 9], \<lparr>I = 10, V = 10\<rparr>) s"
    using demo_keys by blast
  let ?f = "voting_block\<lparr>sigs := [[5, 1, 2]]\<rparr>"
  have "nget (ordSnapshot (voting_node fs)) 10 7 = Some ?f" by (simp add: voting_node_def)
  moreover have "fetchKeysByBoothId demo_kyber (getThreshold (int (length (Indices (booth ?f))))) (ServerID demo_cfg) (ID (booth ?f)) 10 (voting_node fs)
      = Done ([7, 9], \<lparr>I = 10, V = 10\<rparr>) (voting_node fs)"
    using keys by (simp add: voting_block_def demo_cfg_def voting_node_def getThreshold_def go_div_def)
  moreover have "PenRecovery demo_kyber (sigs ?f @ [[6, 9, 9]]) (hash ?f) [7, 9] (int (length (Indices (booth ?f)))) = None"
    by (simp add: PenRecovery_def demo_kyber_def voting_block_def)
  moreover have "Suc (length (sigs ?f)) = 2 * (length (Indices (booth ?f)) div 3)" "vgrec (voting_node fs) = \<lparr>blockIDs = [], lastIdx = 0\<rparr>"
    by (simp_all add: voting_block_def voting_node_def init_node_def)
  ultimately show ?thesis
    using ob_failed_recovery_stuck [of "voting_node fs" 10 7 ?f demo_kyber demo_cfg "[7, 9]" "\<lparr>I = 10, V = 10\<rparr>" "[6, 9, 9]" demo_env 12]
    by (intro exI [of _ fs]) auto
qed

end
