(* ===== verification/Consensus.thy ===== *)
theory Consensus
  imports Ordering
begin

text \<open>
  The consensus phase at the proposer (\<open>vconsensus.go\<close>): the loop that commits the ordered blocks
  range by range, and the collection of the validators' commit signatures, split where the code
  releases its locks. \<open>storeVgTx\<close> of \<open>cache.go\<close> only writes to the log and is not called.
\<close>

section \<open>One commit range\<close>

record ca_acc =
  acc_hashes :: "(int64 \<times> bytes) list"
  acc_new :: "int list"
  acc_resent :: "ProposerOPBEntry list"

text \<open>The loop over the members of the commit booth: is one of them new to the block, and which.\<close>

fun collect_new :: "int list \<Rightarrow> int list \<Rightarrow> bool \<times> int list \<Rightarrow> bool \<times> int list" where
  "collect_new ord [] (flag, new) = (flag, new)"
| "collect_new ord (cmtMember # rest) (flag, new) =
     (if \<not> Contain ord cmtMember
      then collect_new ord rest (True, if \<not> Contain new cmtMember then new @ [cmtMember] else new)
      else collect_new ord rest (flag, new))"

text \<open>\<open>vgTxData.tx[blockchainId][consInstID][boo] = append(.., blockEntries)\<close>\<close>

definition append_tx :: "int \<Rightarrow> int \<Rightarrow> string \<Rightarrow> Entry list \<Rightarrow> (node, unit) go" where
  "append_tx blockchainId consInstID boo blockEntries =
     bindG (getG (\<lambda>s. nget (vgTxData_tx s) blockchainId consInstID)) (\<lambda>r. case r of
       None \<Rightarrow> panicG NilMapWrite
     | Some m \<Rightarrow> modG (\<lambda>s. s\<lparr>vgTxData_tx := nset (vgTxData_tx s) blockchainId consInstID
         (m(boo \<mapsto> (case m boo of None \<Rightarrow> [blockEntries] | Some l \<Rightarrow> l @ [blockEntries])))\<rparr>))"

definition resent_entry :: "int \<Rightarrow> int64 \<Rightarrow> blockSnapshot \<Rightarrow> ProposerOPBEntry" where
  "resent_entry blockchainId blockID frag = \<lparr>opb_Booth = booth frag, opb_BlockchainId = blockchainId,
     opb_BlockId = blockID, opb_CombSig = tSig frag, opb_Entries = entries frag, opb_Hash = hash frag\<rparr>"

text \<open>The body of the loop over the range; \<open>None\<close> leaves \<open>startConsensusPhaseA\<close>.\<close>

definition ca_block :: "env \<Rightarrow> cfg \<Rightarrow> int \<Rightarrow> Booth \<Rightarrow> int64 \<Rightarrow> ca_acc \<Rightarrow> (node, ca_acc option) go" where
  "ca_block en c consInstID commitBooth blockID acc =
     bindG (getG (\<lambda>s. nget (cmtSnapshot s) (ServerID c) blockID)) (\<lambda>f. case f of
       None \<Rightarrow> ret (Some acc)
     | Some frag \<Rightarrow>
       (let blockEntries = map snd (rangeEntries en (entries frag));
            (newMemberFlag, new) = collect_new (Indices (booth frag)) (Indices commitBooth) (False, acc_new acc);
            acc' = acc\<lparr>acc_hashes := alput blockID (hash frag) (acc_hashes acc), acc_new := new,
                       acc_resent := (if newMemberFlag then acc_resent acc @ [resent_entry (ServerID c) blockID frag] else acc_resent acc)\<rparr> in
        case Booth_String (booth frag) of
          Inl e \<Rightarrow> ret None
        | Inr boo \<Rightarrow> thenG (append_tx (ServerID c) consInstID boo blockEntries)
            (thenG (nputG vgTxData_boo (vgTxData_boo_update) (ServerID c) consInstID commitBooth)
            (ret (Some acc')))))"

definition init_tx :: "int \<Rightarrow> int \<Rightarrow> (node, unit) go" where
  "init_tx blockchainId consInstID =
     modG (\<lambda>s. s\<lparr>vgTxData_tx := nset (vgTxData_tx s) blockchainId consInstID Map.empty,
                 vgTxData_boo := nmake (vgTxData_boo s) blockchainId\<rparr>)"

definition store_meta :: "int \<Rightarrow> int \<Rightarrow> bytes \<Rightarrow> int64 list \<Rightarrow> (node, unit) go" where
  "store_meta blockchainId consInstID totalHash blockIDRange =
     modG (\<lambda>s. s\<lparr>vgTxMeta_sigs := nmake (vgTxMeta_sigs s) blockchainId,
                 vgTxMeta_hash := nset (vgTxMeta_hash s) blockchainId consInstID totalHash,
                 vgTxMeta_blockIDs := nset (vgTxMeta_blockIDs s) blockchainId consInstID blockIDRange\<rparr>)"

definition entry_CA :: "int \<Rightarrow> Booth \<Rightarrow> int64 list \<Rightarrow> int \<Rightarrow> (int64 \<times> bytes) list \<Rightarrow> bytes \<Rightarrow> ProposerCPAEntry" where
  "entry_CA blockchainId commitBooth ids consInstID hashes totalHash =
     \<lparr>cpa_PrevOPBEntries = [], cpa_Booth = commitBooth, cpa_BlockchainId = blockchainId, cpa_BIDs = ids,
       cpa_ConsInstID = consInstID, cpa_RangeHash = hashes, cpa_TotalHash = totalHash\<rparr>"

definition broadcast_CA :: "env \<Rightarrow> cfg \<Rightarrow> int \<Rightarrow> ProposerCPAEntry \<Rightarrow> ca_acc \<Rightarrow> (node, unit) go" where
  "broadcast_CA en c commitBoothID entryCA acc =
     (if acc_new acc = [] then broadcast_booth en c (CPAEntry entryCA) CPA commitBoothID
      else let newEntryCA = SetPrevOPBEntries entryCA (acc_resent acc) in
        if EvaluateComPossibilityFlag c
        then broadcastToNewBoothWithComCheck en c (CPAEntry entryCA) CPA commitBoothID (acc_new acc) (CPAEntry newEntryCA)
        else broadcastToNewBooth en c (CPAEntry entryCA) CPA commitBoothID (acc_new acc) (CPAEntry newEntryCA))"

text \<open>
  One turn of the loop: either the loop goes on, with the next instance number and the seconds
  waited so far, or it is left.
\<close>

datatype ca_next = Again int int | Quit

definition consensus_step :: "('sc, 'pt, 'pub) kyber \<Rightarrow> env \<Rightarrow> cfg \<Rightarrow> nat \<Rightarrow> int \<Rightarrow> int \<Rightarrow> (node, ca_next) go" where
  "consensus_step ky en c fuel consInstID waited =
     bindG (getBoothID ky en c fuel) (\<lambda>commitBoothID.
     bindG (getG booMgr_b) (\<lambda>b. bindG (idxG b commitBoothID) (\<lambda>commitBooth.
     bindG (nowG en) (\<lambda>_.
     bindG vgrec_GetIDRange (\<lambda>blockIDRange.
       if blockIDRange = [] then
         (if waited + 1 < ConsWaitingSec c then ret (Again consInstID (waited + 1))
          else thenG vgInst_Done (ret Quit))
       else
         thenG (init_tx (ServerID c) consInstID)
         (bindG (whileG blockIDRange (ca_block en c consInstID commitBooth) \<lparr>acc_hashes = [], acc_new = [], acc_resent = []\<rparr>) (\<lambda>r.
           case r of None \<Rightarrow> ret Quit
           | Some acc \<Rightarrow>
             bindG (nowG en) (\<lambda>_.
             case serialization_hashes (acc_hashes acc) of None \<Rightarrow> ret Quit
             | Some serialized \<Rightarrow>
               (let totalHash = getDigest en serialized;
                    entryCA = entry_CA (ServerID c) commitBooth blockIDRange consInstID (acc_hashes acc) totalHash in
                thenG (store_meta (ServerID c) consInstID totalHash blockIDRange)
                (thenG (bindG (nowG en) (\<lambda>_. ret ()))
                (thenG (broadcast_CA en c commitBoothID entryCA acc)
                (ret (Again (consInstID + 1) waited)))))))))))))"

text \<open>\<open>startConsensusPhaseA\<close> for at most \<open>turns\<close> turns; \<open>Blocked\<close> is the loop still running.\<close>

fun consensus_loop :: "('sc, 'pt, 'pub) kyber \<Rightarrow> env \<Rightarrow> cfg \<Rightarrow> nat \<Rightarrow> nat \<Rightarrow> int \<Rightarrow> int \<Rightarrow> (node, unit) go" where
  "consensus_loop ky en c fuel 0 consInstID waited = blockG"
| "consensus_loop ky en c fuel (Suc turns) consInstID waited =
     bindG (consensus_step ky en c fuel consInstID waited) (\<lambda>r. case r of
       Again i w \<Rightarrow> consensus_loop ky en c fuel turns i w | Quit \<Rightarrow> ret ())"

definition startConsensusPhaseA :: "('sc, 'pt, 'pub) kyber \<Rightarrow> env \<Rightarrow> cfg \<Rightarrow> nat \<Rightarrow> nat \<Rightarrow> (node, unit) go" where
  "startConsensusPhaseA ky en c fuel turns = consensus_loop ky en c fuel turns 0 0"

section \<open>Commit votes\<close>

text \<open>
  \<open>asyncHandleCPAReply\<close> reads the votes under one lock, drops it, and writes the extended list
  under another: \<open>cpa_read\<close> and \<open>cpa_write\<close> are the two critical sections. The list of \<open>cpa_read\<close>
  is the value of the slice at the \<open>append\<close>; what another goroutine may do to it afterwards through
  a shared array is the subject of \<open>cpa_sys\<close> below.
\<close>

record cpa_work =
  cw_sigs :: "bytes list"
  cw_hash :: bytes
  cw_booth :: Booth

definition cpa_read :: "env \<Rightarrow> ValidatorCPAReply \<Rightarrow> (node, cpa_work option) go" where
  "cpa_read en m =
     bindG (nowG en) (\<lambda>_.
     bindG (getG (\<lambda>s. (nget (vgTxMeta_hash s) (cpar_BlockchainId m) (cpar_ConsInstID m),
                       case nget (vgTxMeta_sigs s) (cpar_BlockchainId m) (cpar_ConsInstID m) of None \<Rightarrow> [] | Some l \<Rightarrow> l))) (\<lambda>(h, partialSig).
       case h of None \<Rightarrow> ret None | Some fetchedTotalHash \<Rightarrow>
       bindG (getG (\<lambda>s. case nget (vgTxData_boo s) (cpar_BlockchainId m) (cpar_ConsInstID m) of None \<Rightarrow> zero_Booth | Some b \<Rightarrow> b)) (\<lambda>residingBooth.
         if int (length partialSig) = getThreshold (int (length (Indices residingBooth))) then ret None
         else ret (Some \<lparr>cw_sigs = partialSig @ [cpar_ParSig m], cw_hash = fetchedTotalHash, cw_booth = residingBooth\<rparr>))))"

definition cpa_write :: "ValidatorCPAReply \<Rightarrow> cpa_work \<Rightarrow> (node, unit) go" where
  "cpa_write m w = nputG vgTxMeta_sigs vgTxMeta_sigs_update (cpar_BlockchainId m) (cpar_ConsInstID m) (cw_sigs w)"

text \<open>\<open>visit\<close> is the order in which the metre visits its samples.\<close>

definition cpa_finish :: "('sc, 'pt, 'pub) kyber \<Rightarrow> env \<Rightarrow> cfg \<Rightarrow> ((int64 \<times> int64) list \<Rightarrow> (int64 \<times> int64) list)
    \<Rightarrow> ValidatorCPAReply \<Rightarrow> cpa_work \<Rightarrow> (node, unit) go" where
  "cpa_finish ky en c visit m w =
     (let boothSize = int (length (Indices (cw_booth w))); threshold = getThreshold boothSize in
      if int (length (cw_sigs w)) < threshold then ret ()
      else if int (length (cw_sigs w)) > threshold then ret ()
      else bindG (nowG en) (\<lambda>_.
        bindG (fetchKeysByBoothId ky threshold (ServerID c) (ID (cw_booth w)) (cpar_BlockchainId m)) (\<lambda>(pub, pri).
        bindG (nowG en) (\<lambda>_. bindG (nowG en) (\<lambda>_.
        case PenRecovery ky (cw_sigs w) (cw_hash w) pub boothSize of None \<Rightarrow> ret ()
        | Some recoveredSig \<Rightarrow>
          thenG (broadcast_booth en c (CPBEntry \<lparr>cpb_Booth = cw_booth w, cpb_BlockchainId = cpar_BlockchainId m,
              cpb_ConsInstID = cpar_ConsInstID m, cpb_ComSig = recoveredSig, cpb_Hash = cw_hash w\<rparr>) CPB (ID (cw_booth w)))
          (thenG (bindG (nowG en) (\<lambda>_. ret ()))
          (if PerfMetres c then bindG (getG (\<lambda>s. rec_GetLastIdx (vgrec s))) (\<lambda>l. bindG (printConsensusLatency en visit l) (\<lambda>_. ret ()))
           else ret ())))))))"

definition asyncHandleCPAReply :: "('sc, 'pt, 'pub) kyber \<Rightarrow> env \<Rightarrow> cfg \<Rightarrow> ((int64 \<times> int64) list \<Rightarrow> (int64 \<times> int64) list)
    \<Rightarrow> ValidatorCPAReply \<Rightarrow> int \<Rightarrow> (node, unit) go" where
  "asyncHandleCPAReply ky en c visit m sid =
     bindG (cpa_read en m) (\<lambda>r. case r of None \<Rightarrow> ret ()
       | Some w \<Rightarrow> thenG (cpa_write m w) (cpa_finish ky en c visit m w))"

section \<open>The range loop\<close>

lemma collect_new_flag: "fst (collect_new ord cm (fl, new)) \<longleftrightarrow> fl \<or> \<not> set cm \<subseteq> set ord"
  by (induction cm arbitrary: fl new) auto

lemma collect_new_set: "set (snd (collect_new ord cm (fl, new))) = set new \<union> (set cm - set ord)"
  by (induction cm arbitrary: fl new) auto

lemma collect_new_distinct: "distinct new \<Longrightarrow> distinct (snd (collect_new ord cm (fl, new)))"
  by (induction cm arbitrary: fl new) auto

definition data_frame :: "node \<Rightarrow> node \<Rightarrow> bool" where
  "data_frame s s' \<longleftrightarrow> (\<exists>x y. s' = s\<lparr>vgTxData_tx := x, vgTxData_boo := y\<rparr>)"

lemma data_frame_refl [simp]: "data_frame s s"
  unfolding data_frame_def by (intro exI [of _ "vgTxData_tx s"] exI [of _ "vgTxData_boo s"]) simp

lemma data_frame_intro [simp]: "data_frame s (s\<lparr>vgTxData_tx := x\<rparr>)" "data_frame s (s\<lparr>vgTxData_boo := y\<rparr>)"
  unfolding data_frame_def
  by (intro exI [of _ x] exI [of _ "vgTxData_boo s"], simp) (intro exI [of _ "vgTxData_tx s"] exI [of _ y], simp)

lemma data_frame_trans: "data_frame s t \<Longrightarrow> data_frame t u \<Longrightarrow> data_frame s u"
  unfolding data_frame_def by clarsimp blast

lemma data_frame_fields:
  assumes "data_frame s t"
  shows "cmtSnapshot t = cmtSnapshot s" "booMgr_b t = booMgr_b s" "concierge t = concierge s" "broadcastError t = broadcastError s"
    "sent t = sent s" "clock_reads t = clock_reads s" "vgTxMeta_sigs t = vgTxMeta_sigs s" "vgTxMeta_hash t = vgTxMeta_hash s"
    "vgTxMeta_blockIDs t = vgTxMeta_blockIDs s" "vgrec t = vgrec s" "vgInst t = vgInst s" "ordSnapshot t = ordSnapshot s"
    "files t = files s" "valiConsJobStack t = valiConsJobStack s" "same_links s t"
  using assms unfolding data_frame_def by (auto simp: same_links_def)

text \<open>What the loop knows about the range: the blocks found, and which of them lack a member.\<close>

definition lacking :: "Booth \<Rightarrow> blockSnapshot \<Rightarrow> bool" where
  "lacking commitBooth frag \<longleftrightarrow> \<not> set (Indices commitBooth) \<subseteq> set (Indices (booth frag))"

definition found_blocks :: "cfg \<Rightarrow> node \<Rightarrow> int64 list \<Rightarrow> (int64 \<times> blockSnapshot) list" where
  "found_blocks c s ids = concat (map (\<lambda>i. case nget (cmtSnapshot s) (ServerID c) i of None \<Rightarrow> [] | Some f \<Rightarrow> [(i, f)]) ids)"

definition acc_ok :: "cfg \<Rightarrow> Booth \<Rightarrow> (int64 \<times> blockSnapshot) list \<Rightarrow> ca_acc \<Rightarrow> ca_acc \<Rightarrow> bool" where
  "acc_ok c commitBooth fs acc acc' \<longleftrightarrow>
     acc_hashes acc' = fold (\<lambda>(i, f). alput i (hash f)) fs (acc_hashes acc)
   \<and> set (acc_new acc') = set (acc_new acc) \<union> (\<Union>(i, f) \<in> set fs. set (Indices commitBooth) - set (Indices (booth f)))
   \<and> (distinct (acc_new acc) \<longrightarrow> distinct (acc_new acc'))
   \<and> acc_resent acc' = acc_resent acc @ map (\<lambda>(i, f). resent_entry (ServerID c) i f) (filter (\<lambda>(i, f). lacking commitBooth f) fs)"

lemma append_tx_run:
  "append_tx b i boo es s = (case nget (vgTxData_tx s) b i of None \<Rightarrow> Panicked NilMapWrite s
     | Some m \<Rightarrow> Done () (s\<lparr>vgTxData_tx := nset (vgTxData_tx s) b i (m(boo \<mapsto> (case m boo of None \<Rightarrow> [es] | Some l \<Rightarrow> l @ [es])))\<rparr>))"
  by (simp add: append_tx_def split: option.split)

lemma ca_block_run:
  assumes "ca_block en c inst cb i acc s = Done r t"
  shows "data_frame s t \<and> (\<forall>acc'. r = Some acc' \<longrightarrow> acc_ok c cb (found_blocks c s [i]) acc acc')"
proof (cases "nget (cmtSnapshot s) (ServerID c) i")
  case None
  then show ?thesis using assms by (auto simp: ca_block_def found_blocks_def acc_ok_def)
next
  case (Some f)
  let ?cn = "collect_new (Indices (booth f)) (Indices cb) (False, acc_new acc)"
  let ?acc = "acc\<lparr>acc_hashes := alput i (hash f) (acc_hashes acc), acc_new := snd ?cn,
     acc_resent := (if fst ?cn then acc_resent acc @ [resent_entry (ServerID c) i f] else acc_resent acc)\<rparr>"
  show ?thesis
  proof (cases "Booth_String (booth f)")
    case (Inl e)
    then show ?thesis using assms Some by (simp add: ca_block_def Let_def split_beta)
  next
    case (Inr boo)
    have "thenG (append_tx (ServerID c) inst boo (map snd (rangeEntries en (entries f))))
        (thenG (nputG vgTxData_boo vgTxData_boo_update (ServerID c) inst cb) (ret (Some ?acc))) s = Done r t"
      using assms Some Inr by (simp add: ca_block_def Let_def split_beta)
    then obtain u where u: "append_tx (ServerID c) inst boo (map snd (rangeEntries en (entries f))) s = Done () u"
        and v: "nputG vgTxData_boo vgTxData_boo_update (ServerID c) inst cb u = Done () t" "r = Some ?acc"
      by (force dest: thenG_DoneD)
    have "data_frame s u" using u by (auto simp: append_tx_run split: option.splits)
    note u = u this
    have "data_frame u t" using v(1) by (auto simp: nputG_app split: if_splits)
    moreover have "acc_ok c cb [(i, f)] acc ?acc"
      by (simp add: acc_ok_def collect_new_set collect_new_flag collect_new_distinct lacking_def)
    ultimately show ?thesis using Some u(2) v(2) by (auto simp: found_blocks_def intro: data_frame_trans)
  qed
qed

lemma acc_ok_trans: "acc_ok c cb xs a b \<Longrightarrow> acc_ok c cb ys b d \<Longrightarrow> acc_ok c cb (xs @ ys) a d"
  by (auto simp: acc_ok_def)

lemma found_blocks_Cons: "found_blocks c s (i # ids) = found_blocks c s [i] @ found_blocks c s ids"
  by (simp add: found_blocks_def)

lemma found_blocks_frame: "data_frame s t \<Longrightarrow> found_blocks c t ids = found_blocks c s ids"
  by (simp add: found_blocks_def data_frame_fields)

lemma range_loop_run:
  assumes "whileG ids (ca_block en c inst cb) acc s = Done r t"
  shows "data_frame s t \<and> (\<forall>acc'. r = Some acc' \<longrightarrow> acc_ok c cb (found_blocks c s ids) acc acc')"
  using assms
proof (induction ids arbitrary: acc s)
  case Nil
  then show ?case by (auto simp: found_blocks_def acc_ok_def)
next
  case (Cons i ids)
  obtain r1 u where b: "ca_block en c inst cb i acc s = Done r1 u"
    using Cons.prems by (cases "ca_block en c inst cb i acc s") auto
  note one = ca_block_run [OF b]
  show ?case
  proof (cases r1)
    case None
    then show ?thesis using Cons.prems b one by auto
  next
    case (Some a)
    then have "whileG ids (ca_block en c inst cb) a u = Done r t" using Cons.prems b by simp
    from Cons.IH [OF this] one Some show ?thesis
      unfolding found_blocks_Cons [of c s i ids] by (auto simp: found_blocks_frame intro: data_frame_trans acc_ok_trans)
  qed
qed

lemma range_loop_total:
  assumes "\<forall>(i, f) \<in> set (found_blocks c s ids). Indices (booth f) \<noteq> []"
    and "nget (vgTxData_tx s) (ServerID c) inst \<noteq> None" "vgTxData_boo s (ServerID c) \<noteq> None"
  shows "\<exists>acc' t. whileG ids (ca_block en c inst cb) acc s = Done (Some acc') t"
  using assms
proof (induction ids arbitrary: acc s)
  case (Cons i ids)
  have "\<exists>a u. ca_block en c inst cb i acc s = Done (Some a) u \<and> nget (vgTxData_tx u) (ServerID c) inst \<noteq> None \<and> vgTxData_boo u (ServerID c) \<noteq> None"
    using Cons.prems
    by (cases "nget (cmtSnapshot s) (ServerID c) i")
      (auto simp: ca_block_def found_blocks_def Let_def split_beta append_tx_run nputG_app Booth_String_def nset_outer [unfolded not_None_eq])
  then obtain a u where a: "ca_block en c inst cb i acc s = Done (Some a) u" "nget (vgTxData_tx u) (ServerID c) inst \<noteq> None" "vgTxData_boo u (ServerID c) \<noteq> None"
    by blast
  have "\<forall>(i, f) \<in> set (found_blocks c u ids). Indices (booth f) \<noteq> []"
    using Cons.prems(1) found_blocks_frame [of s u c ids] ca_block_run [OF a(1)] by (auto simp: found_blocks_Cons [of c s i ids])
  from Cons.IH [OF this a(2,3)] a(1) show ?case by simp
qed simp

text \<open>The loop records the booth of the commit as soon as it finds a block.\<close>

lemma ca_block_booth:
  assumes "ca_block en c inst cb i acc s = Done (Some a) t"
  shows "nget (vgTxData_boo t) (ServerID c) inst = (if found_blocks c s [i] = [] then nget (vgTxData_boo s) (ServerID c) inst else Some cb)"
proof (cases "nget (cmtSnapshot s) (ServerID c) i")
  case None
  then show ?thesis using assms by (auto simp: ca_block_def found_blocks_def)
next
  case (Some f)
  obtain boo where "Booth_String (booth f) = Inr boo"
    using assms Some by (cases "Booth_String (booth f)") (auto simp: ca_block_def Let_def split_beta)
  then obtain u where "nputG vgTxData_boo vgTxData_boo_update (ServerID c) inst cb u = Done () t"
    using assms Some by (fastforce simp: ca_block_def Let_def split_beta dest!: thenG_DoneD)
  then show ?thesis using Some by (auto simp: nputG_app found_blocks_def split: if_splits)
qed

lemma range_loop_booth:
  assumes "whileG ids (ca_block en c inst cb) acc s = Done (Some acc') t"
  shows "nget (vgTxData_boo t) (ServerID c) inst = (if found_blocks c s ids = [] then nget (vgTxData_boo s) (ServerID c) inst else Some cb)"
  using assms
proof (induction ids arbitrary: acc s)
  case Nil
  then show ?case by (simp add: found_blocks_def)
next
  case (Cons i ids)
  obtain a u where b: "ca_block en c inst cb i acc s = Done (Some a) u" "whileG ids (ca_block en c inst cb) a u = Done (Some acc') t"
    using Cons.prems by (cases "ca_block en c inst cb i acc s") (auto split: option.splits)
  have "found_blocks c u ids = found_blocks c s ids" using ca_block_run [OF b(1)] by (simp add: found_blocks_frame)
  then show ?case using Cons.IH [OF b(2)] ca_block_booth [OF b(1)] by (simp add: found_blocks_Cons [of c s i ids])
qed

section \<open>A commit instance\<close>

definition init_acc :: ca_acc where
  "init_acc = \<lparr>acc_hashes = [], acc_new = [], acc_resent = []\<rparr>"

text \<open>The state from which the loop over the range starts, once the booth is chosen.\<close>

definition range_taken :: "cfg \<Rightarrow> int \<Rightarrow> node \<Rightarrow> node" where
  "range_taken c inst s = s\<lparr>clock_reads := Suc (clock_reads s), vgrec := (vgrec s)\<lparr>lastIdx := length (blockIDs (vgrec s))\<rparr>,
     vgTxData_tx := nset (vgTxData_tx s) (ServerID c) inst Map.empty, vgTxData_boo := nmake (vgTxData_boo s) (ServerID c)\<rparr>"

definition pending_ids :: "node \<Rightarrow> int64 list" where
  "pending_ids s = drop (lastIdx (vgrec s)) (blockIDs (vgrec s))"

lemma nmake_outer [simp]: "nmake m a a \<noteq> None"
  by (auto simp: nmake_def split: option.splits)

lemma vgrec_GetIDRange_run:
  "vgrec_GetIDRange s = Done (pending_ids s) (s\<lparr>vgrec := (vgrec s)\<lparr>lastIdx := length (blockIDs (vgrec s))\<rparr>\<rparr>)"
  by (simp add: vgrec_GetIDRange_def rec_GetIDRange_eq pending_ids_def)

lemma consensus_step_range:
  assumes "getBoothID ky en c fuel s = Done cb s1" "0 \<le> cb" "cb < int (length (booMgr_b s1))" "pending_ids s1 \<noteq> []"
  shows "consensus_step ky en c fuel inst waited s =
    bindG (whileG (pending_ids s1) (ca_block en c inst (booMgr_b s1 ! nat cb)) init_acc) (\<lambda>r.
      case r of None \<Rightarrow> ret Quit
      | Some acc \<Rightarrow> bindG (nowG en) (\<lambda>_. case serialization_hashes (acc_hashes acc) of None \<Rightarrow> ret Quit
        | Some ser \<Rightarrow> thenG (store_meta (ServerID c) inst (getDigest en ser) (pending_ids s1))
            (thenG (bindG (nowG en) (\<lambda>_. ret ()))
            (thenG (broadcast_CA en c cb (entry_CA (ServerID c) (booMgr_b s1 ! nat cb) (pending_ids s1) inst (acc_hashes acc) (getDigest en ser)) acc)
            (ret (Again (inst + 1) waited)))))) (range_taken c inst s1)"
proof -
  have g: "vgrec_GetIDRange (s1\<lparr>clock_reads := Suc (clock_reads s1)\<rparr>)
      = Done (pending_ids s1) (s1\<lparr>clock_reads := Suc (clock_reads s1), vgrec := (vgrec s1)\<lparr>lastIdx := length (blockIDs (vgrec s1))\<rparr>\<rparr>)"
    by (simp add: vgrec_GetIDRange_run pending_ids_def)
  have i: "init_tx (ServerID c) inst (s1\<lparr>clock_reads := Suc (clock_reads s1), vgrec := (vgrec s1)\<lparr>lastIdx := length (blockIDs (vgrec s1))\<rparr>\<rparr>)
      = Done () (range_taken c inst s1)"
    by (simp add: init_tx_def range_taken_def)
  show ?thesis
    using assms i unfolding consensus_step_def Let_def init_acc_def by (simp add: g)
qed

text \<open>The state in which a turn sends its entry, from the one after the loop over the range.\<close>

definition meta_stored :: "cfg \<Rightarrow> int \<Rightarrow> int64 list \<Rightarrow> bytes \<Rightarrow> node \<Rightarrow> node" where
  "meta_stored c inst ids h t = t\<lparr>vgTxMeta_sigs := nmake (vgTxMeta_sigs t) (ServerID c), vgTxMeta_hash := nset (vgTxMeta_hash t) (ServerID c) inst h,
     vgTxMeta_blockIDs := nset (vgTxMeta_blockIDs t) (ServerID c) inst ids, clock_reads := Suc (Suc (clock_reads t))\<rparr>"

lemma consensus_turn:
  assumes "getBoothID ky en c fuel s = Done cb s1" "0 \<le> cb" "cb < int (length (booMgr_b s1))" "pending_ids s1 \<noteq> []"
    and "\<forall>(i, f) \<in> set (found_blocks c s1 (pending_ids s1)). Indices (booth f) \<noteq> []"
  shows "\<exists>acc ser t. acc_ok c (booMgr_b s1 ! nat cb) (found_blocks c s1 (pending_ids s1)) init_acc acc
    \<and> serialization_hashes (acc_hashes acc) = Some ser
    \<and> consensus_step ky en c fuel inst waited s =
        thenG (broadcast_CA en c cb (entry_CA (ServerID c) (booMgr_b s1 ! nat cb) (pending_ids s1) inst (acc_hashes acc) (getDigest en ser)) acc)
          (ret (Again (inst + 1) waited)) (meta_stored c inst (pending_ids s1) (getDigest en ser) t)
    \<and> data_frame (range_taken c inst s1) t
    \<and> (found_blocks c s1 (pending_ids s1) \<noteq> [] \<longrightarrow> nget (vgTxData_boo t) (ServerID c) inst = Some (booMgr_b s1 ! nat cb))"
proof -
  let ?cb = "booMgr_b s1 ! nat cb" and ?ids = "pending_ids s1" and ?s = "range_taken c inst s1"
  have fb: "found_blocks c ?s ?ids = found_blocks c s1 ?ids" by (simp add: found_blocks_def range_taken_def)
  have "nget (vgTxData_tx ?s) (ServerID c) inst \<noteq> None" "vgTxData_boo ?s (ServerID c) \<noteq> None"
    by (simp_all add: range_taken_def del: not_None_eq)
  then obtain acc t where run: "whileG ?ids (ca_block en c inst ?cb) init_acc ?s = Done (Some acc) t"
    using range_loop_total [of c ?s ?ids inst en ?cb init_acc] assms(5) fb by auto
  have t: "data_frame ?s t" "acc_ok c ?cb (found_blocks c s1 ?ids) init_acc acc" using range_loop_run [OF run] fb by auto
  obtain ser where ser: "serialization_hashes (acc_hashes acc) = Some ser" by (simp add: serialization_hashes_def)
  have "consensus_step ky en c fuel inst waited s =
        thenG (broadcast_CA en c cb (entry_CA (ServerID c) ?cb ?ids inst (acc_hashes acc) (getDigest en ser)) acc) (ret (Again (inst + 1) waited))
          (meta_stored c inst ?ids (getDigest en ser) t)"
    unfolding consensus_step_range [OF assms(1-4)] using run ser by (simp add: store_meta_def meta_stored_def)
  then show ?thesis using t ser range_loop_booth [OF run] fb by (intro exI [of _ acc] exI [of _ ser] exI [of _ t]) simp
qed

text \<open>C7: A turn of the consensus loop with ordered blocks pending commits exactly these: when the blocks it finds
  have non-empty booths, it stores, under the instance number, the ids of the range and the digest of
  the hashes it found, and then sends, from that state, the commit entry with these ids, hashes and digest; the turn
  ends with the next instance number, and the time waited so far is not reset.\<close>

theorem consensus_step_commits:
  assumes "getBoothID ky en c fuel s = Done cb s1" "0 \<le> cb" "cb < int (length (booMgr_b s1))" "pending_ids s1 \<noteq> []"
    and "\<forall>(i, f) \<in> set (found_blocks c s1 (pending_ids s1)). Indices (booth f) \<noteq> []"
  shows "\<exists>acc ser s2. acc_ok c (booMgr_b s1 ! nat cb) (found_blocks c s1 (pending_ids s1)) init_acc acc
    \<and> serialization_hashes (acc_hashes acc) = Some ser
    \<and> consensus_step ky en c fuel inst waited s =
        thenG (broadcast_CA en c cb (entry_CA (ServerID c) (booMgr_b s1 ! nat cb) (pending_ids s1) inst (acc_hashes acc) (getDigest en ser)) acc)
          (ret (Again (inst + 1) waited)) s2
    \<and> nget (vgTxMeta_hash s2) (ServerID c) inst = Some (getDigest en ser)
    \<and> nget (vgTxMeta_blockIDs s2) (ServerID c) inst = Some (pending_ids s1)
    \<and> pending_ids s2 = [] \<and> sent s2 = sent s1 \<and> vgTxMeta_sigs s2 (ServerID c) \<noteq> None"
proof -
  obtain acc ser t where R: "acc_ok c (booMgr_b s1 ! nat cb) (found_blocks c s1 (pending_ids s1)) init_acc acc" "serialization_hashes (acc_hashes acc) = Some ser"
    and step: "consensus_step ky en c fuel inst waited s =
        thenG (broadcast_CA en c cb (entry_CA (ServerID c) (booMgr_b s1 ! nat cb) (pending_ids s1) inst (acc_hashes acc) (getDigest en ser)) acc)
          (ret (Again (inst + 1) waited)) (meta_stored c inst (pending_ids s1) (getDigest en ser) t)"
    and fr: "data_frame (range_taken c inst s1) t"
    using consensus_turn [OF assms] by blast
  note F = data_frame_fields [OF fr]
  show ?thesis
    by (rule exI [of _ acc], rule exI [of _ ser], rule exI [of _ "meta_stored c inst (pending_ids s1) (getDigest en ser) t"])
      (use R step in \<open>simp add: meta_stored_def F range_taken_def pending_ids_def del: not_None_eq\<close>)
qed

text \<open>What a member of the booth gets: the entry, with the certificates of the range when it is new to one of its blocks.\<close>

definition entry_for :: "ProposerCPAEntry \<Rightarrow> ca_acc \<Rightarrow> int \<Rightarrow> ProposerCPAEntry" where
  "entry_for e acc i = (if i \<in> set (acc_new acc) then SetPrevOPBEntries e (acc_resent acc) else e)"

lemma broadcast_CA_sends:
  assumes "distinct (acc_new acc)" "audible en c s (Indices (booMgr_b s ! nat b))"
    and b: "\<not> broadcastError s" "0 \<le> b" "b < int (length (booMgr_b s))" "members_in_range c s CPA (Indices (booMgr_b s ! nat b))"
  shows "\<exists>u W. broadcast_CA en c b e acc s = Done () u
    \<and> log_step en W (map (\<lambda>i. (Concierge CPA i, CPAEntry (entry_for e acc i))) (members_to_send c s CPA (Indices (booMgr_b s ! nat b)))) s u"
proof (cases "acc_new acc = []")
  case True
  then show ?thesis using broadcast_booth_sends [OF b assms(2), of "CPAEntry e"]
    by (auto simp: broadcast_CA_def entry_for_def)
next
  case False
  let ?new = "SetPrevOPBEntries e (acc_resent acc)"
  have one: "regular_or_new CPA (CPAEntry e) (acc_new acc) (CPAEntry ?new) = (\<lambda>i. (Concierge CPA i, CPAEntry (entry_for e acc i)))"
    by (simp add: regular_or_new_def entry_for_def fun_eq_iff)
  show ?thesis
  proof (cases "EvaluateComPossibilityFlag c")
    case True
    then show ?thesis using broadcastToNewBoothWithComCheck_loop [OF b(1-3) assms(1) b(4), of en "CPAEntry e" "CPAEntry ?new"] one False assms(2)
      by (auto simp: broadcast_CA_def audible_def)
  next
    case direct: False
    then show ?thesis using broadcastToNewBooth_loop [OF b(1-3) assms(1) b(4), of en "CPAEntry e" "CPAEntry ?new"] one False
      by (auto simp: broadcast_CA_def)
  qed
qed

text \<open>C16: Dissemination: after the loop over the range, where every member of the commit booth hears the proposer or
  the path check is off, the commit entry reaches every registered member of the commit booth exactly once, in booth order, and for every block of the range that a member did not see
  when it was ordered, the entry this member gets carries the block's ordering certificate, entries and hash.\<close>

theorem commit_dissemination:
  assumes run: "whileG ids (ca_block en c inst (booMgr_b s ! nat b)) init_acc s = Done (Some acc) t"
    and flags: "\<not> broadcastError s" "audible en c s (Indices (booMgr_b s ! nat b))"
    and b: "0 \<le> b" "b < int (length (booMgr_b s))" "members_in_range c s CPA (Indices (booMgr_b s ! nat b))"
  shows "\<exists>u g. broadcast_CA en c b entryCA acc t = Done () u
    \<and> outbox u = outbox t @ map (\<lambda>i. (Concierge CPA i, CPAEntry (g i))) (members_to_send c s CPA (Indices (booMgr_b s ! nat b)))
    \<and> (\<forall>i. g i = entryCA \<or> g i = SetPrevOPBEntries entryCA (acc_resent acc))
    \<and> (\<forall>i \<in> set (Indices (booMgr_b s ! nat b)). \<forall>j \<in> set ids. \<forall>f. nget (cmtSnapshot s) (ServerID c) j = Some f
         \<longrightarrow> i \<notin> set (Indices (booth f)) \<longrightarrow> resent_entry (ServerID c) j f \<in> set (cpa_PrevOPBEntries (g i)))"
proof -
  let ?cb = "booMgr_b s ! nat b"
  let ?g = "entry_for entryCA acc"
  have fr: "data_frame s t" and ok: "acc_ok c ?cb (found_blocks c s ids) init_acc acc"
    using range_loop_run [OF run] by auto
  note F = data_frame_fields [OF fr]
  have b': "\<not> broadcastError t" "0 \<le> b" "b < int (length (booMgr_b t))" "members_in_range c t CPA (Indices (booMgr_b t ! nat b))"
    using flags b F by (simp_all add: members_in_range_def)
  have mem: "members_to_send c t CPA (Indices ?cb) = members_to_send c s CPA (Indices ?cb)" by (simp add: members_to_send_def F)
  have "distinct (acc_new acc)" using ok by (simp add: acc_ok_def init_acc_def)
  moreover have "audible en c t (Indices (booMgr_b t ! nat b))" using flags(2) audible_links [OF F(15)] by (simp add: F(2))
  ultimately have "\<exists>u W. broadcast_CA en c b entryCA acc t = Done () u
    \<and> log_step en W (map (\<lambda>i. (Concierge CPA i, CPAEntry (?g i))) (members_to_send c t CPA (Indices (booMgr_b t ! nat b)))) t u"
    using b' by (rule broadcast_CA_sends)
  then
  have "\<exists>u. broadcast_CA en c b entryCA acc t = Done () u
      \<and> outbox u = outbox t @ map (\<lambda>i. (Concierge CPA i, CPAEntry (?g i))) (members_to_send c s CPA (Indices ?cb))"
    unfolding F(2) mem using log_step_outbox by blast
  moreover have "resent_entry (ServerID c) j f \<in> set (cpa_PrevOPBEntries (?g i))"
    if "i \<in> set (Indices ?cb)" "j \<in> set ids" "nget (cmtSnapshot s) (ServerID c) j = Some f" "i \<notin> set (Indices (booth f))" for i j f
  proof -
    have "(j, f) \<in> set (found_blocks c s ids)" using that(2,3) by (force simp: found_blocks_def)
    moreover have "lacking ?cb f" using that(1,4) by (auto simp: lacking_def)
    ultimately show ?thesis using ok that by (force simp: acc_ok_def SetPrevOPBEntries_def init_acc_def entry_for_def)
  qed
  ultimately show ?thesis by (elim exE, rule_tac x = u in exI, intro exI [of _ ?g]) (auto simp: entry_for_def)
qed

section \<open>Waiting for blocks\<close>

lemma consensus_step_idle:
  assumes "getBoothID ky en c fuel s = Done cb s1" "0 \<le> cb" "cb < int (length (booMgr_b s1))" "pending_ids s1 = []"
  shows "consensus_step ky en c fuel inst waited s =
    (if waited + 1 < ConsWaitingSec c then ret (Again inst (waited + 1)) else thenG vgInst_Done (ret Quit))
      (s1\<lparr>clock_reads := Suc (clock_reads s1), vgrec := (vgrec s1)\<lparr>lastIdx := length (blockIDs (vgrec s1))\<rparr>\<rparr>)"
proof -
  have "vgrec_GetIDRange (s1\<lparr>clock_reads := Suc (clock_reads s1)\<rparr>)
      = Done [] (s1\<lparr>clock_reads := Suc (clock_reads s1), vgrec := (vgrec s1)\<lparr>lastIdx := length (blockIDs (vgrec s1))\<rparr>\<rparr>)"
    using assms(4) by (simp add: vgrec_GetIDRange_run pending_ids_def)
  then show ?thesis using assms(1-3) unfolding consensus_step_def Let_def by simp
qed

lemma pres_getBoothID:
  assumes "\<And>s n. J s \<Longrightarrow> J (s\<lparr>clock_reads := n\<rparr>)" "\<And>s f. J s \<Longrightarrow> J (s\<lparr>files := f\<rparr>)"
    and "\<And>s b i. J s \<Longrightarrow> J (s\<lparr>booMgr_b := b, booMgr_index := i\<rparr>)"
  shows "pres J (getBoothID ky en c fuel)"
proof (induction fuel)
  case (Suc fuel)
  have ce: "pres J (checkExactMatchInBooMgr ky en c p)" for p
    unfolding checkExactMatchInBooMgr_def generateBoothKey_def Let_def by (intro pres_intros) (erule assms)+
  show ?case unfolding getBoothID.simps getNowTimeKey_def
    by (intro pres_intros pres_nowG Suc ce) (erule assms)
qed (simp only: getBoothID.simps pres_blockG)

text \<open>C29: A proposer whose pending blocks have all been handed out, and for which nothing is ordered any more
  while vehicles participate, leaves the consensus loop after exactly the idle turns that \<open>ConsWaitingSec\<close> leaves it:
  \<open>ConsWaitingSec - waited\<close>, and one when nothing is left. After fewer turns the loop is still running and the main wait group
  untouched; after that number it has returned, and the wait group was released once. No message is sent in either case.\<close>

theorem idle_proposer_terminates:
  assumes "world_ok en c s" "pending_ids s = []" "0 < vgInst s"
  shows "if int turns < max 1 (ConsWaitingSec c - waited)
    then \<exists>t. consensus_loop ky en c (Suc fuel) turns inst waited s = Blocked t \<and> vgInst t = vgInst s \<and> sent t = sent s
    else \<exists>t. consensus_loop ky en c (Suc fuel) turns inst waited s = Done () t \<and> vgInst t = vgInst s - 1 \<and> sent t = sent s"
  using assms
proof (induction turns arbitrary: s waited)
  case (Suc turns)
  obtain cb s1 where b: "getBoothID ky en c (Suc fuel) s = Done cb s1" "0 \<le> cb" "cb < int (length (booMgr_b s1))" and w: "world_ok en c s1"
    using getBoothID_world [OF Suc.prems(1)] by blast
  have "pres (\<lambda>t. vgrec t = vgrec s \<and> vgInst t = vgInst s \<and> sent t = sent s) (getBoothID ky en c (Suc fuel))"
    by (rule pres_getBoothID) simp_all
  then have "(\<lambda>t. vgrec t = vgrec s \<and> vgInst t = vgInst s \<and> sent t = sent s) (final (getBoothID ky en c (Suc fuel) s))"
    by (rule presD) simp
  then have s1: "vgrec s1 = vgrec s" "vgInst s1 = vgInst s" "sent s1 = sent s" unfolding b(1) by simp_all
  let ?t = "s1\<lparr>clock_reads := Suc (clock_reads s1), vgrec := (vgrec s1)\<lparr>lastIdx := length (blockIDs (vgrec s1))\<rparr>\<rparr>"
  have "pending_ids s1 = []" using Suc.prems(2) s1 by (simp add: pending_ids_def)
  note step = consensus_step_idle [OF b this, of inst waited]
  show ?case
  proof (cases "waited + 1 < ConsWaitingSec c")
    case False
    then show ?thesis using step s1 Suc.prems(3) by (simp add: vgInst_Done_def del: getBoothID.simps)
  next
    case True
    then have go: "consensus_step ky en c (Suc fuel) inst waited s = Done (Again inst (waited + 1)) ?t"
      using step by simp
    have left: "int (Suc turns) < max 1 (ConsWaitingSec c - waited) \<longleftrightarrow> int turns < max 1 (ConsWaitingSec c - (waited + 1))"
      using True by auto
    have "world_ok en c ?t" by (rule world_ok_frame [OF _ w]) (simp add: world_frame_def)
    moreover have "pending_ids ?t = []" by (simp add: pending_ids_def)
    moreover have "0 < vgInst ?t" using Suc.prems(3) s1 by simp
    ultimately have "if int turns < max 1 (ConsWaitingSec c - (waited + 1))
      then \<exists>t. consensus_loop ky en c (Suc fuel) turns inst (waited + 1) ?t = Blocked t \<and> vgInst t = vgInst ?t \<and> sent t = sent ?t
      else \<exists>t. consensus_loop ky en c (Suc fuel) turns inst (waited + 1) ?t = Done () t \<and> vgInst t = vgInst ?t - 1 \<and> sent t = sent ?t"
      by (rule Suc.IH)
    moreover have "consensus_loop ky en c (Suc fuel) (Suc turns) inst waited s = consensus_loop ky en c (Suc fuel) turns inst (waited + 1) ?t"
      unfolding consensus_loop.simps bindG_Done [where m = "consensus_step ky en c (Suc fuel) inst waited", OF go] by simp
    moreover have "vgInst ?t = vgInst s" "sent ?t = sent s" using s1 by simp_all
    ultimately show ?thesis unfolding left by metis
  qed
qed simp

section \<open>Commit votes, one reply after the other\<close>

definition cpa_quorum :: "cpa_work \<Rightarrow> bool" where
  "cpa_quorum w \<longleftrightarrow> int (length (cw_sigs w)) = getThreshold (int (length (Indices (cw_booth w))))"

text \<open>Both critical sections in a row, and whether this reply goes on to the recovery.\<close>

definition cpa_vote :: "env \<Rightarrow> ValidatorCPAReply \<Rightarrow> (node, cpa_work option) go" where
  "cpa_vote en m = bindG (cpa_read en m) (\<lambda>r. case r of None \<Rightarrow> ret None
     | Some w \<Rightarrow> thenG (cpa_write m w) (ret (if cpa_quorum w then Some w else None)))"

lemma asyncHandleCPAReply_vote:
  "asyncHandleCPAReply ky en c visit m sid = bindG (cpa_vote en m) (\<lambda>r. case r of None \<Rightarrow> ret () | Some w \<Rightarrow> cpa_finish ky en c visit m w)"
proof
  fix s
  show "asyncHandleCPAReply ky en c visit m sid s = bindG (cpa_vote en m) (\<lambda>r. case r of None \<Rightarrow> ret () | Some w \<Rightarrow> cpa_finish ky en c visit m w) s"
  proof (cases "cpa_read en m s")
    case (Done r t)
    show ?thesis
    proof (cases r)
      case (Some w)
      have skip: "cpa_finish ky en c visit m w = ret ()" if "\<not> cpa_quorum w"
        using that by (auto simp: cpa_finish_def cpa_quorum_def Let_def)
      then show ?thesis using Done Some by (cases "cpa_write m w t") (auto simp: asyncHandleCPAReply_def cpa_vote_def)
    qed (use Done in \<open>simp add: asyncHandleCPAReply_def cpa_vote_def\<close>)
  qed (simp_all add: asyncHandleCPAReply_def cpa_vote_def)
qed

definition cpa_votes :: "int \<Rightarrow> int \<Rightarrow> node \<Rightarrow> bytes list" where
  "cpa_votes b i s = (case nget (vgTxMeta_sigs s) b i of None \<Rightarrow> [] | Some l \<Rightarrow> l)"

definition cpa_open :: "int \<Rightarrow> int \<Rightarrow> bytes \<Rightarrow> Booth \<Rightarrow> node \<Rightarrow> bool" where
  "cpa_open b i h boo s \<longleftrightarrow> nget (vgTxMeta_hash s) b i = Some h \<and> vgTxMeta_sigs s b \<noteq> None \<and> nget (vgTxData_boo s) b i = Some boo"

definition cpa_reply :: "int \<Rightarrow> int \<Rightarrow> bytes \<Rightarrow> ValidatorCPAReply" where
  "cpa_reply b i x = \<lparr>cpar_BlockchainId = b, cpar_ConsInstID = i, cpar_ParSig = x\<rparr>"

definition booth_quorum :: "Booth \<Rightarrow> nat" where
  "booth_quorum boo = 2 * (length (Indices boo) div 3)"

lemma getThreshold_booth: "getThreshold (int (length (Indices boo))) = int (booth_quorum boo)"
  unfolding booth_quorum_def by (rule getThreshold_nat)

lemma int_Suc_eq: "1 + int n = int q \<longleftrightarrow> Suc n = q"
  by auto

lemma cpa_read_run:
  assumes "cpa_open b i h boo s"
  shows "cpa_read en (cpa_reply b i x) s = Done (if length (cpa_votes b i s) = booth_quorum boo then None
    else Some \<lparr>cw_sigs = cpa_votes b i s @ [x], cw_hash = h, cw_booth = boo\<rparr>) (look s)"
  using assms by (simp add: cpa_read_def cpa_open_def cpa_votes_def cpa_reply_def look_def getThreshold_booth del: getThreshold_nat)

lemma cpa_write_run:
  assumes "cpa_open b i h boo s"
  shows "cpa_write (cpa_reply b i x) w s = Done () (s\<lparr>vgTxMeta_sigs := nset (vgTxMeta_sigs s) b i (cw_sigs w)\<rparr>)"
  using assms by (simp add: cpa_write_def cpa_open_def cpa_reply_def nputG_app)

lemma cpa_open_look: "cpa_open b i h boo s \<Longrightarrow> cpa_open b i h boo (look s)"
  by (simp add: cpa_open_def look_def)

lemma cpa_open_write: "cpa_open b i h boo s \<Longrightarrow> cpa_open b i h boo (s\<lparr>vgTxMeta_sigs := nset (vgTxMeta_sigs s) b i l\<rparr>)"
  by (simp add: cpa_open_def del: not_None_eq)

lemma cpa_votes_simps [simp]:
  "cpa_votes b i (look s) = cpa_votes b i s" "cpa_votes b i (s\<lparr>vgTxMeta_sigs := nset m b i l\<rparr>) = l"
  by (simp_all add: cpa_votes_def look_def)

definition cpa_step :: "env \<Rightarrow> int \<Rightarrow> int \<Rightarrow> bytes \<Rightarrow> node \<Rightarrow> bytes list option \<times> node" where
  "cpa_step en b i x s = (case cpa_vote en (cpa_reply b i x) s of
     Done r s' \<Rightarrow> (map_option cw_sigs r, s') | Panicked p s' \<Rightarrow> (None, s') | Blocked s' \<Rightarrow> (None, s'))"

lemma cpa_vote_run:
  assumes "cpa_open b i h boo s"
  shows "cpa_vote en (cpa_reply b i x) s =
    (let l = cpa_votes b i s in
     if length l = booth_quorum boo then Done None (look s)
     else Done (if Suc (length l) = booth_quorum boo then Some \<lparr>cw_sigs = l @ [x], cw_hash = h, cw_booth = boo\<rparr> else None)
       ((look s)\<lparr>vgTxMeta_sigs := nset (vgTxMeta_sigs (look s)) b i (l @ [x])\<rparr>))"
  by (simp add: cpa_vote_def cpa_read_run [OF assms] cpa_write_run [OF cpa_open_look [OF assms]] cpa_quorum_def getThreshold_booth int_Suc_eq Let_def del: getThreshold_nat)

interpretation cpa: vote_collector "cpa_step en b i" "cpa_votes b i" "booth_quorum boo" "cpa_open b i h boo" for en b i h boo
  by unfold_locales (auto simp: cpa_step_def cpa_vote_run Let_def intro: cpa_open_look cpa_open_write)

fun cpa_vote_all :: "env \<Rightarrow> ValidatorCPAReply list \<Rightarrow> (node, cpa_work option list) go" where
  "cpa_vote_all en [] = ret []"
| "cpa_vote_all en (m # ms) = bindG (cpa_vote en m) (\<lambda>r. bindG (cpa_vote_all en ms) (\<lambda>rs. ret (r # rs)))"

lemma cpa_vote_all_tally:
  assumes "cpa_open b i h boo s"
  shows "\<exists>rs. cpa_vote_all en (map (cpa_reply b i) xs) s = Done rs (snd (cpa.tally en b i xs s)) \<and> map (map_option cw_sigs) rs = fst (cpa.tally en b i xs s)"
  using assms
proof (induction xs arbitrary: s)
  case (Cons x xs)
  have "\<exists>r s'. cpa_vote en (cpa_reply b i x) s = Done r s'"
    unfolding cpa_vote_run [OF Cons.prems] Let_def by (cases "length (cpa_votes b i s) = booth_quorum boo") simp_all
  then obtain r where r: "cpa_vote en (cpa_reply b i x) s = Done r (snd (cpa_step en b i x s))" "map_option cw_sigs r = fst (cpa_step en b i x s)"
    by (auto simp: cpa_step_def)
  obtain rs where "cpa_vote_all en (map (cpa_reply b i) xs) (snd (cpa_step en b i x s)) = Done rs (snd (cpa.tally en b i xs (snd (cpa_step en b i x s))))"
      "map (map_option cw_sigs) rs = fst (cpa.tally en b i xs (snd (cpa_step en b i x s)))"
    using Cons.IH [OF cpa.ok_vote [OF Cons.prems]] by blast
  then show ?case using r by simp
qed simp

text \<open>When the replies to a commit instance are handled one after the other, exactly the reply that
  completes the booth's quorum goes on to the recovery, with the first quorum of signatures, and later
  replies are dropped.\<close>

theorem cpa_quorum_once:
  assumes "cpa_open b i h boo s" "nget (vgTxMeta_sigs s) b i = None"
  shows "\<exists>s' rs. cpa_vote_all en (map (cpa_reply b i) xs) s = Done rs s'
    \<and> map (map_option cw_sigs) rs = map (\<lambda>k. if Suc k = booth_quorum boo then Some (take (booth_quorum boo) xs) else None) [0..<length xs]
    \<and> cpa_votes b i s' = take (booth_quorum boo) xs"
proof -
  have none: "cpa_votes b i s = []" using assms(2) by (simp add: cpa_votes_def)
  obtain rs where rs: "cpa_vote_all en (map (cpa_reply b i) xs) s = Done rs (snd (cpa.tally en b i xs s))"
    "map (map_option cw_sigs) rs = fst (cpa.tally en b i xs s)"
    using cpa_vote_all_tally [OF assms(1)] by blast
  have "fst (cpa.tally en b i xs s) = map (\<lambda>k. if Suc k = booth_quorum boo then Some (take (booth_quorum boo) xs) else None) [0..<length xs]"
    by (rule nth_equalityI) (simp_all add: cpa.tally_length cpa.tally_fires [OF assms(1)] none)
  moreover have "cpa_votes b i (snd (cpa.tally en b i xs s)) = take (booth_quorum boo) xs"
    using cpa.tally_votes [OF assms(1)] by (simp add: none)
  ultimately show ?thesis using rs by auto
qed

section \<open>Commit votes, concurrently\<close>

text \<open>
  Every reply is handled by a goroutine of its own. The state is the process and the goroutines:
  one that has not started, one between the two critical sections, one that has written and goes
  on with its own list, and one that has left.

  The lists are Go slices, and \<open>append\<close> on a slice with spare capacity writes into the array
  it shares with the other slices of that instance. When two goroutines append to the same votes,
  the slot of the later append may therefore be seen by the earlier one, whose list is changed
  after it was built (vconsensus.go:218). \<open>overlap\<close> and \<open>overlap_stored\<close> are these effects: the slot
  \<open>n\<close> of a goroutine's list, or of the list in \<open>vgTxMeta\<close>, takes the value that another goroutine of
  the same instance has appended to the same first \<open>n\<close> votes. They may occur at any moment and
  for each list on its own, which covers every sharing that the growth of the arrays can give.
\<close>

datatype cpa_thread = Arrived ValidatorCPAReply | Holding ValidatorCPAReply cpa_work | Wrote ValidatorCPAReply cpa_work | Left

fun slice_of :: "cpa_thread \<Rightarrow> ((int \<times> int) \<times> bytes list) option" where
  "slice_of (Holding m w) = Some ((cpar_BlockchainId m, cpar_ConsInstID m), cw_sigs w)"
| "slice_of (Wrote m w) = Some ((cpar_BlockchainId m, cpar_ConsInstID m), cw_sigs w)"
| "slice_of t = None"

fun reslice :: "bytes list \<Rightarrow> cpa_thread \<Rightarrow> cpa_thread" where
  "reslice l (Holding m w) = Holding m (w\<lparr>cw_sigs := l\<rparr>)"
| "reslice l (Wrote m w) = Wrote m (w\<lparr>cw_sigs := l\<rparr>)"
| "reslice l t = t"

inductive cpa_sys :: "env \<Rightarrow> node \<times> cpa_thread list \<Rightarrow> node \<times> cpa_thread list \<Rightarrow> bool" for en where
  start: "k < length ts \<Longrightarrow> ts ! k = Arrived m \<Longrightarrow> cpa_read en m s = Done (Some w) s' \<Longrightarrow> cpa_sys en (s, ts) (s', ts[k := Holding m w])"
| drop: "k < length ts \<Longrightarrow> ts ! k = Arrived m \<Longrightarrow> cpa_read en m s = Done None s' \<Longrightarrow> cpa_sys en (s, ts) (s', ts[k := Left])"
| store: "k < length ts \<Longrightarrow> ts ! k = Holding m w \<Longrightarrow> cpa_write m w s = Done () s' \<Longrightarrow> cpa_sys en (s, ts) (s', ts[k := Wrote m w])"
| overlap: "k < length ts \<Longrightarrow> j < length ts \<Longrightarrow> slice_of (ts ! k) = Some (inst, l') \<Longrightarrow> slice_of (ts ! j) = Some (inst, l) \<Longrightarrow>
    n < length l \<Longrightarrow> take (Suc n) l' = take n l @ [y] \<Longrightarrow> cpa_sys en (s, ts) (s, ts[j := reslice (l[n := y]) (ts ! j)])"
| overlap_stored: "k < length ts \<Longrightarrow> slice_of (ts ! k) = Some ((b, i), l') \<Longrightarrow> nget (vgTxMeta_sigs s) b i = Some l \<Longrightarrow>
    n < length l \<Longrightarrow> take (Suc n) l' = take n l @ [y] \<Longrightarrow>
    cpa_sys en (s, ts) (s\<lparr>vgTxMeta_sigs := nset (vgTxMeta_sigs s) b i (l[n := y])\<rparr>, ts)"

definition thread_ok :: "int \<Rightarrow> int \<Rightarrow> bytes \<Rightarrow> Booth \<Rightarrow> bytes set \<Rightarrow> cpa_thread \<Rightarrow> bool" where
  "thread_ok b i h boo X t = (case t of
     Arrived m \<Rightarrow> (\<exists>x \<in> X. m = cpa_reply b i x)
   | Holding m w \<Rightarrow> (\<exists>x \<in> X. m = cpa_reply b i x) \<and> set (cw_sigs w) \<subseteq> X \<and> length (cw_sigs w) \<le> booth_quorum boo \<and> cw_hash w = h \<and> cw_booth w = boo
   | Wrote m w \<Rightarrow> (\<exists>x \<in> X. m = cpa_reply b i x) \<and> set (cw_sigs w) \<subseteq> X \<and> length (cw_sigs w) \<le> booth_quorum boo \<and> cw_hash w = h \<and> cw_booth w = boo
   | Left \<Rightarrow> True)"

definition cpa_inv :: "int \<Rightarrow> int \<Rightarrow> bytes \<Rightarrow> Booth \<Rightarrow> bytes set \<Rightarrow> node \<times> cpa_thread list \<Rightarrow> bool" where
  "cpa_inv b i h boo X = (\<lambda>(s, ts). cpa_open b i h boo s \<and> set (cpa_votes b i s) \<subseteq> X
     \<and> length (cpa_votes b i s) \<le> booth_quorum boo \<and> (\<forall>t \<in> set ts. thread_ok b i h boo X t))"

lemma thread_ok_update:
  "(\<forall>t \<in> set ts. thread_ok b i h boo X t) \<Longrightarrow> thread_ok b i h boo X u \<Longrightarrow> \<forall>t \<in> set (ts[k := u]). thread_ok b i h boo X t"
  using set_update_subset_insert [of ts k u] by blast

lemma thread_at: "\<forall>t \<in> set ts. thread_ok b i h boo X t \<Longrightarrow> k < length ts \<Longrightarrow> ts ! k = t \<Longrightarrow> thread_ok b i h boo X t"
  by auto

lemma slice_ok:
  assumes "thread_ok b i h boo X t" "slice_of t = Some (inst, l)"
  shows "inst = (b, i)" "set l \<subseteq> X" "length l \<le> booth_quorum boo"
  using assms by (cases t; auto simp: thread_ok_def cpa_reply_def)+

lemma thread_ok_reslice:
  "thread_ok b i h boo X t \<Longrightarrow> set l \<subseteq> X \<Longrightarrow> length l \<le> booth_quorum boo \<Longrightarrow> thread_ok b i h boo X (reslice l t)"
  by (cases t) (auto simp: thread_ok_def)

lemma alias_element: "take (Suc n) l' = p @ [y] \<Longrightarrow> y \<in> set l'"
  by (metis in_set_conv_decomp in_set_takeD)

lemma alias_update:
  assumes "take (Suc n) l' = take n l @ [y]" "set l' \<subseteq> X" "set l \<subseteq> X"
  shows "set (l[n := y]) \<subseteq> X"
  using alias_element [OF assms(1)] assms(2,3) set_update_subset_insert [of l n y] by blast

lemma cpa_inv_step:
  assumes "cpa_sys en p q" "cpa_inv b i h boo X p"
  shows "cpa_inv b i h boo X q"
  using assms
proof (induction rule: cpa_sys.induct)
  case (start k ts m s w s')
  then have all: "\<forall>t \<in> set ts. thread_ok b i h boo X t" and inv: "cpa_open b i h boo s" "set (cpa_votes b i s) \<subseteq> X" "length (cpa_votes b i s) \<le> booth_quorum boo"
    by (simp_all add: cpa_inv_def)
  obtain x where x: "x \<in> X" "m = cpa_reply b i x" using thread_at [OF all start.hyps(1,2)] by (auto simp: thread_ok_def)
  have w: "w = \<lparr>cw_sigs = cpa_votes b i s @ [x], cw_hash = h, cw_booth = boo\<rparr>" "s' = look s" "length (cpa_votes b i s) \<noteq> booth_quorum boo"
    using start.hyps(3) unfolding x(2) cpa_read_run [OF inv(1)] by (auto split: if_splits)
  then have "thread_ok b i h boo X (Holding m w)" using x inv by (auto simp: thread_ok_def)
  from thread_ok_update [OF all this] show ?case using inv w(2) by (simp add: cpa_inv_def cpa_open_look)
next
  case (drop k ts m s s')
  then have all: "\<forall>t \<in> set ts. thread_ok b i h boo X t" and inv: "cpa_open b i h boo s" "set (cpa_votes b i s) \<subseteq> X" "length (cpa_votes b i s) \<le> booth_quorum boo"
    by (simp_all add: cpa_inv_def)
  obtain x where x: "m = cpa_reply b i x" using thread_at [OF all drop.hyps(1,2)] by (auto simp: thread_ok_def)
  have "s' = look s" using drop.hyps(3) unfolding x cpa_read_run [OF inv(1)] by simp
  moreover have "thread_ok b i h boo X Left" by (simp add: thread_ok_def)
  ultimately show ?case using inv thread_ok_update [OF all] by (simp add: cpa_inv_def cpa_open_look)
next
  case (store k ts m w s s')
  then have all: "\<forall>t \<in> set ts. thread_ok b i h boo X t" and inv: "cpa_open b i h boo s"
    by (simp_all add: cpa_inv_def)
  have ok: "thread_ok b i h boo X (Holding m w)" using thread_at [OF all store.hyps(1,2)] .
  then obtain x where x: "x \<in> X" "m = cpa_reply b i x" by (auto simp: thread_ok_def)
  have s': "s' = s\<lparr>vgTxMeta_sigs := nset (vgTxMeta_sigs s) b i (cw_sigs w)\<rparr>"
    using store.hyps(3) unfolding x(2) cpa_write_run [OF inv] by simp
  have "thread_ok b i h boo X (Wrote m w)" using ok by (simp add: thread_ok_def)
  from thread_ok_update [OF all this] show ?case using ok inv s'
    by (simp add: cpa_inv_def cpa_open_write thread_ok_def)
next
  case (overlap k ts j inst l' l n y s)
  then have all: "\<forall>t \<in> set ts. thread_ok b i h boo X t" by (simp add: cpa_inv_def)
  have ok: "thread_ok b i h boo X (ts ! k)" "thread_ok b i h boo X (ts ! j)" using all overlap.hyps(1,2) by auto
  have "thread_ok b i h boo X (reslice (l[n := y]) (ts ! j))"
    using thread_ok_reslice [OF ok(2) alias_update [OF overlap.hyps(6) slice_ok(2) [OF ok(1) overlap.hyps(3)] slice_ok(2) [OF ok(2) overlap.hyps(4)]]]
      slice_ok(3) [OF ok(2) overlap.hyps(4)] by simp
  from thread_ok_update [OF all this] show ?case using overlap.prems by (simp add: cpa_inv_def)
next
  case (overlap_stored k ts b' i' l' s l n y)
  then have all: "\<forall>t \<in> set ts. thread_ok b i h boo X t" by (simp add: cpa_inv_def)
  have ok: "thread_ok b i h boo X (ts ! k)" using all overlap_stored.hyps(1) by auto
  have inst: "b' = b" "i' = i" using slice_ok(1) [OF ok overlap_stored.hyps(2)] by simp_all
  have votes: "cpa_votes b i s = l" using overlap_stored.hyps(3) by (simp add: cpa_votes_def inst)
  have "set (l[n := y]) \<subseteq> X"
    using alias_update [OF overlap_stored.hyps(5) slice_ok(2) [OF ok overlap_stored.hyps(2)]] overlap_stored.prems by (simp add: cpa_inv_def votes)
  then show ?case using overlap_stored.prems by (simp add: cpa_inv_def cpa_open_write inst votes)
qed

text \<open>C11: Whatever the interleaving of the goroutines that handle the replies to one commit instance, the votes
  stored never exceed the quorum, and a goroutine that goes on to recover the signature does so with at
  most a quorum of signatures, all from replies received, for the hash and the booth of the instance;
  this holds also when their lists share an array and an append changes the list of another.\<close>

theorem cpa_concurrent_safe:
  assumes "cpa_open b i h boo s" "nget (vgTxMeta_sigs s) b i = None" "(cpa_sys en)\<^sup>*\<^sup>* (s, map (\<lambda>x. Arrived (cpa_reply b i x)) xs) (s', ts)"
  shows "length (cpa_votes b i s') \<le> booth_quorum boo \<and> set (cpa_votes b i s') \<subseteq> set xs
    \<and> (\<forall>m w. Wrote m w \<in> set ts \<longrightarrow> length (cw_sigs w) \<le> booth_quorum boo \<and> set (cw_sigs w) \<subseteq> set xs \<and> cw_hash w = h \<and> cw_booth w = boo)"
proof -
  have init: "cpa_inv b i h boo (set xs) (s, map (\<lambda>x. Arrived (cpa_reply b i x)) xs)"
    using assms(1,2) by (auto simp: cpa_inv_def cpa_votes_def thread_ok_def)
  from assms(3) init have "cpa_inv b i h boo (set xs) (s', ts)"
    by (rule rtranclp_induct) (blast intro: cpa_inv_step)
  then show ?thesis by (fastforce simp: cpa_inv_def thread_ok_def)
qed

text \<open>Where two appends to the same votes share an array, the first goroutine ends with the vote of the second.\<close>

lemma cpa_shared_vote:
  assumes "cw_sigs w1 = l @ [x]" "cw_sigs w2 = l @ [y]"
  shows "cpa_sys en (s, [Wrote (cpa_reply b i x) w1, Wrote (cpa_reply b i y) w2])
    (s, [Wrote (cpa_reply b i x) (w1\<lparr>cw_sigs := l @ [y]\<rparr>), Wrote (cpa_reply b i y) w2])"
  using cpa_sys.overlap [of 1 "[Wrote (cpa_reply b i x) w1, Wrote (cpa_reply b i y) w2]" 0 "(b, i)" "l @ [y]" "l @ [x]" "length l" y en s] assms
  by (simp add: cpa_reply_def)

text \<open>C35: Two replies handled at the same time can lose a vote: if both goroutines read before either writes, the
  second write erases the first vote, so that only one of the two is counted; and if one vote was
  missing, both go on to recover and broadcast.\<close>

theorem cpa_lost_vote:
  assumes op: "cpa_open b i h boo s" and votes: "length (cpa_votes b i s) < booth_quorum boo"
  shows "\<exists>s' w1 w2. (cpa_sys en)\<^sup>*\<^sup>* (s, [Arrived (cpa_reply b i x), Arrived (cpa_reply b i y)]) (s', [Wrote (cpa_reply b i x) w1, Wrote (cpa_reply b i y) w2])
    \<and> cpa_votes b i s' = cpa_votes b i s @ [y]
    \<and> (Suc (length (cpa_votes b i s)) = booth_quorum boo \<longrightarrow> cpa_quorum w1 \<and> cpa_quorum w2)"
proof -
  let ?w = "\<lambda>x. \<lparr>cw_sigs = cpa_votes b i s @ [x], cw_hash = h, cw_booth = boo\<rparr>"
  let ?m = "cpa_reply b i"
  let ?s2 = "look (look s)"
  let ?s3 = "?s2\<lparr>vgTxMeta_sigs := nset (vgTxMeta_sigs ?s2) b i (cpa_votes b i s @ [x])\<rparr>"
  let ?s4 = "?s3\<lparr>vgTxMeta_sigs := nset (vgTxMeta_sigs ?s3) b i (cpa_votes b i s @ [y])\<rparr>"
  have op1: "cpa_open b i h boo (look s)" and op2: "cpa_open b i h boo ?s2" by (simp_all add: cpa_open_look op)
  have op3: "cpa_open b i h boo ?s3" by (rule cpa_open_write [OF op2])
  have 1: "cpa_sys en (s, [Arrived (?m x), Arrived (?m y)]) (look s, [Holding (?m x) (?w x), Arrived (?m y)])"
    using cpa_sys.start [of 0 "[Arrived (?m x), Arrived (?m y)]" "?m x" en s "?w x" "look s"] votes by (simp add: cpa_read_run [OF op])
  have 2: "cpa_sys en (look s, [Holding (?m x) (?w x), Arrived (?m y)]) (?s2, [Holding (?m x) (?w x), Holding (?m y) (?w y)])"
    using cpa_sys.start [of 1 "[Holding (?m x) (?w x), Arrived (?m y)]" "?m y" en "look s" "?w y" "?s2"] votes by (simp add: cpa_read_run [OF op1])
  have 3: "cpa_sys en (?s2, [Holding (?m x) (?w x), Holding (?m y) (?w y)]) (?s3, [Wrote (?m x) (?w x), Holding (?m y) (?w y)])"
    using cpa_sys.store [of 0 "[Holding (?m x) (?w x), Holding (?m y) (?w y)]" "?m x" "?w x" ?s2 ?s3 en] by (simp add: cpa_write_run [OF op2])
  have 4: "cpa_sys en (?s3, [Wrote (?m x) (?w x), Holding (?m y) (?w y)]) (?s4, [Wrote (?m x) (?w x), Wrote (?m y) (?w y)])"
    using cpa_sys.store [of 1 "[Wrote (?m x) (?w x), Holding (?m y) (?w y)]" "?m y" "?w y" ?s3 ?s4 en] by (simp add: cpa_write_run [OF op3])
  have "(cpa_sys en)\<^sup>*\<^sup>* (s, [Arrived (?m x), Arrived (?m y)]) (?s4, [Wrote (?m x) (?w x), Wrote (?m y) (?w y)])"
    using 1 2 3 4 by (meson converse_rtranclp_into_rtranclp r_into_rtranclp)
  then show ?thesis
    by (intro exI [of _ ?s4] exI [of _ "?w x"] exI [of _ "?w y"]) (simp add: cpa_quorum_def getThreshold_booth int_Suc_eq del: getThreshold_nat)
qed

section \<open>Witnesses\<close>

lemma getBoothID_keeps:
  assumes "getBoothID ky en c fuel s = Done b t"
  shows "vgrec t = vgrec s \<and> cmtSnapshot t = cmtSnapshot s"
proof -
  have "pres (\<lambda>t. vgrec t = vgrec s \<and> cmtSnapshot t = cmtSnapshot s) (getBoothID ky en c fuel)"
    by (rule pres_getBoothID) simp_all
  then have "(\<lambda>t. vgrec t = vgrec s \<and> cmtSnapshot t = cmtSnapshot s) (final (getBoothID ky en c fuel s))"
    by (rule presD) simp
  then show ?thesis unfolding assms by simp
qed

text \<open>Proposer 10 with block 7 ordered and not yet handed out, while three vehicles participate.\<close>

definition commit_node :: node where
  "commit_node = ord_node\<lparr>vgrec := \<lparr>blockIDs = [7], lastIdx = 0\<rparr>, cmtSnapshot := nset Map.empty 10 7 voting_block, vgInst := 1\<rparr>"

lemma commit_node_world: "world_ok demo_env ord_cfg commit_node"
  by (simp add: world_ok_def registry_inv_def participants_at_def members_in_range_def detours_in_range_def ord_cfg_def demo_cfg_def commit_node_def ord_node_def demo_node_def init_node_def)

theorem consensus_step_commits_witness:
  "\<exists>s2 cb e acc. consensus_step demo_kyber demo_env ord_cfg (Suc 0) 0 0 commit_node = thenG (broadcast_CA demo_env ord_cfg cb e acc) (ret (Again 1 0)) s2
    \<and> nget (vgTxMeta_blockIDs s2) 10 0 = Some [7] \<and> pending_ids s2 = []"
proof -
  obtain cb s1 where b: "getBoothID demo_kyber demo_env ord_cfg (Suc 0) commit_node = Done cb s1" "0 \<le> cb" "cb < int (length (booMgr_b s1))"
    using getBoothID_world [OF commit_node_world] by blast
  have id: "ServerID ord_cfg = 10" by (simp add: ord_cfg_def demo_cfg_def)
  have keep: "vgrec s1 = \<lparr>blockIDs = [7], lastIdx = 0\<rparr>" "cmtSnapshot s1 = nset Map.empty 10 7 voting_block"
    using getBoothID_keeps [OF b(1)] by (simp_all add: commit_node_def)
  then have "pending_ids s1 = [7]" "\<forall>(i, f) \<in> set (found_blocks ord_cfg s1 (pending_ids s1)). Indices (booth f) \<noteq> []"
    by (simp_all add: pending_ids_def found_blocks_def id voting_block_def)
  with consensus_step_commits [OF b, of 0 0] obtain acc ser s2 where
    "consensus_step demo_kyber demo_env ord_cfg (Suc 0) 0 0 commit_node =
        thenG (broadcast_CA demo_env ord_cfg cb (entry_CA (ServerID ord_cfg) (booMgr_b s1 ! nat cb) (pending_ids s1) 0 (acc_hashes acc) (getDigest demo_env ser)) acc)
          (ret (Again (0 + 1) 0)) s2" "nget (vgTxMeta_blockIDs s2) (ServerID ord_cfg) 0 = Some (pending_ids s1)" "pending_ids s2 = []"
    by auto
  then show ?thesis using \<open>pending_ids s1 = [7]\<close> unfolding id by auto
qed

definition spread_node :: node where
  "spread_node = demo_net\<lparr>cmtSnapshot := nset Map.empty 0 7 (voting_block\<lparr>booth := \<lparr>ID = 5, Indices = [0, 1]\<rparr>\<rparr>),
     vgTxData_tx := nset Map.empty 0 0 Map.empty, vgTxData_boo := nmake Map.empty 0\<rparr>"

definition spread_cfg :: cfg where
  "spread_cfg = net_cfg\<lparr>EvaluateComPossibilityFlag := True\<rparr>"

theorem commit_dissemination_witness:
  "\<exists>u g t acc. broadcast_CA demo_env spread_cfg 0 (entry_CA 0 \<lparr>ID = 0, Indices = [0, 1, 2]\<rparr> [7] 0 [] []) acc t = Done () u
    \<and> resent_entry 0 7 (voting_block\<lparr>booth := \<lparr>ID = 5, Indices = [0, 1]\<rparr>\<rparr>) \<in> set (cpa_PrevOPBEntries (g 2))
    \<and> outbox u = outbox t @ map (\<lambda>i. (Concierge CPA i, CPAEntry (g i))) [1, 2]"
proof -
  have flags: "\<not> broadcastError spread_node" "audible demo_env spread_cfg spread_node (Indices (booMgr_b spread_node ! nat 0))" "(0::int) \<le> 0" "0 < int (length (booMgr_b spread_node))"
    "members_in_range spread_cfg spread_node CPA (Indices (booMgr_b spread_node ! nat 0))"
    by (simp_all add: spread_node_def spread_cfg_def net_defs audible_def all_heard_def)
  have cb: "booMgr_b spread_node ! nat 0 = \<lparr>ID = 0, Indices = [0, 1, 2]\<rparr>" "ServerID spread_cfg = 0"
    by (simp_all add: spread_node_def spread_cfg_def net_defs)
  have "\<forall>(i, f) \<in> set (found_blocks spread_cfg spread_node [7]). Indices (booth f) \<noteq> []"
    "nget (vgTxData_tx spread_node) (ServerID spread_cfg) 0 \<noteq> None" "vgTxData_boo spread_node (ServerID spread_cfg) \<noteq> None"
    unfolding cb by (simp_all add: found_blocks_def spread_node_def cb del: not_None_eq)
  from range_loop_total [OF this, of demo_env "booMgr_b spread_node ! nat 0" init_acc] obtain acc t where
    run: "whileG [7] (ca_block demo_env spread_cfg 0 (booMgr_b spread_node ! nat 0)) init_acc spread_node = Done (Some acc) t" by blast
  have send: "members_to_send spread_cfg spread_node CPA [0, 1, 2] = [1, 2]" by (simp add: members_to_send_def spread_node_def spread_cfg_def net_defs)
  have blk: "nget (cmtSnapshot spread_node) 0 7 = Some (voting_block\<lparr>booth := \<lparr>ID = 5, Indices = [0, 1]\<rparr>\<rparr>)" by (simp add: spread_node_def)
  from commit_dissemination [OF run flags, of "entry_CA 0 \<lparr>ID = 0, Indices = [0, 1, 2]\<rparr> [7] 0 [] []"]
  obtain u g where ug: "broadcast_CA demo_env spread_cfg 0 (entry_CA 0 \<lparr>ID = 0, Indices = [0, 1, 2]\<rparr> [7] 0 [] []) acc t = Done () u"
     "outbox u = outbox t @ map (\<lambda>i. (Concierge CPA i, CPAEntry (g i))) [1, 2]"
     "\<forall>i \<in> {0, 1, 2}. \<forall>f. nget (cmtSnapshot spread_node) 0 7 = Some f \<longrightarrow> i \<notin> set (Indices (booth f)) \<longrightarrow> resent_entry 0 7 f \<in> set (cpa_PrevOPBEntries (g i))"
    unfolding cb by (auto simp: send)
  then show ?thesis using blk by (intro exI [of _ u] exI [of _ g] exI [of _ t] exI [of _ acc]) auto
qed

theorem idle_proposer_terminates_witness:
  "(\<exists>t. consensus_loop demo_kyber demo_env ord_cfg (Suc 0) 7 4 3 (commit_node\<lparr>vgrec := \<lparr>blockIDs = [], lastIdx = 0\<rparr>\<rparr>) = Done () t
    \<and> vgInst t = 0)
   \<and> (\<exists>t. consensus_loop demo_kyber demo_env ord_cfg (Suc 0) 6 4 3 (commit_node\<lparr>vgrec := \<lparr>blockIDs = [], lastIdx = 0\<rparr>\<rparr>) = Blocked t
    \<and> vgInst t = 1)"
proof -
  let ?s = "commit_node\<lparr>vgrec := \<lparr>blockIDs = [], lastIdx = 0\<rparr>\<rparr>"
  have "world_ok demo_env ord_cfg ?s" by (rule world_ok_frame [OF _ commit_node_world]) (simp add: world_frame_def)
  moreover have "pending_ids ?s = []" "vgInst ?s = 1" "ConsWaitingSec ord_cfg = 10"
    by (simp_all add: pending_ids_def commit_node_def ord_cfg_def demo_cfg_def)
  ultimately show ?thesis
    using idle_proposer_terminates [of demo_env ord_cfg ?s 7 3 demo_kyber 0 4] idle_proposer_terminates [of demo_env ord_cfg ?s 6 3 demo_kyber 0 4]
    by (auto simp del: consensus_loop.simps getBoothID.simps)
qed

text \<open>Instance 0 of proposer 10 in a booth of four: the quorum is two.\<close>

definition votes_node :: node where
  "votes_node = init_node\<lparr>vgTxMeta_hash := nset Map.empty 10 0 [9], vgTxMeta_sigs := nmake Map.empty 10,
     vgTxData_boo := nset Map.empty 10 0 \<lparr>ID = 3, Indices = [10, 11, 12, 13]\<rparr>\<rparr>"

lemma votes_node_open: "cpa_open 10 0 [9] \<lparr>ID = 3, Indices = [10, 11, 12, 13]\<rparr> votes_node" "nget (vgTxMeta_sigs votes_node) 10 0 = None"
  by (simp_all add: cpa_open_def votes_node_def del: not_None_eq)

lemma booth_quorum_four: "booth_quorum \<lparr>ID = 3, Indices = [10, 11, 12, 13]\<rparr> = 2"
  by (simp add: booth_quorum_def)

theorem cpa_quorum_once_witness:
  "\<exists>s' rs. cpa_vote_all demo_env (map (cpa_reply 10 0) [[1], [2], [3]]) votes_node = Done rs s' \<and> cpa_votes 10 0 s' = [[1], [2]]"
  using cpa_quorum_once [OF votes_node_open, of demo_env "[[1], [2], [3]]"] by (auto simp: booth_quorum_four)

theorem cpa_concurrent_safe_witness:
  "\<exists>s' ts. (cpa_sys demo_env)\<^sup>*\<^sup>* (votes_node, map (\<lambda>x. Arrived (cpa_reply 10 0 x)) [[1]]) (s', ts)
    \<and> length (cpa_votes 10 0 s') \<le> 2 \<and> ts = [Holding (cpa_reply 10 0 [1]) \<lparr>cw_sigs = [[1]], cw_hash = [9], cw_booth = \<lparr>ID = 3, Indices = [10, 11, 12, 13]\<rparr>\<rparr>]"
proof -
  let ?w = "\<lparr>cw_sigs = [[1]], cw_hash = [9], cw_booth = \<lparr>ID = 3, Indices = [10, 11, 12, 13]\<rparr>\<rparr>"
  have "cpa_sys demo_env (votes_node, [Arrived (cpa_reply 10 0 [1])]) (look votes_node, [Holding (cpa_reply 10 0 [1]) ?w])"
    using cpa_sys.start [of 0 "[Arrived (cpa_reply 10 0 [1])]" "cpa_reply 10 0 [1]" demo_env votes_node ?w "look votes_node"]
    by (simp add: cpa_read_run [OF votes_node_open(1)] booth_quorum_four) (simp add: cpa_votes_def votes_node_open(2))
  then have run: "(cpa_sys demo_env)\<^sup>*\<^sup>* (votes_node, map (\<lambda>x. Arrived (cpa_reply 10 0 x)) [[1]]) (look votes_node, [Holding (cpa_reply 10 0 [1]) ?w])"
    by (simp add: r_into_rtranclp)
  from cpa_concurrent_safe [OF votes_node_open run] run show ?thesis unfolding booth_quorum_four by blast
qed

theorem cpa_lost_vote_witness:
  "\<exists>s' ts. (cpa_sys demo_env)\<^sup>*\<^sup>* (votes_node, [Arrived (cpa_reply 10 0 [1]), Arrived (cpa_reply 10 0 [2])]) (s', ts) \<and> cpa_votes 10 0 s' = [[2]]"
proof -
  have "cpa_votes 10 0 votes_node = []" by (simp add: cpa_votes_def votes_node_open(2))
  with cpa_lost_vote [OF votes_node_open(1), of demo_env "[1]" "[2]"] show ?thesis
    unfolding booth_quorum_four by auto
qed

end
