(* ===== verification/Comply.thy ===== *)
theory Comply
  imports Consensus
begin

text \<open>
  The validator (\<open>comply.go\<close>): one operation per message of a proposer. Each message is handled by
  a goroutine of its own. A job channel of capacity one is the number of tokens it holds; sending to
  a full one and receiving from an empty one block. The encoder of the connection the message came
  on is a destination, or \<open>None\<close> when there is none.
\<close>

section \<open>Job channels\<close>

text \<open>\<open>make(chan int, 1)\<close> stored when absent, and the nil map when the outer key is.\<close>

definition ord_job :: "int \<Rightarrow> int64 \<Rightarrow> (node, unit) go" where
  "ord_job b i = bindG (getG (\<lambda>s. nget (valiOrdJobStack s) b i)) (\<lambda>r. case r of
     None \<Rightarrow> nputG valiOrdJobStack valiOrdJobStack_update b i 0 | Some n \<Rightarrow> ret ())"

definition ord_job_send :: "int \<Rightarrow> int64 \<Rightarrow> (node, unit) go" where
  "ord_job_send b i = bindG (getG (\<lambda>s. nget (valiOrdJobStack s) b i)) (\<lambda>r.
     if r = Some 0 then modG (\<lambda>s. s\<lparr>valiOrdJobStack := nset (valiOrdJobStack s) b i 1\<rparr>) else blockG)"

definition ord_job_receive :: "int \<Rightarrow> int64 \<Rightarrow> (node, unit) go" where
  "ord_job_receive b i = bindG (getG (\<lambda>s. nget (valiOrdJobStack s) b i)) (\<lambda>r.
     if r = Some 1 then modG (\<lambda>s. s\<lparr>valiOrdJobStack := nset (valiOrdJobStack s) b i 0\<rparr>) else blockG)"

definition cons_job :: "int \<Rightarrow> int \<Rightarrow> (node, unit) go" where
  "cons_job b i = thenG (modG (\<lambda>s. s\<lparr>valiConsJobStack := nmake (valiConsJobStack s) b\<rparr>))
     (bindG (getG (\<lambda>s. nget (valiConsJobStack s) b i)) (\<lambda>r. case r of
        None \<Rightarrow> nputG valiConsJobStack valiConsJobStack_update b i 0 | Some n \<Rightarrow> ret ()))"

definition cons_job_send :: "int \<Rightarrow> int \<Rightarrow> (node, unit) go" where
  "cons_job_send b i = bindG (getG (\<lambda>s. nget (valiConsJobStack s) b i)) (\<lambda>r.
     if r = Some 0 then modG (\<lambda>s. s\<lparr>valiConsJobStack := nset (valiConsJobStack s) b i 1\<rparr>) else blockG)"

definition cons_job_receive :: "int \<Rightarrow> int \<Rightarrow> (node, unit) go" where
  "cons_job_receive b i = bindG (getG (\<lambda>s. nget (valiConsJobStack s) b i)) (\<lambda>r.
     if r = Some 1 then modG (\<lambda>s. s\<lparr>valiConsJobStack := nset (valiConsJobStack s) b i 0\<rparr>) else blockG)"

section \<open>Ordering messages\<close>

definition OA_snapshot :: "ProposerOPAEntry \<Rightarrow> blockSnapshot" where
  "OA_snapshot m = \<lparr>hash = opa_Hash m, entries = opa_Entries m, sigs = [], tSig = [], booth = opa_Booth m\<rparr>"

text \<open>\<open>blockchainInfo.m[b][phase]\<close>, zero when absent.\<close>

definition proposer_of :: "int \<Rightarrow> phase \<Rightarrow> (node, int) go" where
  "proposer_of b ph = getG (\<lambda>s. case nget (blockchainInfo s) b ph of None \<Rightarrow> 0 | Some i \<Rightarrow> i)"

text \<open>The reply is sent through the encoder of the connection, or, when it has to go a detour, through that
  of another proposer's connection in the phase \<open>detourPhase\<close>.\<close>

definition reply_to :: "env \<Rightarrow> cfg \<Rightarrow> msg \<Rightarrow> dest option \<Rightarrow> int \<Rightarrow> phase \<Rightarrow> phase \<Rightarrow> (node, unit) go" where
  "reply_to en c m encoder b infoPhase detourPhase =
     (if EvaluateComPossibilityFlag c
      then bindG (proposer_of b infoPhase) (\<lambda>p. dialSendBackWithComCheck en c m encoder detourPhase p)
      else dialSendBack en m encoder)"

text \<open>The part of \<open>validatingOAEntry\<close> under the lock of \<open>ordSnapshot\<close>; \<open>False\<close> for a block id already used.\<close>

definition OA_register :: "ProposerOPAEntry \<Rightarrow> (node, bool) go" where
  "OA_register m =
     bindG (getG (\<lambda>s. nget (ordSnapshot s) (opa_BlockchainId m) (opa_BlockId m))) (\<lambda>r. case r of
       Some f \<Rightarrow> ret False
     | None \<Rightarrow> thenG (modG (\<lambda>s. s\<lparr>ordSnapshot := nset (ordSnapshot s) (opa_BlockchainId m) (opa_BlockId m) (OA_snapshot m)\<rparr>)) (ret True))"

text \<open>The part under the lock of \<open>cmtSnapshot\<close>.\<close>

definition OA_store :: "ProposerOPAEntry \<Rightarrow> (node, unit) go" where
  "OA_store m =
     thenG (modG (\<lambda>s. s\<lparr>cmtSnapshot := nset (cmtSnapshot s) (opa_BlockchainId m) (opa_BlockId m) (OA_snapshot m)\<rparr>))
     (thenG (modG (\<lambda>s. s\<lparr>valiOrdJobStack := nmake (valiOrdJobStack s) (opa_BlockchainId m)\<rparr>))
     (thenG (ord_job (opa_BlockchainId m) (opa_BlockId m))
     (ord_job_send (opa_BlockchainId m) (opa_BlockId m))))"

definition OA_sign :: "('sc, 'pt, 'pub) kyber \<Rightarrow> env \<Rightarrow> cfg \<Rightarrow> ProposerOPAEntry \<Rightarrow> dest option \<Rightarrow> (node, unit) go" where
  "OA_sign ky en c m encoder =
     bindG (fetchKeysByBoothId ky (getThreshold (int (length (Indices (opa_Booth m))))) (ServerID c) (ID (opa_Booth m)) (opa_BlockchainId m)) (\<lambda>(pub, pri).
       case PenSign ky (opa_Hash m) pri of None \<Rightarrow> ret ()
       | Some sig \<Rightarrow> reply_to en c (OPAReply \<lparr>opar_BlockchainId = opa_BlockchainId m, opar_BlockId = opa_BlockId m, opar_ParSig = sig\<rparr>)
           encoder (opa_BlockchainId m) OPA OPB)"

definition validatingOAEntry :: "('sc, 'pt, 'pub) kyber \<Rightarrow> env \<Rightarrow> cfg \<Rightarrow> ProposerOPAEntry \<Rightarrow> dest option \<Rightarrow> (node, unit) go" where
  "validatingOAEntry ky en c m encoder =
     bindG (OA_register m) (\<lambda>fresh. if \<not> fresh then ret ()
       else thenG (OA_store m) (OA_sign ky en c m encoder))"

text \<open>
  The certificate of an ordered block. \<open>encoder\<close> is \<open>None\<close> when the entry was carried by a commit
  entry. The wait for the ordering entry happens while the lock of \<open>cmtSnapshot\<close> is held.
\<close>

definition OB_attach :: "ProposerOPBEntry \<Rightarrow> (node, unit) go" where
  "OB_attach m =
     bindG (getG (\<lambda>s. nget (cmtSnapshot s) (opb_BlockchainId m) (opb_BlockId m))) (\<lambda>f.
     thenG (if f = None
            then thenG (ord_job (opb_BlockchainId m) (opb_BlockId m)) (ord_job_receive (opb_BlockchainId m) (opb_BlockId m))
            else ret ())
     (bindG (getG (\<lambda>s. nget (cmtSnapshot s) (opb_BlockchainId m) (opb_BlockId m))) (\<lambda>g. case g of
        None \<Rightarrow> panicG NilDeref
      | Some frag \<Rightarrow> modG (\<lambda>s. s\<lparr>cmtSnapshot := nset (cmtSnapshot s) (opb_BlockchainId m) (opb_BlockId m)
                                   (frag\<lparr>tSig := opb_CombSig m\<rparr>)\<rparr>))))"

definition OB_snapshot :: "ProposerOPBEntry \<Rightarrow> blockSnapshot" where
  "OB_snapshot m = \<lparr>hash = opb_Hash m, entries = opb_Entries m, sigs = [], tSig = opb_CombSig m, booth = opb_Booth m\<rparr>"

definition validatingOBEntry :: "('sc, 'pt, 'pub) kyber \<Rightarrow> cfg \<Rightarrow> ProposerOPBEntry \<Rightarrow> dest option \<Rightarrow> (node, unit) go" where
  "validatingOBEntry ky c m encoder =
     bindG (fetchKeysByBoothId ky (getThreshold (int (length (Indices (opb_Booth m))))) (ServerID c) (ID (opb_Booth m)) (opb_BlockchainId m)) (\<lambda>(pub, pri).
       if \<not> PenVerify ky (opb_Hash m) (opb_CombSig m) pub then ret ()
       else bindG (getG (\<lambda>s. nget (ordSnapshot s) (opb_BlockchainId m) (opb_BlockId m))) (\<lambda>f.
         if f = None then
           (if encoder = None
            then modG (\<lambda>s. s\<lparr>cmtSnapshot := nset (cmtSnapshot s) (opb_BlockchainId m) (opb_BlockId m) (OB_snapshot m)\<rparr>)
            else ret ())
         else OB_attach m))"

section \<open>Commit messages\<close>

text \<open>The body of the loop over the ids of the range; \<open>None\<close> leaves the handler.\<close>

definition CA_block :: "env \<Rightarrow> ProposerCPAEntry \<Rightarrow> int64 \<Rightarrow> unit \<Rightarrow> (node, unit option) go" where
  "CA_block en m blockID u =
     bindG (getG (\<lambda>s. nget (cmtSnapshot s) (cpa_BlockchainId m) blockID)) (\<lambda>f. case f of
       None \<Rightarrow> ret (Some ())
     | Some snapshot \<Rightarrow>
       if hash snapshot \<noteq> (case map_of (cpa_RangeHash m) blockID of None \<Rightarrow> [] | Some h \<Rightarrow> h) then ret None
       else (case Booth_String (booth snapshot) of
          Inl e \<Rightarrow> ret None
        | Inr boo \<Rightarrow>
          thenG (append_tx (cpa_BlockchainId m) (cpa_ConsInstID m) boo (map snd (rangeEntries en (entries snapshot))))
          (thenG (modG (\<lambda>s. s\<lparr>vgTxData_boo := nset (vgTxData_boo s) (cpa_BlockchainId m) (cpa_ConsInstID m) (cpa_Booth m)\<rparr>))
          (ret (Some ())))))"

definition CA_sign :: "('sc, 'pt, 'pub) kyber \<Rightarrow> env \<Rightarrow> cfg \<Rightarrow> ProposerCPAEntry \<Rightarrow> dest option \<Rightarrow> (node, unit) go" where
  "CA_sign ky en c m encoder =
     bindG (fetchKeysByBoothId ky (getThreshold (int (length (Indices (cpa_Booth m))))) (ServerID c) (ID (cpa_Booth m)) (cpa_BlockchainId m)) (\<lambda>(pub, pri).
       case PenSign ky (cpa_TotalHash m) pri of None \<Rightarrow> ret ()
       | Some partialSig \<Rightarrow>
         thenG (modG (\<lambda>s. s\<lparr>vgTxMeta_hash := nset (vgTxMeta_hash s) (cpa_BlockchainId m) (cpa_ConsInstID m) (cpa_TotalHash m)\<rparr>))
         (thenG (cons_job (cpa_BlockchainId m) (cpa_ConsInstID m))
         (thenG (cons_job_send (cpa_BlockchainId m) (cpa_ConsInstID m))
         (thenG (reply_to en c (CPAReply \<lparr>cpar_BlockchainId = cpa_BlockchainId m, cpar_ConsInstID = cpa_ConsInstID m, cpar_ParSig = partialSig\<rparr>)
                   encoder (cpa_BlockchainId m) CPA CPA)
         (bindG (nowG en) (\<lambda>_. ret ()))))))"

definition validatingCAEntry :: "('sc, 'pt, 'pub) kyber \<Rightarrow> env \<Rightarrow> cfg \<Rightarrow> ProposerCPAEntry \<Rightarrow> dest option \<Rightarrow> (node, unit) go" where
  "validatingCAEntry ky en c m encoder =
     thenG (modG (\<lambda>s. s\<lparr>vgTxData_tx := nset (vgTxData_tx s) (cpa_BlockchainId m) (cpa_ConsInstID m) Map.empty\<rparr>))
     (thenG (forG (cpa_PrevOPBEntries m) (\<lambda>e. validatingOBEntry ky c e None))
     (if cpa_BIDs m = [] then ret ()
      else bindG (whileG (cpa_BIDs m) (CA_block en m) ()) (\<lambda>r. case r of None \<Rightarrow> ret ()
        | Some _ \<Rightarrow> CA_sign ky en c m encoder)))"

text \<open>\<open>True\<close> when the certificate was accepted; the code only logs it.\<close>

definition validatingCBEntry :: "('sc, 'pt, 'pub) kyber \<Rightarrow> cfg \<Rightarrow> ProposerCPBEntry \<Rightarrow> (node, bool) go" where
  "validatingCBEntry ky c m =
     thenG (cons_job (cpb_BlockchainId m) (cpb_ConsInstID m))
     (thenG (cons_job_receive (cpb_BlockchainId m) (cpb_ConsInstID m))
     (bindG (fetchKeysByBoothId ky (getThreshold (int (length (Indices (cpb_Booth m))))) (ServerID c) (ID (cpb_Booth m)) (cpb_BlockchainId m)) (\<lambda>(pub, pri).
       ret (PenVerify ky (cpb_Hash m) (cpb_ComSig m) pub))))"

section \<open>Ordering entries are answered once\<close>

lemma fetchKeys_files:
  assumes "fetchKeysByBoothId ky t i b ch s = Done (pub, pri) s" "files s' = files s"
  shows "fetchKeysByBoothId ky t i b ch s' = Done (pub, pri) s'"
  using assms by (auto simp: fetchKeysByBoothId_def split: sum.splits)

lemma fetchKeys_state: "fetchKeysByBoothId ky t i b ch s = Done r s' \<Longrightarrow> s' = s"
  by (auto simp: fetchKeysByBoothId_def split: sum.splits)

definition OA_stored :: "ProposerOPAEntry \<Rightarrow> node \<Rightarrow> node" where
  "OA_stored m s = (let b = opa_BlockchainId m; i = opa_BlockId m in
     s\<lparr>ordSnapshot := nset (ordSnapshot s) b i (OA_snapshot m), cmtSnapshot := nset (cmtSnapshot s) b i (OA_snapshot m),
       valiOrdJobStack := nset (valiOrdJobStack s) b i 1\<rparr>)"

lemma nset_nmake [simp]: "nset (nmake m a) a b v = nset m a b v"
  by (auto simp: nset_def nmake_def fun_eq_iff split: option.splits)

lemma OA_store_fresh:
  assumes "nget (valiOrdJobStack s) (opa_BlockchainId m) (opa_BlockId m) = None"
  shows "thenG (modG (\<lambda>s. s\<lparr>ordSnapshot := nset (ordSnapshot s) (opa_BlockchainId m) (opa_BlockId m) (OA_snapshot m)\<rparr>)) (OA_store m) s = Done () (OA_stored m s)"
  using assms
  by (simp add: OA_store_def OA_stored_def Let_def ord_job_def ord_job_send_def nputG_app del: not_None_eq)

text \<open>A reply that goes directly: one check of the path, when the check is on, and one send.\<close>

definition replied :: "env \<Rightarrow> cfg \<Rightarrow> dest \<Rightarrow> msg \<Rightarrow> node \<Rightarrow> node" where
  "replied en c d m s = (if EvaluateComPossibilityFlag c then look s else s)\<lparr>sent := sent s @ [\<lparr>to = d, body = m, failed = encErr en (length (sent s))\<rparr>]\<rparr>"

lemma reply_to_direct:
  assumes "answers en c s b ph"
  shows "reply_to en c m (Some d) b ph detourPhase s = Done () (replied en c d m s)"
proof (cases "EvaluateComPossibilityFlag c")
  case True
  let ?p = "case nget (blockchainInfo s) b ph of None \<Rightarrow> 0 | Some p \<Rightarrow> p"
  have "checkComPathToProposer en c ?p s = Done (False, ?p) (look s)"
    using assms True by (simp add: checkComPathToProposer_run Let_def answers_def)
  then show ?thesis using True
    by (simp add: reply_to_def proposer_of_def dialSendBackWithComCheck_def dialSendBack_def replied_def look_fields)
qed (simp add: reply_to_def dialSendBack_def replied_def)

text \<open>A validator that never hears the owner of the chain, and whose first proposer is always \<open>q\<close>, answers through \<open>q\<close>,
  whichever connection the message came over.\<close>

definition answers_over :: "env \<Rightarrow> cfg \<Rightarrow> node \<Rightarrow> int \<Rightarrow> phase \<Rightarrow> int \<Rightarrow> bool" where
  "answers_over en c s b ph q \<longleftrightarrow> EvaluateComPossibilityFlag c \<and> AllowBypassRoute c \<and> q \<noteq> - 1 \<and>
     (\<forall>k. let l = hears s (ServerID c) (key_at en s k) in
        (case nget (blockchainInfo s) b ph of None \<Rightarrow> 0 | Some p \<Rightarrow> p) \<notin> set l \<and> l \<noteq> [] \<and> hd l = q)"

lemma answers_over_links: "same_links s t \<Longrightarrow> answers_over en c t b ph q \<longleftrightarrow> answers_over en c s b ph q"
  by (simp add: same_links_def answers_over_def hears_def key_at_def)

lemma reply_to_over:
  assumes "answers_over en c s b ph q" "dialogMgr s detourPhase q \<noteq> None"
  shows "reply_to en c m e b ph detourPhase s = Done () (replied en c (Dialog detourPhase q) m s)"
proof -
  let ?p = "case nget (blockchainInfo s) b ph of None \<Rightarrow> 0 | Some p \<Rightarrow> p"
  have on: "EvaluateComPossibilityFlag c" "q \<noteq> - 1" using assms(1) by (simp_all add: answers_over_def)
  have "checkComPathToProposer en c ?p s = Done (True, q) (look s)"
    using assms(1) by (simp add: checkComPathToProposer_run Let_def answers_over_def)
  moreover obtain x where "dialogMgr (look s) detourPhase q = Some x" using assms(2) by (auto simp: look_def)
  ultimately show ?thesis using on
    by (simp add: reply_to_def proposer_of_def dialSendBackWithComCheck_def dialog_encoder_def dialSendBack_def replied_def look_fields)
qed

lemma replied_fields:
  "ordSnapshot (replied en c d m s) = ordSnapshot s" "cmtSnapshot (replied en c d m s) = cmtSnapshot s" "files (replied en c d m s) = files s"
  "outbox (replied en c d m s) = outbox s @ [(d, m)]" "valiOrdJobStack (replied en c d m s) = valiOrdJobStack s"
  "valiConsJobStack (replied en c d m s) = valiConsJobStack s" "vgTxMeta_hash (replied en c d m s) = vgTxMeta_hash s" "same_links s (replied en c d m s)"
  by (simp_all add: replied_def look_def outbox_def same_links_def)

text \<open>The state after the answer, with the reply sent.\<close>

definition OA_replied :: "env \<Rightarrow> cfg \<Rightarrow> ProposerOPAEntry \<Rightarrow> dest \<Rightarrow> bytes \<Rightarrow> node \<Rightarrow> node" where
  "OA_replied en c m d sig s = replied en c d
     (OPAReply \<lparr>opar_BlockchainId = opa_BlockchainId m, opar_BlockId = opa_BlockId m, opar_ParSig = sig\<rparr>) (OA_stored m s)"

lemma OA_replied_fields:
  "nget (ordSnapshot (OA_replied en c m d sig s)) (opa_BlockchainId m) (opa_BlockId m) = Some (OA_snapshot m)"
  "nget (cmtSnapshot (OA_replied en c m d sig s)) (opa_BlockchainId m) (opa_BlockId m) = Some (OA_snapshot m)"
  "outbox (OA_replied en c m d sig s) = outbox s @ [(d, OPAReply \<lparr>opar_BlockchainId = opa_BlockchainId m, opar_BlockId = opa_BlockId m, opar_ParSig = sig\<rparr>)]"
  "files (OA_replied en c m d sig s) = files s" "same_links s (OA_replied en c m d sig s)"
  by (simp_all add: OA_replied_def replied_fields) (simp_all add: OA_stored_def Let_def outbox_def replied_def look_def same_links_def)

lemma OA_run_reply:
  assumes fresh: "nget (ordSnapshot s) (opa_BlockchainId m) (opa_BlockId m) = None"
    and job: "nget (valiOrdJobStack s) (opa_BlockchainId m) (opa_BlockId m) = None"
    and keys: "fetchKeysByBoothId ky (getThreshold (int (length (Indices (opa_Booth m))))) (ServerID c) (ID (opa_Booth m)) (opa_BlockchainId m) s = Done (pub, pri) s"
    and sig: "PenSign ky (opa_Hash m) pri = Some sig"
    and reply: "\<And>r. reply_to en c r e (opa_BlockchainId m) OPA OPB (OA_stored m s) = Done () (replied en c d r (OA_stored m s))"
  shows "validatingOAEntry ky en c m e s = Done () (OA_replied en c m d sig s)"
proof -
  let ?s = "OA_stored m s"
  have k: "fetchKeysByBoothId ky (getThreshold (int (length (Indices (opa_Booth m))))) (ServerID c) (ID (opa_Booth m)) (opa_BlockchainId m) ?s = Done (pub, pri) ?s"
    by (rule fetchKeys_files [OF keys]) (simp add: OA_stored_def Let_def)
  have "validatingOAEntry ky en c m e s =
      thenG (thenG (modG (\<lambda>s. s\<lparr>ordSnapshot := nset (ordSnapshot s) (opa_BlockchainId m) (opa_BlockId m) (OA_snapshot m)\<rparr>)) (OA_store m)) (OA_sign ky en c m e) s"
    using fresh by (simp add: validatingOAEntry_def OA_register_def thenG_def bindG_def split: outcome.split)
  also have "\<dots> = OA_sign ky en c m e ?s" using OA_store_fresh [OF job] by simp
  also have "\<dots> = Done () (OA_replied en c m d sig s)"
    using k sig reply by (simp add: OA_sign_def OA_replied_def)
  finally show ?thesis .
qed

lemma OA_stored_links: "same_links s (OA_stored m s)" "dialogMgr (OA_stored m s) = dialogMgr s"
  by (simp_all add: same_links_def OA_stored_def Let_def)

lemma OA_run:
  assumes "nget (ordSnapshot s) (opa_BlockchainId m) (opa_BlockId m) = None" "nget (valiOrdJobStack s) (opa_BlockchainId m) (opa_BlockId m) = None"
    and "fetchKeysByBoothId ky (getThreshold (int (length (Indices (opa_Booth m))))) (ServerID c) (ID (opa_Booth m)) (opa_BlockchainId m) s = Done (pub, pri) s"
    and "PenSign ky (opa_Hash m) pri = Some sig" and direct: "answers en c s (opa_BlockchainId m) OPA"
  shows "validatingOAEntry ky en c m (Some d) s = Done () (OA_replied en c m d sig s)"
  by (rule OA_run_reply [OF assms(1-4)]) (rule reply_to_direct, use direct in \<open>simp add: answers_links [OF OA_stored_links(1)]\<close>)

lemma OA_again:
  assumes "nget (ordSnapshot s) (opa_BlockchainId m) (opa_BlockId m) = Some f"
  shows "validatingOAEntry ky en c m e s = Done () s"
proof -
  have "OA_register m s = Done False s" using assms by (simp add: OA_register_def)
  then show ?thesis unfolding validatingOAEntry_def by (subst bindG_Done) (assumption, simp)
qed

text \<open>C12: A validator that gets an ordering entry with a block id it has not seen, whose key files are there and whose reply goes
  directly (it hears the proposer, or does not check), keeps hash, entries and booth of the block in both snapshots and answers with exactly one signature, of the received
  hash, under its own share; every later entry with this block id, whatever it contains, changes nothing and is not answered.\<close>

theorem OA_answered_once:
  assumes fresh: "nget (ordSnapshot s) (opa_BlockchainId m) (opa_BlockId m) = None"
    and job: "nget (valiOrdJobStack s) (opa_BlockchainId m) (opa_BlockId m) = None"
    and keys: "fetchKeysByBoothId ky (getThreshold (int (length (Indices (opa_Booth m))))) (ServerID c) (ID (opa_Booth m)) (opa_BlockchainId m) s = Done (pub, pri) s"
    and sig: "PenSign ky (opa_Hash m) pri = Some sig" and direct: "answers en c s (opa_BlockchainId m) OPA"
  shows "\<exists>t. validatingOAEntry ky en c m (Some d) s = Done () t
    \<and> nget (ordSnapshot t) (opa_BlockchainId m) (opa_BlockId m) = Some (OA_snapshot m)
    \<and> nget (cmtSnapshot t) (opa_BlockchainId m) (opa_BlockId m) = Some (OA_snapshot m)
    \<and> outbox t = outbox s @ [(d, OPAReply \<lparr>opar_BlockchainId = opa_BlockchainId m, opar_BlockId = opa_BlockId m, opar_ParSig = sig\<rparr>)]
    \<and> (\<forall>m' e. opa_BlockchainId m' = opa_BlockchainId m \<longrightarrow> opa_BlockId m' = opa_BlockId m \<longrightarrow> validatingOAEntry ky en c m' e t = Done () t)"
proof (intro exI conjI)
  show "validatingOAEntry ky en c m (Some d) s = Done () (OA_replied en c m d sig s)" by (rule OA_run [OF assms])
qed (auto simp: OA_replied_fields intro: OA_again)

section \<open>Certificates\<close>

text \<open>
  What an ordering certificate changes: nothing but the job channels and the commit snapshot of its own
  block. When its ordering entry was stored, the block that was there is kept, hash, entries, booth and
  all, and gets the certificate of the message; when no ordering entry was stored, only a certificate carried by a commit
  entry changes anything, and it stores the block it carries.
\<close>

definition certified_block :: "ProposerOPBEntry \<Rightarrow> dest option \<Rightarrow> node \<Rightarrow> blockSnapshot \<Rightarrow> bool" where
  "certified_block m encoder s g \<longleftrightarrow>
     (if nget (ordSnapshot s) (opb_BlockchainId m) (opb_BlockId m) = None then encoder = None \<and> g = OB_snapshot m
      else (\<exists>f. nget (cmtSnapshot s) (opb_BlockchainId m) (opb_BlockId m) = Some f \<and> g = f\<lparr>tSig := opb_CombSig m\<rparr>))"

definition OB_effect :: "ProposerOPBEntry \<Rightarrow> dest option \<Rightarrow> node \<Rightarrow> node \<Rightarrow> bool" where
  "OB_effect m encoder s t \<longleftrightarrow> (\<exists>x y. t = s\<lparr>cmtSnapshot := x, valiOrdJobStack := y\<rparr>)
     \<and> (\<forall>b i. nget (cmtSnapshot t) b i = nget (cmtSnapshot s) b i
          \<or> b = opb_BlockchainId m \<and> i = opb_BlockId m \<and> (\<exists>g. nget (cmtSnapshot t) b i = Some g \<and> certified_block m encoder s g))"

lemma OB_effect_refl [simp]: "OB_effect m encoder s s"
  unfolding OB_effect_def by (auto intro!: exI [of _ "cmtSnapshot s"] exI [of _ "valiOrdJobStack s"])

lemma OB_effect_job: "OB_effect m encoder s (s\<lparr>valiOrdJobStack := y\<rparr>)"
  unfolding OB_effect_def by (auto intro!: exI [of _ "cmtSnapshot s"])

lemma OB_effect_block:
  assumes "certified_block m encoder s g"
  shows "OB_effect m encoder s (s\<lparr>cmtSnapshot := nset (cmtSnapshot s) (opb_BlockchainId m) (opb_BlockId m) g\<rparr>)"
  unfolding OB_effect_def using assms by (auto intro!: exI [of _ "valiOrdJobStack s"])

lemma pres_nputG [pres_intros]: "(\<And>s m. P s \<Longrightarrow> P (upd (\<lambda>_. m) s)) \<Longrightarrow> pres P (nputG fld upd a b v)"
  by (rule presI) (simp add: nputG_app)

text \<open>Waiting for a token changes nothing but the channels, and leaves the handler with no block to attach the certificate to.\<close>

lemma OB_attach_waits:
  assumes "nget (cmtSnapshot s) (opb_BlockchainId m) (opb_BlockId m) = None"
  shows "\<exists>y. final (OB_attach m s) = s\<lparr>valiOrdJobStack := y\<rparr>"
proof -
  let ?w = "thenG (ord_job (opb_BlockchainId m) (opb_BlockId m)) (ord_job_receive (opb_BlockchainId m) (opb_BlockId m))"
  have refl: "\<exists>y. s = s\<lparr>valiOrdJobStack := y\<rparr>" for s :: node by (intro exI [of _ "valiOrdJobStack s"]) simp
  have frame: "pres (\<lambda>t. \<exists>y. t = s\<lparr>valiOrdJobStack := y\<rparr>) ?w"
    unfolding ord_job_def ord_job_receive_def by (intro pres_intros pres_nputG) auto
  have w: "\<exists>y. final (?w s) = s\<lparr>valiOrdJobStack := y\<rparr>" by (rule presD [OF frame]) (rule refl)
  show ?thesis
  proof (cases "?w s")
    case (Done u t)
    then obtain y where "t = s\<lparr>valiOrdJobStack := y\<rparr>" using w by auto
    then show ?thesis using Done assms by (auto simp: OB_attach_def)
  qed (use w assms in \<open>auto simp: OB_attach_def\<close>)
qed

lemma OB_effect_attach:
  assumes "nget (ordSnapshot s) (opb_BlockchainId m) (opb_BlockId m) \<noteq> None"
  shows "OB_effect m encoder s (final (OB_attach m s))"
proof (cases "nget (cmtSnapshot s) (opb_BlockchainId m) (opb_BlockId m)")
  case None
  then show ?thesis using OB_attach_waits [OF None] OB_effect_job by metis
next
  case (Some f)
  then have "OB_attach m s = Done () (s\<lparr>cmtSnapshot := nset (cmtSnapshot s) (opb_BlockchainId m) (opb_BlockId m) (f\<lparr>tSig := opb_CombSig m\<rparr>)\<rparr>)"
    by (simp add: OB_attach_def)
  then show ?thesis using assms Some by (simp add: OB_effect_block certified_block_def del: not_None_eq)
qed

lemma OB_effect_entry: "OB_effect m encoder s (final (validatingOBEntry ky c m encoder s))"
  by (cases rule: fetchKeysByBoothId_cases [of ky "getThreshold (int (length (Indices (opb_Booth m))))" "ServerID c" "ID (opb_Booth m)" "opb_BlockchainId m" s])
    (auto simp: validatingOBEntry_def bindG_def OB_effect_attach OB_effect_block certified_block_def)

text \<open>C15: Only a certificate that verifies under the public key of its booth is ever attached: whatever the
  message, the state and the outcome, \<open>validatingOBEntry\<close> changes no state but the job channels and the commit snapshot of
  the block it names. A block whose ordering entry was stored keeps its hash, its entries, its votes and its booth, and only its certificate becomes that of
  the message; without a stored ordering entry only a certificate carried by a commit entry has an effect, and stores exactly the block it carries.
  And the commit snapshot does not change at all when the certificate does not verify.\<close>

theorem OB_attaches_verified:
  "OB_effect m encoder s (final (validatingOBEntry ky c m encoder s))
   \<and> (cmtSnapshot (final (validatingOBEntry ky c m encoder s)) = cmtSnapshot s
     \<or> (\<exists>pub pri. fetchKeysByBoothId ky (getThreshold (int (length (Indices (opb_Booth m))))) (ServerID c) (ID (opb_Booth m)) (opb_BlockchainId m) s = Done (pub, pri) s
          \<and> PenVerify ky (opb_Hash m) (opb_CombSig m) pub))"
proof
  show "OB_effect m encoder s (final (validatingOBEntry ky c m encoder s))" by (rule OB_effect_entry)
  show "cmtSnapshot (final (validatingOBEntry ky c m encoder s)) = cmtSnapshot s
     \<or> (\<exists>pub pri. fetchKeysByBoothId ky (getThreshold (int (length (Indices (opb_Booth m))))) (ServerID c) (ID (opb_Booth m)) (opb_BlockchainId m) s = Done (pub, pri) s
          \<and> PenVerify ky (opb_Hash m) (opb_CombSig m) pub)"
    by (cases rule: fetchKeysByBoothId_cases [of ky "getThreshold (int (length (Indices (opb_Booth m))))" "ServerID c" "ID (opb_Booth m)" "opb_BlockchainId m" s])
      (auto simp: validatingOBEntry_def bindG_def)
qed

text \<open>The certificate is checked against the hash in the message, not against the block it is attached to: a
  valid certificate of any other hash of the same booth, sent under the id of a stored block, becomes this block's certificate.\<close>

theorem OB_hash_not_compared:
  assumes "fetchKeysByBoothId ky (getThreshold (int (length (Indices (opb_Booth m))))) (ServerID c) (ID (opb_Booth m)) (opb_BlockchainId m) s = Done (pub, pri) s"
    and "PenVerify ky (opb_Hash m) (opb_CombSig m) pub"
    and "nget (ordSnapshot s) (opb_BlockchainId m) (opb_BlockId m) = Some f" "nget (cmtSnapshot s) (opb_BlockchainId m) (opb_BlockId m) = Some g"
    and "hash g \<noteq> opb_Hash m"
  shows "validatingOBEntry ky c m encoder s
     = Done () (s\<lparr>cmtSnapshot := nset (cmtSnapshot s) (opb_BlockchainId m) (opb_BlockId m) (g\<lparr>tSig := opb_CombSig m\<rparr>)\<rparr>)"
  using assms by (simp add: validatingOBEntry_def OB_attach_def)

text \<open>The handler of a certificate that arrives between the two critical sections of \<open>validatingOAEntry\<close> (the block is in
  \<open>ordSnapshot\<close> and not yet in \<open>cmtSnapshot\<close>) panics on a nil map for the first block of a chain, and
  otherwise waits for a token, with the commit snapshot as it was. What the lock it then holds does to the other handlers is shown in theory \<open>Deadlock\<close>.\<close>

theorem OB_before_store_stops:
  assumes "fetchKeysByBoothId ky (getThreshold (int (length (Indices (opb_Booth m))))) (ServerID c) (ID (opb_Booth m)) (opb_BlockchainId m) s = Done (pub, pri) s"
    and "PenVerify ky (opb_Hash m) (opb_CombSig m) pub"
    and "nget (ordSnapshot s) (opb_BlockchainId m) (opb_BlockId m) = Some f" "nget (cmtSnapshot s) (opb_BlockchainId m) (opb_BlockId m) = None"
    and "nget (valiOrdJobStack s) (opb_BlockchainId m) (opb_BlockId m) \<noteq> Some 1"
  shows "(valiOrdJobStack s (opb_BlockchainId m) = None \<longrightarrow> validatingOBEntry ky c m encoder s = Panicked NilMapWrite s)
    \<and> (valiOrdJobStack s (opb_BlockchainId m) \<noteq> None \<longrightarrow> (\<exists>t. validatingOBEntry ky c m encoder s = Blocked t \<and> cmtSnapshot t = cmtSnapshot s))"
proof -
  have att: "validatingOBEntry ky c m encoder s = OB_attach m s" using assms(1-3) by (simp add: validatingOBEntry_def)
  show ?thesis
  proof (cases "nget (valiOrdJobStack s) (opb_BlockchainId m) (opb_BlockId m)")
    case None
    then show ?thesis unfolding att using assms(4)
      by (simp add: OB_attach_def ord_job_def ord_job_receive_def nputG_app del: not_None_eq)
  next
    case (Some k)
    then have "valiOrdJobStack s (opb_BlockchainId m) \<noteq> None" by (rule nget_outer)
    then show ?thesis unfolding att using assms(4,5) Some
      by (simp add: OB_attach_def ord_job_def ord_job_receive_def del: not_None_eq)
  qed
qed

section \<open>Commit entries\<close>

lemma CA_block_run:
  assumes "nget (vgTxData_tx s) (cpa_BlockchainId m) (cpa_ConsInstID m) \<noteq> None"
  shows "\<exists>r u. CA_block en m i () s = Done r u \<and> data_frame s u \<and> nget (vgTxData_tx u) (cpa_BlockchainId m) (cpa_ConsInstID m) \<noteq> None
    \<and> (\<forall>f. nget (cmtSnapshot s) (cpa_BlockchainId m) i = Some f \<longrightarrow> hash f \<noteq> (case map_of (cpa_RangeHash m) i of None \<Rightarrow> [] | Some h \<Rightarrow> h) \<longrightarrow> r = None)
    \<and> ((\<forall>f. nget (cmtSnapshot s) (cpa_BlockchainId m) i = Some f \<longrightarrow> hash f = (case map_of (cpa_RangeHash m) i of None \<Rightarrow> [] | Some h \<Rightarrow> h) \<and> Indices (booth f) \<noteq> []) \<longrightarrow> r = Some ())"
proof (cases "nget (cmtSnapshot s) (cpa_BlockchainId m) i")
  case None
  then show ?thesis using assms by (simp add: CA_block_def)
next
  case (Some f)
  show ?thesis
  proof (cases "hash f = (case map_of (cpa_RangeHash m) i of None \<Rightarrow> [] | Some h \<Rightarrow> h) \<and> Indices (booth f) \<noteq> []")
    case True
    obtain boo where boo: "Booth_String (booth f) = Inr boo" using True by (simp add: Booth_String_def)
    obtain u where u: "append_tx (cpa_BlockchainId m) (cpa_ConsInstID m) boo (map snd (rangeEntries en (entries f))) s = Done () u"
        "data_frame s u" "nget (vgTxData_tx u) (cpa_BlockchainId m) (cpa_ConsInstID m) \<noteq> None"
      using assms by (auto simp: append_tx_run)
    let ?v = "u\<lparr>vgTxData_boo := nset (vgTxData_boo u) (cpa_BlockchainId m) (cpa_ConsInstID m) (cpa_Booth m)\<rparr>"
    have "data_frame s ?v" using data_frame_trans [OF u(2) data_frame_intro(2)] .
    moreover have "CA_block en m i () s = Done (Some ()) ?v"
      using True Some boo u(1) by (simp add: CA_block_def)
    ultimately show ?thesis using u(3) True Some by auto
  next
    case False
    then have "CA_block en m i () s = Done None s" using Some by (auto simp: CA_block_def Booth_String_def)
    then show ?thesis using False Some assms by auto
  qed
qed

definition range_matches :: "ProposerCPAEntry \<Rightarrow> node \<Rightarrow> int64 \<Rightarrow> bool" where
  "range_matches m s i \<longleftrightarrow> (\<forall>f. nget (cmtSnapshot s) (cpa_BlockchainId m) i = Some f
     \<longrightarrow> hash f = (case map_of (cpa_RangeHash m) i of None \<Rightarrow> [] | Some h \<Rightarrow> h))"

lemma CA_loop_run:
  assumes "nget (vgTxData_tx s) (cpa_BlockchainId m) (cpa_ConsInstID m) \<noteq> None"
  shows "\<exists>r u. whileG ids (CA_block en m) () s = Done r u \<and> data_frame s u
    \<and> ((\<exists>i \<in> set ids. \<not> range_matches m s i) \<longrightarrow> r = None)
    \<and> ((\<forall>i \<in> set ids. range_matches m s i \<and> (\<forall>f. nget (cmtSnapshot s) (cpa_BlockchainId m) i = Some f \<longrightarrow> Indices (booth f) \<noteq> [])) \<longrightarrow> r = Some ())"
  using assms
proof (induction ids arbitrary: s)
  case (Cons i ids)
  obtain r u where one: "CA_block en m i () s = Done r u" "data_frame s u" "nget (vgTxData_tx u) (cpa_BlockchainId m) (cpa_ConsInstID m) \<noteq> None"
      "\<not> range_matches m s i \<longrightarrow> r = None"
      "range_matches m s i \<and> (\<forall>f. nget (cmtSnapshot s) (cpa_BlockchainId m) i = Some f \<longrightarrow> Indices (booth f) \<noteq> []) \<longrightarrow> r = Some ()"
    using CA_block_run [OF Cons.prems, of en i] unfolding range_matches_def by blast
  have cmt: "cmtSnapshot u = cmtSnapshot s" using data_frame_fields(1) [OF one(2)] .
  then have rm: "range_matches m u j = range_matches m s j" for j by (simp add: range_matches_def)
  obtain r' u' where "whileG ids (CA_block en m) () u = Done r' u'" "data_frame u u'"
    "(\<exists>j \<in> set ids. \<not> range_matches m s j) \<longrightarrow> r' = None"
    "(\<forall>j \<in> set ids. range_matches m s j \<and> (\<forall>f. nget (cmtSnapshot s) (cpa_BlockchainId m) j = Some f \<longrightarrow> Indices (booth f) \<noteq> [])) \<longrightarrow> r' = Some ()"
    using Cons.IH [OF one(3)] unfolding rm cmt by blast
  then show ?case using one data_frame_trans [OF one(2)] by (cases r) auto
qed simp

definition tx_reset :: "ProposerCPAEntry \<Rightarrow> node \<Rightarrow> node" where
  "tx_reset m s = s\<lparr>vgTxData_tx := nset (vgTxData_tx s) (cpa_BlockchainId m) (cpa_ConsInstID m) Map.empty\<rparr>"

definition prev_frame :: "node \<Rightarrow> node \<Rightarrow> bool" where
  "prev_frame s t \<longleftrightarrow> (\<exists>x y. t = s\<lparr>cmtSnapshot := x, valiOrdJobStack := y\<rparr>)"

lemma pres_prev_frame: "pres (prev_frame s) (forG es (\<lambda>e. validatingOBEntry ky c e None))"
proof (rule pres_forG, rule presI)
  fix e t assume t: "prev_frame s t"
  have "OB_effect e None t (final (validatingOBEntry ky c e None t))" by (rule OB_effect_entry)
  then show "prev_frame s (final (validatingOBEntry ky c e None t))"
    using t unfolding prev_frame_def OB_effect_def by clarsimp blast
qed

text \<open>C14: A validator does not sign a range that contradicts what it stored: when, after the carried certificates
  are processed, one block of the range is stored with a hash other than the one the entry gives for
  it, the entry is not answered, no commit digest is stored and no commit certificate is let through.\<close>

theorem CA_refuses_mismatch:
  assumes prev: "forG (cpa_PrevOPBEntries m) (\<lambda>e. validatingOBEntry ky c e None) (tx_reset m s) = Done () t"
    and bad: "i \<in> set (cpa_BIDs m)" "\<not> range_matches m t i"
  shows "\<exists>t'. validatingCAEntry ky en c m encoder s = Done () t' \<and> sent t' = sent s
    \<and> vgTxMeta_hash t' = vgTxMeta_hash s \<and> valiConsJobStack t' = valiConsJobStack s"
proof -
  have "prev_frame (tx_reset m s) (final (forG (cpa_PrevOPBEntries m) (\<lambda>e. validatingOBEntry ky c e None) (tx_reset m s)))"
    by (rule presD [OF pres_prev_frame]) (auto simp: prev_frame_def intro!: exI [of _ "cmtSnapshot (tx_reset m s)"] exI [of _ "valiOrdJobStack (tx_reset m s)"])
  then have t: "sent t = sent s" "vgTxMeta_hash t = vgTxMeta_hash s" "valiConsJobStack t = valiConsJobStack s"
      "nget (vgTxData_tx t) (cpa_BlockchainId m) (cpa_ConsInstID m) \<noteq> None"
    unfolding prev by (auto simp: prev_frame_def tx_reset_def)
  obtain u where u: "whileG (cpa_BIDs m) (CA_block en m) () t = Done None u" "data_frame t u"
    using CA_loop_run [OF t(4), of "cpa_BIDs m" en] bad by blast
  have "validatingCAEntry ky en c m encoder s = Done () u"
    using prev u(1) bad(1) by (cases "cpa_BIDs m = []") (simp_all add: validatingCAEntry_def tx_reset_def)
  then show ?thesis using data_frame_fields [OF u(2)] t by simp
qed

lemma nset_same: "nget m a b = Some v \<Longrightarrow> nset m a b v = nmake m a"
  by (auto simp: nset_def nmake_def nget_def fun_eq_iff split: option.splits)

lemma cons_job_run:
  "cons_job b i s = Done () (s\<lparr>valiConsJobStack := nset (valiConsJobStack s) b i (case nget (valiConsJobStack s) b i of None \<Rightarrow> 0 | Some k \<Rightarrow> k)\<rparr>)"
  by (cases "nget (valiConsJobStack s) b i") (simp_all add: cons_job_def nputG_app nset_same del: not_None_eq)

lemma cons_job_token:
  assumes "nget (valiConsJobStack s) b i \<in> {None, Some 0}"
  shows "\<exists>u. cons_job b i s = Done () u \<and> cons_job_send b i u = Done () (s\<lparr>valiConsJobStack := nset (valiConsJobStack s) b i 1\<rparr>)"
  using assms by (auto simp: cons_job_run cons_job_send_def)

lemma CA_sign_run:
  assumes keys: "fetchKeysByBoothId ky (getThreshold (int (length (Indices (cpa_Booth m))))) (ServerID c) (ID (cpa_Booth m)) (cpa_BlockchainId m) u = Done (pub, pri) u"
    and sig: "PenSign ky (cpa_TotalHash m) pri = Some sig" and direct: "answers en c u (cpa_BlockchainId m) CPA"
    and job: "nget (valiConsJobStack u) (cpa_BlockchainId m) (cpa_ConsInstID m) \<in> {None, Some 0}"
  shows "\<exists>t. CA_sign ky en c m (Some d) u = Done () t
    \<and> outbox t = outbox u @ [(d, CPAReply \<lparr>cpar_BlockchainId = cpa_BlockchainId m, cpar_ConsInstID = cpa_ConsInstID m, cpar_ParSig = sig\<rparr>)]
    \<and> nget (vgTxMeta_hash t) (cpa_BlockchainId m) (cpa_ConsInstID m) = Some (cpa_TotalHash m)
    \<and> nget (valiConsJobStack t) (cpa_BlockchainId m) (cpa_ConsInstID m) = Some 1 \<and> files t = files u
    \<and> ordSnapshot t = ordSnapshot u \<and> cmtSnapshot t = cmtSnapshot u \<and> same_links u t"
proof -
  let ?b = "cpa_BlockchainId m" and ?i = "cpa_ConsInstID m"
  let ?v = "u\<lparr>vgTxMeta_hash := nset (vgTxMeta_hash u) ?b ?i (cpa_TotalHash m)\<rparr>"
  have "nget (valiConsJobStack ?v) ?b ?i \<in> {None, Some 0}" using job by simp
  from cons_job_token [OF this] obtain w where w: "cons_job ?b ?i ?v = Done () w"
    "cons_job_send ?b ?i w = Done () (?v\<lparr>valiConsJobStack := nset (valiConsJobStack ?v) ?b ?i 1\<rparr>)" by blast
  let ?x = "?v\<lparr>valiConsJobStack := nset (valiConsJobStack ?v) ?b ?i 1\<rparr>"
  let ?r = "CPAReply \<lparr>cpar_BlockchainId = ?b, cpar_ConsInstID = ?i, cpar_ParSig = sig\<rparr>"
  have "CA_sign ky en c m (Some d) u
      = thenG (cons_job ?b ?i) (thenG (cons_job_send ?b ?i) (thenG (reply_to en c ?r (Some d) ?b CPA CPA) (bindG (nowG en) (\<lambda>_. ret ())))) ?v"
    using keys sig by (simp add: CA_sign_def)
  also have "\<dots> = thenG (reply_to en c ?r (Some d) ?b CPA CPA) (bindG (nowG en) (\<lambda>_. ret ())) ?x"
    unfolding thenG_Done [of "cons_job ?b ?i", OF w(1)] thenG_Done [of "cons_job_send ?b ?i", OF w(2)] ..
  finally have "CA_sign ky en c m (Some d) u = thenG (reply_to en c ?r (Some d) ?b CPA CPA) (bindG (nowG en) (\<lambda>_. ret ())) ?x" .
  moreover have "same_links u ?x" by (simp add: same_links_def)
  then have "answers en c ?x ?b CPA" using direct by (simp add: answers_links)
  note reply_to_direct [OF this]
  ultimately show ?thesis
    by (simp add: replied_fields outbox_def) (simp add: replied_def look_def same_links_def)
qed

text \<open>
  A certificate carried by a commit entry that the validator can use: it verifies under the keys of its booth, its hash is
  the one the entry gives for the block, and the ordering entry of the block is not half handled.
\<close>

definition range_hash :: "ProposerCPAEntry \<Rightarrow> int64 \<Rightarrow> bytes" where
  "range_hash m i = (case map_of (cpa_RangeHash m) i of None \<Rightarrow> [] | Some h \<Rightarrow> h)"

definition carried :: "('sc, 'pt, 'pub) kyber \<Rightarrow> cfg \<Rightarrow> ProposerCPAEntry \<Rightarrow> node \<Rightarrow> ProposerOPBEntry \<Rightarrow> bool" where
  "carried ky c m s e \<longleftrightarrow> opb_BlockchainId e = cpa_BlockchainId m \<and> Indices (opb_Booth e) \<noteq> [] \<and> opb_Hash e = range_hash m (opb_BlockId e)
     \<and> (\<exists>pub pri. fetchKeysByBoothId ky (getThreshold (int (length (Indices (opb_Booth e))))) (ServerID c) (ID (opb_Booth e)) (opb_BlockchainId e) s
          = Done (pub, pri) s \<and> PenVerify ky (opb_Hash e) (opb_CombSig e) pub)
     \<and> (nget (ordSnapshot s) (opb_BlockchainId e) (opb_BlockId e) \<noteq> None \<longrightarrow> nget (cmtSnapshot s) (opb_BlockchainId e) (opb_BlockId e) \<noteq> None)"

text \<open>A stored block that does not contradict the entry.\<close>

definition agreed :: "ProposerCPAEntry \<Rightarrow> (int, int64, blockSnapshot) nmap \<Rightarrow> int64 \<Rightarrow> bool" where
  "agreed m cm i \<longleftrightarrow> (\<forall>f. nget cm (cpa_BlockchainId m) i = Some f \<longrightarrow> hash f = range_hash m i \<and> Indices (booth f) \<noteq> [])"

lemma agreed_matches: "agreed m (cmtSnapshot s) i \<longleftrightarrow> range_matches m s i
    \<and> (\<forall>f. nget (cmtSnapshot s) (cpa_BlockchainId m) i = Some f \<longrightarrow> Indices (booth f) \<noteq> [])"
  by (auto simp: agreed_def range_matches_def range_hash_def)

lemma carried_state:
  assumes "carried ky c m s e" "files t = files s" "ordSnapshot t = ordSnapshot s"
    and "\<And>i. nget (cmtSnapshot s) (cpa_BlockchainId m) i \<noteq> None \<Longrightarrow> nget (cmtSnapshot t) (cpa_BlockchainId m) i \<noteq> None"
  shows "carried ky c m t e"
  using assms(1,3,4) fetchKeys_files [OF _ assms(2)] unfolding carried_def by (metis (no_types, lifting))

lemma carried_one:
  assumes "carried ky c m s e" "agreed m (cmtSnapshot s) (opb_BlockId e)"
  shows "\<exists>f. validatingOBEntry ky c e None s = Done () (s\<lparr>cmtSnapshot := nset (cmtSnapshot s) (cpa_BlockchainId m) (opb_BlockId e) f\<rparr>)
    \<and> hash f = range_hash m (opb_BlockId e) \<and> Indices (booth f) \<noteq> [] \<and> tSig f = opb_CombSig e"
proof (cases "nget (ordSnapshot s) (cpa_BlockchainId m) (opb_BlockId e)")
  case None
  then show ?thesis using assms(1)
    by (intro exI [of _ "OB_snapshot e"]) (auto simp: carried_def validatingOBEntry_def OB_snapshot_def)
next
  case (Some g)
  then obtain f where f: "nget (cmtSnapshot s) (cpa_BlockchainId m) (opb_BlockId e) = Some f" using assms(1) by (auto simp: carried_def)
  then show ?thesis using assms Some
    by (intro exI [of _ "f\<lparr>tSig := opb_CombSig e\<rparr>"]) (auto simp: carried_def validatingOBEntry_def OB_attach_def agreed_def)
qed

text \<open>After all carried certificates the blocks they are for are stored, and none contradicts the entry.\<close>

lemma carried_all:
  assumes "\<forall>e \<in> set es. carried ky c m s e \<and> agreed m (cmtSnapshot s) (opb_BlockId e)"
  shows "\<exists>cm. forG es (\<lambda>e. validatingOBEntry ky c e None) s = Done () (s\<lparr>cmtSnapshot := cm\<rparr>)
    \<and> (\<forall>i. agreed m (cmtSnapshot s) i \<longrightarrow> agreed m cm i)
    \<and> (\<forall>i. nget cm (cpa_BlockchainId m) i = nget (cmtSnapshot s) (cpa_BlockchainId m) i
         \<or> (\<exists>e \<in> set es. opb_BlockId e = i \<and> (\<exists>f. nget cm (cpa_BlockchainId m) i = Some f \<and> tSig f = opb_CombSig e)))
    \<and> (\<forall>e \<in> set es. \<exists>e' \<in> set es. opb_BlockId e' = opb_BlockId e \<and> (\<exists>f. nget cm (cpa_BlockchainId m) (opb_BlockId e) = Some f \<and> tSig f = opb_CombSig e'))"
  using assms
proof (induction es arbitrary: s)
  case Nil
  then show ?case by (intro exI [of _ "cmtSnapshot s"]) simp
next
  case (Cons e es)
  let ?b = "cpa_BlockchainId m" and ?i = "opb_BlockId e"
  have "carried ky c m s e" "agreed m (cmtSnapshot s) ?i" using Cons.prems by simp_all
  from carried_one [OF this] obtain f where f: "validatingOBEntry ky c e None s = Done () (s\<lparr>cmtSnapshot := nset (cmtSnapshot s) ?b ?i f\<rparr>)"
    "hash f = range_hash m ?i" "Indices (booth f) \<noteq> []" "tSig f = opb_CombSig e" by blast
  let ?t = "s\<lparr>cmtSnapshot := nset (cmtSnapshot s) ?b ?i f\<rparr>"
  have keep: "agreed m (cmtSnapshot s) j \<Longrightarrow> agreed m (cmtSnapshot ?t) j" for j using f(2,3) by (simp add: agreed_def)
  have "\<forall>e' \<in> set es. carried ky c m ?t e' \<and> agreed m (cmtSnapshot ?t) (opb_BlockId e')"
  proof
    fix e' assume "e' \<in> set es"
    then have "carried ky c m s e'" "agreed m (cmtSnapshot s) (opb_BlockId e')" using Cons.prems by simp_all
    then show "carried ky c m ?t e' \<and> agreed m (cmtSnapshot ?t) (opb_BlockId e')" using carried_state [of ky c m s e' ?t] keep by simp
  qed
  from Cons.IH [OF this] obtain cm where cm: "forG es (\<lambda>e. validatingOBEntry ky c e None) ?t = Done () (?t\<lparr>cmtSnapshot := cm\<rparr>)"
    "\<forall>i. agreed m (cmtSnapshot ?t) i \<longrightarrow> agreed m cm i"
    "\<forall>i. nget cm ?b i = nget (cmtSnapshot ?t) ?b i \<or> (\<exists>e \<in> set es. opb_BlockId e = i \<and> (\<exists>f. nget cm ?b i = Some f \<and> tSig f = opb_CombSig e))"
    "\<forall>e \<in> set es. \<exists>e' \<in> set es. opb_BlockId e' = opb_BlockId e \<and> (\<exists>f. nget cm ?b (opb_BlockId e) = Some f \<and> tSig f = opb_CombSig e')"
    by blast
  have new: "\<exists>e' \<in> set (e # es). opb_BlockId e' = ?i \<and> (\<exists>f. nget cm ?b ?i = Some f \<and> tSig f = opb_CombSig e')"
    using cm(3) [rule_format, of ?i] f(4) by auto
  have other: "nget cm ?b i = nget (cmtSnapshot s) ?b i \<or> (\<exists>e \<in> set (e # es). opb_BlockId e = i \<and> (\<exists>f. nget cm ?b i = Some f \<and> tSig f = opb_CombSig e))" for i
    using cm(3) [rule_format, of i] new by (cases "i = ?i") auto
  show ?case
  proof (rule exI [of _ cm], intro conjI)
    show "forG (e # es) (\<lambda>e. validatingOBEntry ky c e None) s = Done () (s\<lparr>cmtSnapshot := cm\<rparr>)" using f(1) cm(1) by simp
    show "\<forall>i. agreed m (cmtSnapshot s) i \<longrightarrow> agreed m cm i" using cm(2) keep by blast
    show "\<forall>i. nget cm ?b i = nget (cmtSnapshot s) ?b i
        \<or> (\<exists>e \<in> set (e # es). opb_BlockId e = i \<and> (\<exists>f. nget cm ?b i = Some f \<and> tSig f = opb_CombSig e))" using other by blast
    show "\<forall>e' \<in> set (e # es). \<exists>e'' \<in> set (e # es). opb_BlockId e'' = opb_BlockId e'
        \<and> (\<exists>f. nget cm ?b (opb_BlockId e') = Some f \<and> tSig f = opb_CombSig e'')" using cm(4) new by auto
  qed
qed

text \<open>The stored blocks after a commit entry: those from before, or with a certificate the entry carried.\<close>

definition synced :: "ProposerCPAEntry \<Rightarrow> node \<Rightarrow> node \<Rightarrow> bool" where
  "synced m s t \<longleftrightarrow> (\<forall>i. nget (cmtSnapshot t) (cpa_BlockchainId m) i = nget (cmtSnapshot s) (cpa_BlockchainId m) i
       \<or> (\<exists>e \<in> set (cpa_PrevOPBEntries m). opb_BlockId e = i \<and> (\<exists>f. nget (cmtSnapshot t) (cpa_BlockchainId m) i = Some f \<and> tSig f = opb_CombSig e)))
     \<and> (\<forall>e \<in> set (cpa_PrevOPBEntries m). \<exists>e' \<in> set (cpa_PrevOPBEntries m). opb_BlockId e' = opb_BlockId e
       \<and> (\<exists>f. nget (cmtSnapshot t) (cpa_BlockchainId m) (opb_BlockId e) = Some f \<and> tSig f = opb_CombSig e'))
     \<and> (\<forall>i \<in> set (cpa_BIDs m). agreed m (cmtSnapshot t) i)"

lemma CA_run:
  assumes prev: "\<forall>e \<in> set (cpa_PrevOPBEntries m). carried ky c m s e \<and> opb_BlockId e \<in> set (cpa_BIDs m)" and ids: "cpa_BIDs m \<noteq> []"
    and match: "\<forall>i \<in> set (cpa_BIDs m). agreed m (cmtSnapshot s) i"
    and keys: "fetchKeysByBoothId ky (getThreshold (int (length (Indices (cpa_Booth m))))) (ServerID c) (ID (cpa_Booth m)) (cpa_BlockchainId m) s = Done (pub, pri) s"
    and sig: "PenSign ky (cpa_TotalHash m) pri = Some sig" and direct: "answers en c s (cpa_BlockchainId m) CPA"
    and job: "nget (valiConsJobStack s) (cpa_BlockchainId m) (cpa_ConsInstID m) \<in> {None, Some 0}"
  shows "\<exists>t. validatingCAEntry ky en c m (Some d) s = Done () t
    \<and> outbox t = outbox s @ [(d, CPAReply \<lparr>cpar_BlockchainId = cpa_BlockchainId m, cpar_ConsInstID = cpa_ConsInstID m, cpar_ParSig = sig\<rparr>)]
    \<and> nget (vgTxMeta_hash t) (cpa_BlockchainId m) (cpa_ConsInstID m) = Some (cpa_TotalHash m)
    \<and> nget (valiConsJobStack t) (cpa_BlockchainId m) (cpa_ConsInstID m) = Some 1 \<and> files t = files s \<and> ordSnapshot t = ordSnapshot s \<and> synced m s t
    \<and> same_links s t"
proof -
  let ?b = "cpa_BlockchainId m" and ?i = "cpa_ConsInstID m"
  have start: "\<forall>e \<in> set (cpa_PrevOPBEntries m). carried ky c m (tx_reset m s) e \<and> agreed m (cmtSnapshot (tx_reset m s)) (opb_BlockId e)"
    using prev match carried_state [of ky c m s _ "tx_reset m s"] by (simp add: tx_reset_def)
  from carried_all [OF this] obtain cm where cm: "forG (cpa_PrevOPBEntries m) (\<lambda>e. validatingOBEntry ky c e None) (tx_reset m s) = Done () ((tx_reset m s)\<lparr>cmtSnapshot := cm\<rparr>)"
    "\<forall>i. agreed m (cmtSnapshot s) i \<longrightarrow> agreed m cm i"
    "\<forall>i. nget cm ?b i = nget (cmtSnapshot s) ?b i
         \<or> (\<exists>e \<in> set (cpa_PrevOPBEntries m). opb_BlockId e = i \<and> (\<exists>f. nget cm ?b i = Some f \<and> tSig f = opb_CombSig e))"
    "\<forall>e \<in> set (cpa_PrevOPBEntries m). \<exists>e' \<in> set (cpa_PrevOPBEntries m). opb_BlockId e' = opb_BlockId e
         \<and> (\<exists>f. nget cm ?b (opb_BlockId e) = Some f \<and> tSig f = opb_CombSig e')"
    by (auto simp: tx_reset_def)
  let ?s = "(tx_reset m s)\<lparr>cmtSnapshot := cm\<rparr>"
  have ok: "\<forall>j \<in> set (cpa_BIDs m). agreed m cm j" using match cm(2) by blast
  have "nget (vgTxData_tx ?s) ?b ?i \<noteq> None" by (simp add: tx_reset_def)
  moreover have "\<forall>j \<in> set (cpa_BIDs m). range_matches m ?s j \<and> (\<forall>f. nget (cmtSnapshot ?s) ?b j = Some f \<longrightarrow> Indices (booth f) \<noteq> [])"
    using ok agreed_matches [of m ?s] by simp
  ultimately obtain u where u: "whileG (cpa_BIDs m) (CA_block en m) () ?s = Done (Some ()) u" "data_frame ?s u"
    using CA_loop_run [of ?s m "cpa_BIDs m" en] by metis
  note F = data_frame_fields [OF u(2)]
  have k: "fetchKeysByBoothId ky (getThreshold (int (length (Indices (cpa_Booth m))))) (ServerID c) (ID (cpa_Booth m)) ?b u = Done (pub, pri) u"
    by (rule fetchKeys_files [OF keys]) (simp add: F tx_reset_def)
  have "same_links s ?s" by (simp add: same_links_def tx_reset_def)
  then have links: "same_links s u" using F(15) by (rule same_links_trans)
  then have dir: "answers en c u ?b CPA" using direct by (simp add: answers_links)
  have "validatingCAEntry ky en c m (Some d) s = CA_sign ky en c m (Some d) u"
    using cm(1) ids u(1) by (simp add: validatingCAEntry_def tx_reset_def)
  moreover have "\<exists>t. CA_sign ky en c m (Some d) u = Done () t
    \<and> outbox t = outbox u @ [(d, CPAReply \<lparr>cpar_BlockchainId = ?b, cpar_ConsInstID = ?i, cpar_ParSig = sig\<rparr>)]
    \<and> nget (vgTxMeta_hash t) ?b ?i = Some (cpa_TotalHash m) \<and> nget (valiConsJobStack t) ?b ?i = Some 1 \<and> files t = files u
    \<and> ordSnapshot t = ordSnapshot u \<and> cmtSnapshot t = cmtSnapshot u \<and> same_links u t"
    by (rule CA_sign_run [OF k sig dir]) (use job in \<open>simp add: F tx_reset_def\<close>)
  moreover have "outbox u = outbox s" "files u = files s" "ordSnapshot u = ordSnapshot s" "cmtSnapshot u = cm"
    by (simp_all add: outbox_def F tx_reset_def)
  moreover have "synced m s t" if "cmtSnapshot t = cm" for t using cm(3,4) ok by (simp add: synced_def that)
  ultimately show ?thesis using same_links_trans [OF links] by auto
qed

text \<open>The validator signs the commit digest it is sent: when no stored block of the range contradicts the hashes of the entry, the
  answer is its signature of \<open>TotalHash\<close>, whatever \<open>TotalHash\<close> is (it is not recomputed from the hashes of the range) and
  even if the validator has never seen the blocks; the digest is stored, and one commit certificate is let through.\<close>

theorem CA_signs_total_hash:
  assumes prev: "cpa_PrevOPBEntries m = []" and ids: "cpa_BIDs m \<noteq> []"
    and match: "\<forall>i \<in> set (cpa_BIDs m). range_matches m s i \<and> (\<forall>f. nget (cmtSnapshot s) (cpa_BlockchainId m) i = Some f \<longrightarrow> Indices (booth f) \<noteq> [])"
    and keys: "fetchKeysByBoothId ky (getThreshold (int (length (Indices (cpa_Booth m))))) (ServerID c) (ID (cpa_Booth m)) (cpa_BlockchainId m) s = Done (pub, pri) s"
    and sig: "PenSign ky (cpa_TotalHash m) pri = Some sig" and direct: "answers en c s (cpa_BlockchainId m) CPA"
    and job: "nget (valiConsJobStack s) (cpa_BlockchainId m) (cpa_ConsInstID m) \<in> {None, Some 0}"
  shows "\<exists>t. validatingCAEntry ky en c m (Some d) s = Done () t
    \<and> outbox t = outbox s @ [(d, CPAReply \<lparr>cpar_BlockchainId = cpa_BlockchainId m, cpar_ConsInstID = cpa_ConsInstID m, cpar_ParSig = sig\<rparr>)]
    \<and> nget (vgTxMeta_hash t) (cpa_BlockchainId m) (cpa_ConsInstID m) = Some (cpa_TotalHash m)
    \<and> nget (valiConsJobStack t) (cpa_BlockchainId m) (cpa_ConsInstID m) = Some 1"
  using CA_run [of m ky c s, OF _ ids _ keys sig direct job, of d] prev match agreed_matches [of m s] by simp blast

lemma CB_run:
  assumes keys: "fetchKeysByBoothId ky (getThreshold (int (length (Indices (cpb_Booth m))))) (ServerID c) (ID (cpb_Booth m)) (cpb_BlockchainId m) s = Done (pub, pri) s"
    and token: "nget (valiConsJobStack s) (cpb_BlockchainId m) (cpb_ConsInstID m) = Some 1"
  shows "validatingCBEntry ky c m s = Done (PenVerify ky (cpb_Hash m) (cpb_ComSig m) pub)
    (s\<lparr>valiConsJobStack := nset (valiConsJobStack s) (cpb_BlockchainId m) (cpb_ConsInstID m) 0\<rparr>)"
proof -
  let ?t = "s\<lparr>valiConsJobStack := nset (valiConsJobStack s) (cpb_BlockchainId m) (cpb_ConsInstID m) 0\<rparr>"
  have "fetchKeysByBoothId ky (getThreshold (int (length (Indices (cpb_Booth m))))) (ServerID c) (ID (cpb_Booth m)) (cpb_BlockchainId m) ?t = Done (pub, pri) ?t"
    by (rule fetchKeys_files [OF keys]) simp
  then show ?thesis using token by (simp add: validatingCBEntry_def cons_job_run cons_job_receive_def)
qed

text \<open>A commit certificate is judged only after the validator signed the instance: before, the handler waits; each
  signed commit entry lets exactly one certificate through, which is accepted exactly when it verifies under
  the key of its booth.\<close>

theorem CB_after_CA:
  assumes keys: "fetchKeysByBoothId ky (getThreshold (int (length (Indices (cpb_Booth m))))) (ServerID c) (ID (cpb_Booth m)) (cpb_BlockchainId m) s = Done (pub, pri) s"
  shows "(nget (valiConsJobStack s) (cpb_BlockchainId m) (cpb_ConsInstID m) \<noteq> Some 1 \<longrightarrow> (\<exists>t. validatingCBEntry ky c m s = Blocked t))
    \<and> (nget (valiConsJobStack s) (cpb_BlockchainId m) (cpb_ConsInstID m) = Some 1 \<longrightarrow>
        (\<exists>t. validatingCBEntry ky c m s = Done (PenVerify ky (cpb_Hash m) (cpb_ComSig m) pub) t
           \<and> (\<exists>t'. validatingCBEntry ky c m t = Blocked t')))"
proof -
  let ?b = "cpb_BlockchainId m" and ?i = "cpb_ConsInstID m"
  have wait: "\<exists>t. validatingCBEntry ky c m s = Blocked t" if "nget (valiConsJobStack s) ?b ?i \<noteq> Some 1" for s
  proof -
    let ?u = "s\<lparr>valiConsJobStack := nset (valiConsJobStack s) ?b ?i (case nget (valiConsJobStack s) ?b ?i of None \<Rightarrow> 0 | Some k \<Rightarrow> k)\<rparr>"
    have "cons_job_receive ?b ?i ?u = Blocked ?u" using that by (auto simp add: cons_job_receive_def split: option.split)
    then show ?thesis unfolding validatingCBEntry_def thenG_Done [of "cons_job ?b ?i", OF cons_job_run] by simp
  qed
  show ?thesis
  proof (cases "nget (valiConsJobStack s) ?b ?i = Some 1")
    case True
    let ?t = "s\<lparr>valiConsJobStack := nset (valiConsJobStack s) ?b ?i 0\<rparr>"
    have "validatingCBEntry ky c m s = Done (PenVerify ky (cpb_Hash m) (cpb_ComSig m) pub) ?t" by (rule CB_run [OF keys True])
    then show ?thesis using wait [of ?t] True by simp
  qed (use wait in simp)
qed

section \<open>Witnesses\<close>

text \<open>Validator 12 of chain 10 with the keys of booth 3.\<close>

definition vali_cfg :: cfg where
  "vali_cfg = demo_cfg\<lparr>ServerID := 12\<rparr>"

definition vali_booth :: Booth where
  "vali_booth = \<lparr>ID = 3, Indices = [10, 11, 12, 13]\<rparr>"

definition vali_node :: "(string \<rightharpoonup> string) \<Rightarrow> node" where
  "vali_node fs = init_node\<lparr>files := fs\<rparr>"

lemma vali_keys:
  "\<exists>fs. \<forall>s. files s = fs \<longrightarrow> fetchKeysByBoothId demo_kyber (getThreshold (int (length (Indices vali_booth)))) (ServerID vali_cfg) (ID vali_booth) 10 s
     = Done ([7, 9], \<lparr>I = 12, V = 12\<rparr>) s"
proof -
  obtain fs where run: "generator_main demo_kyber [7, 9] 14 3 10 Map.empty = Inr fs"
    using generator_main_total [OF demo_kyber_encodes] by (metis list.distinct(1))
  have "fetchKeysByBoothId demo_kyber 2 12 3 10 s = Done ([7, 9], \<lparr>I = 12, V = 12\<rparr>) s" if "files s = fs" for s
    using fetchKeys_generated [OF demo_kyber_encodes, where i = 12 and n = 14 and chain = 10 and coeffs = "[7, 9]"
        and boothId = 3 and f = Map.empty and s = s] run that
    by (simp add: demo_kyber_def)
  then show ?thesis by (auto simp: vali_booth_def vali_cfg_def getThreshold_def go_div_def)
qed

definition vali_OA :: ProposerOPAEntry where
  "vali_OA = \<lparr>opa_Booth = vali_booth, opa_BlockId = 7, opa_BlockchainId = 10, opa_Entries = [], opa_Hash = [1, 2]\<rparr>"

definition vali_OB :: "bytes \<Rightarrow> ProposerOPBEntry" where
  "vali_OB h = \<lparr>opb_Booth = vali_booth, opb_BlockchainId = 10, opb_BlockId = 7, opb_CombSig = 255 # h, opb_Entries = [], opb_Hash = h\<rparr>"

definition vali_CA :: ProposerCPAEntry where
  "vali_CA = \<lparr>cpa_PrevOPBEntries = [], cpa_Booth = vali_booth, cpa_BlockchainId = 10, cpa_BIDs = [7], cpa_ConsInstID = 0,
     cpa_RangeHash = [(7, [1, 2])], cpa_TotalHash = [66]\<rparr>"

definition vali_CB :: ProposerCPBEntry where
  "vali_CB = \<lparr>cpb_Booth = vali_booth, cpb_BlockchainId = 10, cpb_ConsInstID = 0, cpb_ComSig = [255, 66], cpb_Hash = [66]\<rparr>"

definition vali_stored :: "(string \<rightharpoonup> string) \<Rightarrow> node" where
  "vali_stored fs = (vali_node fs)\<lparr>ordSnapshot := nset Map.empty 10 7 (OA_snapshot vali_OA), cmtSnapshot := nset Map.empty 10 7 (OA_snapshot vali_OA),
     valiConsJobStack := nset Map.empty 10 0 1\<rparr>"

lemma vali_facts: "outbox (vali_node fs) = []" "opa_BlockchainId vali_OA = 10" "opa_BlockId vali_OA = 7"
  "cpa_BlockchainId vali_CA = 10" "cpa_ConsInstID vali_CA = 0" "outbox ((vali_stored fs)\<lparr>valiConsJobStack := x\<rparr>) = []"
  by (simp_all add: vali_OA_def vali_CA_def outbox_def vali_stored_def vali_node_def init_node_def)

theorem OA_answered_once_witness:
  "\<exists>fs t. validatingOAEntry demo_kyber demo_env vali_cfg vali_OA (Some (Dialog OPA 10)) (vali_node fs) = Done () t
    \<and> outbox t = [(Dialog OPA 10, OPAReply \<lparr>opar_BlockchainId = 10, opar_BlockId = 7, opar_ParSig = [12, 1, 2]\<rparr>)]"
proof -
  obtain fs where keys: "\<And>s. files s = fs \<Longrightarrow> fetchKeysByBoothId demo_kyber (getThreshold (int (length (Indices vali_booth)))) (ServerID vali_cfg) (ID vali_booth) 10 s
     = Done ([7, 9], \<lparr>I = 12, V = 12\<rparr>) s" using vali_keys by blast
  have k: "fetchKeysByBoothId demo_kyber (getThreshold (int (length (Indices (opa_Booth vali_OA))))) (ServerID vali_cfg) (ID (opa_Booth vali_OA)) (opa_BlockchainId vali_OA) (vali_node fs)
     = Done ([7, 9], \<lparr>I = 12, V = 12\<rparr>) (vali_node fs)"
    using keys [of "vali_node fs"] by (simp add: vali_OA_def vali_node_def)
  have sig: "PenSign demo_kyber (opa_Hash vali_OA) \<lparr>I = 12, V = 12\<rparr> = Some [12, 1, 2]"
    by (simp add: PenSign_def demo_kyber_def vali_OA_def)
  have "nget (ordSnapshot (vali_node fs)) (opa_BlockchainId vali_OA) (opa_BlockId vali_OA) = None"
    "nget (valiOrdJobStack (vali_node fs)) (opa_BlockchainId vali_OA) (opa_BlockId vali_OA) = None" "answers demo_env vali_cfg (vali_node fs) (opa_BlockchainId vali_OA) OPA"
    by (simp_all add: vali_node_def init_node_def vali_cfg_def demo_cfg_def answers_def)
  note pre = this
  obtain t where "validatingOAEntry demo_kyber demo_env vali_cfg vali_OA (Some (Dialog OPA 10)) (vali_node fs) = Done () t"
    "outbox t = outbox (vali_node fs) @ [(Dialog OPA 10, OPAReply \<lparr>opar_BlockchainId = opa_BlockchainId vali_OA, opar_BlockId = opa_BlockId vali_OA, opar_ParSig = [12, 1, 2]\<rparr>)]"
    using OA_answered_once [OF pre(1,2) k sig pre(3), of "Dialog OPA 10"] by blast
  then show ?thesis unfolding vali_facts append_Nil by blast
qed

theorem OB_hash_not_compared_witness:
  "\<exists>fs. validatingOBEntry demo_kyber vali_cfg (vali_OB [6, 6]) (Some (Dialog OPB 10)) (vali_stored fs)
     = Done () ((vali_stored fs)\<lparr>cmtSnapshot := nset (cmtSnapshot (vali_stored fs)) 10 7 ((OA_snapshot vali_OA)\<lparr>tSig := [255, 6, 6]\<rparr>)\<rparr>)"
proof -
  obtain fs where keys: "\<And>s. files s = fs \<Longrightarrow> fetchKeysByBoothId demo_kyber (getThreshold (int (length (Indices vali_booth)))) (ServerID vali_cfg) (ID vali_booth) 10 s
     = Done ([7, 9], \<lparr>I = 12, V = 12\<rparr>) s" using vali_keys by blast
  have k: "fetchKeysByBoothId demo_kyber (getThreshold (int (length (Indices (opb_Booth (vali_OB [6, 6])))))) (ServerID vali_cfg) (ID (opb_Booth (vali_OB [6, 6]))) (opb_BlockchainId (vali_OB [6, 6])) (vali_stored fs)
     = Done ([7, 9], \<lparr>I = 12, V = 12\<rparr>) (vali_stored fs)"
    using keys [of "vali_stored fs"] by (simp add: vali_OB_def vali_node_def vali_stored_def)
  have "PenVerify demo_kyber (opb_Hash (vali_OB [6, 6])) (opb_CombSig (vali_OB [6, 6])) [7, 9]"
    "nget (ordSnapshot (vali_stored fs)) (opb_BlockchainId (vali_OB [6, 6])) (opb_BlockId (vali_OB [6, 6])) = Some (OA_snapshot vali_OA)"
    "nget (cmtSnapshot (vali_stored fs)) (opb_BlockchainId (vali_OB [6, 6])) (opb_BlockId (vali_OB [6, 6])) = Some (OA_snapshot vali_OA)"
    "hash (OA_snapshot vali_OA) \<noteq> opb_Hash (vali_OB [6, 6])"
    by (simp_all add: PenVerify_def demo_kyber_def vali_OB_def vali_stored_def OA_snapshot_def vali_OA_def)
  from OB_hash_not_compared [OF k this] show ?thesis by (intro exI [of _ fs]) (simp add: vali_OB_def)
qed

theorem OB_before_store_stops_witness:
  "\<exists>fs. validatingOBEntry demo_kyber vali_cfg (vali_OB [1, 2]) (Some (Dialog OPB 10))
      ((vali_node fs)\<lparr>ordSnapshot := nset Map.empty 10 7 (OA_snapshot vali_OA)\<rparr>)
     = Panicked NilMapWrite ((vali_node fs)\<lparr>ordSnapshot := nset Map.empty 10 7 (OA_snapshot vali_OA)\<rparr>)"
proof -
  obtain fs where keys: "\<And>s. files s = fs \<Longrightarrow> fetchKeysByBoothId demo_kyber (getThreshold (int (length (Indices vali_booth)))) (ServerID vali_cfg) (ID vali_booth) 10 s
     = Done ([7, 9], \<lparr>I = 12, V = 12\<rparr>) s" using vali_keys by blast
  let ?s = "(vali_node fs)\<lparr>ordSnapshot := nset Map.empty 10 7 (OA_snapshot vali_OA)\<rparr>" and ?m = "vali_OB [1, 2]"
  have k: "fetchKeysByBoothId demo_kyber (getThreshold (int (length (Indices (opb_Booth ?m))))) (ServerID vali_cfg) (ID (opb_Booth ?m)) (opb_BlockchainId ?m) ?s
     = Done ([7, 9], \<lparr>I = 12, V = 12\<rparr>) ?s"
    using keys [of ?s] by (simp add: vali_OB_def vali_node_def)
  have "PenVerify demo_kyber (opb_Hash ?m) (opb_CombSig ?m) [7, 9]"
    "nget (ordSnapshot ?s) (opb_BlockchainId ?m) (opb_BlockId ?m) = Some (OA_snapshot vali_OA)"
    "nget (cmtSnapshot ?s) (opb_BlockchainId ?m) (opb_BlockId ?m) = None"
    "nget (valiOrdJobStack ?s) (opb_BlockchainId ?m) (opb_BlockId ?m) \<noteq> Some 1" "valiOrdJobStack ?s (opb_BlockchainId ?m) = None"
    by (simp_all add: PenVerify_def demo_kyber_def vali_OB_def vali_node_def init_node_def)
  with OB_before_store_stops [OF k this(1-4)] show ?thesis by blast
qed

theorem CA_refuses_mismatch_witness:
  "\<exists>t'. validatingCAEntry demo_kyber demo_env vali_cfg (vali_CA\<lparr>cpa_RangeHash := [(7, [3])]\<rparr>) (Some (Dialog CPA 10)) (vali_stored Map.empty) = Done () t'
    \<and> sent t' = []"
proof -
  let ?m = "vali_CA\<lparr>cpa_RangeHash := [(7, [3])]\<rparr>"
  have "forG (cpa_PrevOPBEntries ?m) (\<lambda>e. validatingOBEntry demo_kyber vali_cfg e None) (tx_reset ?m (vali_stored Map.empty)) = Done () (tx_reset ?m (vali_stored Map.empty))"
    by (simp add: vali_CA_def)
  moreover have "7 \<in> set (cpa_BIDs ?m)" "\<not> range_matches ?m (tx_reset ?m (vali_stored Map.empty)) 7"
    by (simp_all add: vali_CA_def range_matches_def tx_reset_def vali_stored_def OA_snapshot_def vali_OA_def)
  ultimately obtain t' where "validatingCAEntry demo_kyber demo_env vali_cfg ?m (Some (Dialog CPA 10)) (vali_stored Map.empty) = Done () t'" "sent t' = sent (vali_stored Map.empty)"
    using CA_refuses_mismatch [of ?m demo_kyber vali_cfg "vali_stored Map.empty"] by blast
  then show ?thesis by (simp add: vali_stored_def vali_node_def init_node_def)
qed

theorem CA_signs_total_hash_witness:
  "\<exists>fs t. validatingCAEntry demo_kyber demo_env vali_cfg vali_CA (Some (Dialog CPA 10)) ((vali_stored fs)\<lparr>valiConsJobStack := Map.empty\<rparr>) = Done () t
    \<and> outbox t = [(Dialog CPA 10, CPAReply \<lparr>cpar_BlockchainId = 10, cpar_ConsInstID = 0, cpar_ParSig = [12, 66]\<rparr>)]"
proof -
  obtain fs where keys: "\<And>s. files s = fs \<Longrightarrow> fetchKeysByBoothId demo_kyber (getThreshold (int (length (Indices vali_booth)))) (ServerID vali_cfg) (ID vali_booth) 10 s
     = Done ([7, 9], \<lparr>I = 12, V = 12\<rparr>) s" using vali_keys by blast
  let ?s = "(vali_stored fs)\<lparr>valiConsJobStack := Map.empty\<rparr>"
  have k: "fetchKeysByBoothId demo_kyber (getThreshold (int (length (Indices (cpa_Booth vali_CA))))) (ServerID vali_cfg) (ID (cpa_Booth vali_CA)) (cpa_BlockchainId vali_CA) ?s
     = Done ([7, 9], \<lparr>I = 12, V = 12\<rparr>) ?s"
    using keys [of ?s] by (simp add: vali_CA_def vali_stored_def vali_node_def)
  have pre: "cpa_PrevOPBEntries vali_CA = []" "cpa_BIDs vali_CA \<noteq> []"
    "\<forall>i \<in> set (cpa_BIDs vali_CA). range_matches vali_CA ?s i \<and> (\<forall>f. nget (cmtSnapshot ?s) (cpa_BlockchainId vali_CA) i = Some f \<longrightarrow> Indices (booth f) \<noteq> [])"
    by (simp_all add: vali_CA_def range_matches_def vali_stored_def OA_snapshot_def vali_OA_def vali_booth_def)
  have sig: "PenSign demo_kyber (cpa_TotalHash vali_CA) \<lparr>I = 12, V = 12\<rparr> = Some [12, 66]" by (simp add: PenSign_def demo_kyber_def vali_CA_def)
  have rest: "answers demo_env vali_cfg ?s (cpa_BlockchainId vali_CA) CPA" "nget (valiConsJobStack ?s) (cpa_BlockchainId vali_CA) (cpa_ConsInstID vali_CA) \<in> {None, Some 0}"
    by (simp_all add: vali_cfg_def demo_cfg_def answers_def)
  from CA_signs_total_hash [OF pre k sig rest, of "Dialog CPA 10"] obtain t where
    "validatingCAEntry demo_kyber demo_env vali_cfg vali_CA (Some (Dialog CPA 10)) ?s = Done () t"
    "outbox t = outbox ?s @ [(Dialog CPA 10, CPAReply \<lparr>cpar_BlockchainId = cpa_BlockchainId vali_CA, cpar_ConsInstID = cpa_ConsInstID vali_CA, cpar_ParSig = [12, 66]\<rparr>)]"
    by blast
  then show ?thesis unfolding vali_facts append_Nil by blast
qed

theorem CB_after_CA_witness:
  "\<exists>fs t. validatingCBEntry demo_kyber vali_cfg vali_CB (vali_stored fs) = Done True t \<and> (\<exists>t'. validatingCBEntry demo_kyber vali_cfg vali_CB t = Blocked t')"
proof -
  obtain fs where keys: "\<And>s. files s = fs \<Longrightarrow> fetchKeysByBoothId demo_kyber (getThreshold (int (length (Indices vali_booth)))) (ServerID vali_cfg) (ID vali_booth) 10 s
     = Done ([7, 9], \<lparr>I = 12, V = 12\<rparr>) s" using vali_keys by blast
  have k: "fetchKeysByBoothId demo_kyber (getThreshold (int (length (Indices (cpb_Booth vali_CB))))) (ServerID vali_cfg) (ID (cpb_Booth vali_CB)) (cpb_BlockchainId vali_CB) (vali_stored fs)
     = Done ([7, 9], \<lparr>I = 12, V = 12\<rparr>) (vali_stored fs)"
    using keys [of "vali_stored fs"] by (simp add: vali_CB_def vali_stored_def vali_node_def)
  have "nget (valiConsJobStack (vali_stored fs)) (cpb_BlockchainId vali_CB) (cpb_ConsInstID vali_CB) = Some 1"
    "PenVerify demo_kyber (cpb_Hash vali_CB) (cpb_ComSig vali_CB) [7, 9]"
    by (simp_all add: vali_CB_def vali_stored_def PenVerify_def demo_kyber_def)
  with CB_after_CA [OF k] show ?thesis by auto
qed

end
