(* ===== verification/Loadconf.thy ===== *)
theory Loadconf
  imports Comply
begin

text \<open>
  Start-up parameters (\<open>parameters.go\<close>) and the cluster file (\<open>loadconf.go\<close>): every server has one row for
  each proposer, with the ports it listens on and the ports it dials from.
\<close>

section \<open>Command-line parameters\<close>

definition clamp_period :: "int \<Rightarrow> int" where
  "clamp_period p = (let p1 = (if p < 1 then 1 else p) in if p1 > 10000 then 10000 else p1)"

text \<open>\<open>None\<close>: \<open>log.Fatalf\<close> ends the process.\<close>

fun parse_ids :: "string list \<Rightarrow> int list option" where
  "parse_ids [] = Some []"
| "parse_ids (strId # rest) = (case atoi strId of None \<Rightarrow> None
     | Some i \<Rightarrow> (case parse_ids rest of None \<Rightarrow> None | Some l \<Rightarrow> Some (i # l)))"

text \<open>What \<open>loadCmdParameters\<close> does after \<open>flag.Parse\<close>, on the values of the flags.\<close>

definition loadCmdParameters :: "string \<Rightarrow> 'a cfg_scheme \<Rightarrow> 'a cfg_scheme option" where
  "loadCmdParameters proposerIds c =
     (let c1 = c\<lparr>OrderingPeriodMs := clamp_period (OrderingPeriodMs c)\<rparr> in
      if proposerIds = [] then Some c1
      else (case parse_ids (split_on (CHR '','') proposerIds) of None \<Rightarrow> None
        | Some ids \<Rightarrow> Some (c1\<lparr>ProposerList := ProposerList c1 @ ids\<rparr>)))"

section \<open>The cluster file\<close>

definition idxL :: "'a list \<Rightarrow> nat \<Rightarrow> ('s, 'a) go" where
  "idxL xs i = idxG xs (int i)"

definition zero_ServerInfo :: ServerInfo where
  "zero_ServerInfo = \<lparr>Index = 0, Ip = [], Ports = Map.empty\<rparr>"

text \<open>\<open>row[3]\<close> to \<open>row[12]\<close>: five listener ports, then five dial ports.\<close>

definition row_ports :: "string list \<Rightarrow> nat \<Rightarrow> (int \<rightharpoonup> string) \<Rightarrow> (int \<rightharpoonup> string)" where
  "row_ports row j ports = foldl (\<lambda>m k. m(int k + int j * NOP * 2 \<mapsto> row ! (k + 3))) ports [0..<10]"

definition row_lookup :: "string list \<Rightarrow> ServerInfo \<Rightarrow> (string \<rightharpoonup> int) \<Rightarrow> (string \<rightharpoonup> int)" where
  "row_lookup row sl m = foldl (\<lambda>m k. m(Ip sl @ '':'' @ row ! k \<mapsto> Index sl)) m [8..<13]"

text \<open>The first row of a server gives its number and address.\<close>

definition first_row :: "string list \<Rightarrow> ServerInfo \<Rightarrow> (node, ServerInfo) go" where
  "first_row row sl = bindG (idxL row 0) (\<lambda>r0. case atoi r0 of
     None \<Rightarrow> panicG (PanicMsg ''strconv.Atoi'')
   | Some serverId \<Rightarrow> bindG (idxL row 1) (\<lambda>r1. ret (sl\<lparr>Index := serverId, Ip := r1, Ports := Map.empty\<rparr>)))"

definition other_columns :: "string list \<Rightarrow> nat \<Rightarrow> ServerInfo \<Rightarrow> (node, ServerInfo) go" where
  "other_columns row j sl = bindG (idxL row 12) (\<lambda>_.
     let sl' = sl\<lparr>Ports := row_ports row j (Ports sl)\<rparr> in
     thenG (modG (\<lambda>s. s\<lparr>serverIdLookup := row_lookup row sl' (serverIdLookup s)\<rparr>)) (ret sl'))"

fun parse_server :: "string list \<Rightarrow> nat \<Rightarrow> nat list \<Rightarrow> ServerInfo \<Rightarrow> (node, ServerInfo) go" where
  "parse_server fileRows base [] sl = ret sl"
| "parse_server fileRows base (j # js) sl =
     bindG (idxL fileRows (base + j + 1)) (\<lambda>line.
     let row = split_on (CHR '' '') line in
     bindG (if j = 0 then first_row row sl else ret sl) (\<lambda>sl1.
     bindG (other_columns row j sl1) (\<lambda>sl2.
     parse_server fileRows base js sl2)))"

definition parseConf :: "cfg \<Rightarrow> string option \<Rightarrow> int \<Rightarrow> (node, unit) go" where
  "parseConf c conf numOfServers = (case conf of
     None \<Rightarrow> panicG (PanicMsg ''open'')
   | Some content \<Rightarrow>
     (let fileRows = scan_lines content; np = length (ProposerList c) in
      if int (length fileRows) < numOfServers * int np + 1
      then panicG (PanicMsg ''number of servers in config file does not match with provided $n$'')
      else forG [0..<nat numOfServers] (\<lambda>i.
        bindG (parse_server fileRows (i * np) [0..<np] zero_ServerInfo) (\<lambda>sl.
        if np = 0 then ret () else modG (\<lambda>s. s\<lparr>ServerList := ServerList s @ [sl]\<rparr>)))))"

section \<open>What a well-formed file says\<close>

record server_conf =
  sc_id :: int
  sc_ip :: string
  sc_rows :: "string list list"

text \<open>A row: number, address, a name and ten ports.\<close>

definition conf_row :: "server_conf \<Rightarrow> string list \<Rightarrow> string" where
  "conf_row sc ports = join_on (CHR '' '') (itoa (sc_id sc) # sc_ip sc # ''vg'' # ports)"

definition conf_file :: "string \<Rightarrow> server_conf list \<Rightarrow> string" where
  "conf_file header scs = concat (map (\<lambda>l. l @ [newline]) (header # concat (map (\<lambda>sc. map (conf_row sc) (sc_rows sc)) scs)))"

definition field_ok :: "string \<Rightarrow> bool" where
  "field_ok w \<longleftrightarrow> CHR '' '' \<notin> set w \<and> newline \<notin> set w \<and> carriage \<notin> set w"

definition line_ok :: "string \<Rightarrow> bool" where
  "line_ok l \<longleftrightarrow> newline \<notin> set l \<and> carriage \<notin> set l \<and> length l < 65536"

definition conf_ok :: "nat \<Rightarrow> string \<Rightarrow> server_conf list \<Rightarrow> bool" where
  "conf_ok np header scs \<longleftrightarrow> line_ok header
     \<and> (\<forall>sc \<in> set scs. length (sc_rows sc) = np \<and> field_ok (sc_ip sc) \<and> - (2 ^ 63) \<le> sc_id sc \<and> sc_id sc < 2 ^ 63
         \<and> (\<forall>ports \<in> set (sc_rows sc). length ports = 10 \<and> (\<forall>w \<in> set ports. field_ok w) \<and> line_ok (conf_row sc ports)))"

definition conf_ports :: "server_conf \<Rightarrow> int \<rightharpoonup> string" where
  "conf_ports sc p = (if 0 \<le> p \<and> p < int (length (sc_rows sc)) * 10 then Some (sc_rows sc ! (nat p div 10) ! (nat p mod 10)) else None)"

definition conf_server :: "server_conf \<Rightarrow> ServerInfo" where
  "conf_server sc = \<lparr>Index = sc_id sc, Ip = sc_ip sc, Ports = conf_ports sc\<rparr>"

definition dial_addresses :: "server_conf \<Rightarrow> string set" where
  "dial_addresses sc = {sc_ip sc @ '':'' @ ports ! k | ports k. ports \<in> set (sc_rows sc) \<and> 5 \<le> k \<and> k < 10}"

lemma line_chars: "newline \<noteq> CHR ''-''" "carriage \<noteq> CHR ''-''"
proof -
  have "(of_char newline :: nat) \<noteq> of_char (CHR ''-'')" "(of_char carriage :: nat) \<noteq> of_char (CHR ''-'')" by simp_all
  then show "newline \<noteq> CHR ''-''" "carriage \<noteq> CHR ''-''" by metis+
qed

lemma itoa_field: "field_ok (itoa i)"
  using itoa_chars [of "CHR '' ''" i] itoa_chars [of newline i] itoa_chars [of carriage i] line_chars
  by (auto simp: field_ok_def is_digit_def)

lemma foldl_same: "foldl (\<lambda>m k. m(f k \<mapsto> v)) m ks a = (if a \<in> f ` set ks then Some v else m a)"
  by (induction ks arbitrary: m) auto

lemma row_lookup_get: "row_lookup row sl m a = (if \<exists>k \<in> {8..<13}. a = Ip sl @ '':'' @ row ! k then Some (Index sl) else m a)"
  unfolding row_lookup_def foldl_same set_upt image_iff by (rule refl)

lemma foldl_range: "foldl (\<lambda>m k. m(int k + c \<mapsto> g k)) m [0..<n] p = (if c \<le> p \<and> p < c + int n then Some (g (nat (p - c))) else m p)"
  by (induction n) auto

lemma row_ports_get: "row_ports row j m p = (if int j * 10 \<le> p \<and> p < int j * 10 + 10 then Some (row ! (nat (p - int j * 10) + 3)) else m p)"
  using foldl_range [of "int j * 10" "\<lambda>k. row ! (k + 3)" m 10 p] by (simp add: row_ports_def NOP_def mult.assoc)

definition conf_ports_upto :: "server_conf \<Rightarrow> nat \<Rightarrow> int \<rightharpoonup> string" where
  "conf_ports_upto sc j p = (if 0 \<le> p \<and> p < int j * 10 then Some (sc_rows sc ! (nat p div 10) ! (nat p mod 10)) else None)"

lemma conf_ports_step:
  assumes "row = [a, b, d] @ sc_rows sc ! j"
  shows "row_ports row j (conf_ports_upto sc j) = conf_ports_upto sc (Suc j)"
proof
  fix p
  have "nat p div 10 = j \<and> nat p mod 10 = nat (p - int j * 10)" if "int j * 10 \<le> p" "p < int j * 10 + 10"
  proof -
    define q where "q = nat (p - int j * 10)"
    then have "nat p = j * 10 + q" "q < 10" using that by auto
    then show ?thesis unfolding q_def [symmetric] by simp
  qed
  then show "row_ports row j (conf_ports_upto sc j) p = conf_ports_upto sc (Suc j) p"
    using assms by (auto simp: row_ports_get conf_ports_upto_def)
qed

definition addr_of :: "server_conf \<Rightarrow> nat \<Rightarrow> string set" where
  "addr_of sc j = {sc_ip sc @ '':'' @ sc_rows sc ! j ! k | k. 5 \<le> k \<and> k < 10}"

lemma row_lookup_conf:
  assumes "row = [a, b, d] @ sc_rows sc ! j" "length (sc_rows sc ! j) = 10" "Ip sl = sc_ip sc" "Index sl = sc_id sc"
  shows "row_lookup row sl m x = (if x \<in> addr_of sc j then Some (sc_id sc) else m x)"
proof -
  have "(\<exists>k \<in> {8..<13}. x = Ip sl @ '':'' @ row ! k) \<longleftrightarrow> x \<in> addr_of sc j"
  proof
    assume "\<exists>k \<in> {8..<13}. x = Ip sl @ '':'' @ row ! k"
    then obtain k where k: "8 \<le> k" "k < 13" "x = Ip sl @ '':'' @ row ! k" by auto
    have "row ! k = sc_rows sc ! j ! (k - 3)" using assms(1) k by (simp add: nth_append numeral_3_eq_3)
    then show "x \<in> addr_of sc j" unfolding addr_of_def using k assms(3)
      by (intro CollectI exI [of _ "k - 3"]) auto
  next
    assume "x \<in> addr_of sc j"
    then obtain k where k: "5 \<le> k" "k < 10" "x = sc_ip sc @ '':'' @ sc_rows sc ! j ! k" unfolding addr_of_def by auto
    have "row ! (k + 3) = sc_rows sc ! j ! k" using assms(1) by (simp add: nth_append numeral_3_eq_3)
    then show "\<exists>k \<in> {8..<13}. x = Ip sl @ '':'' @ row ! k" using k assms(3)
      by (intro bexI [of _ "k + 3"]) auto
  qed
  then show ?thesis unfolding row_lookup_get using assms(4) by simp
qed

lemma split_conf_row:
  assumes "field_ok (sc_ip sc)" "\<forall>w \<in> set ports. field_ok w"
  shows "split_on (CHR '' '') (conf_row sc ports) = [itoa (sc_id sc), sc_ip sc, ''vg''] @ ports"
proof -
  have "\<forall>w \<in> set (itoa (sc_id sc) # sc_ip sc # ''vg'' # ports). CHR '' '' \<notin> set w"
    using assms itoa_field [of "sc_id sc"] by (auto simp: field_ok_def)
  then show ?thesis unfolding conf_row_def by (subst split_join) simp_all
qed

lemma idxL_in [simp]: "i < length xs \<Longrightarrow> idxL xs i s = Done (xs ! i) s"
  by (simp add: idxL_def)

text \<open>The server read so far, and the table after some of its rows.\<close>

definition server_upto :: "server_conf \<Rightarrow> nat \<Rightarrow> ServerInfo" where
  "server_upto sc j = \<lparr>Index = sc_id sc, Ip = sc_ip sc, Ports = conf_ports_upto sc j\<rparr>"

definition row_good :: "server_conf \<Rightarrow> nat \<Rightarrow> bool" where
  "row_good sc j \<longleftrightarrow> j < length (sc_rows sc) \<and> length (sc_rows sc ! j) = 10 \<and> field_ok (sc_ip sc) \<and> (\<forall>w \<in> set (sc_rows sc ! j). field_ok w)"

lemma other_columns_run:
  assumes "row = [a, b, d] @ sc_rows sc ! j" "row_good sc j"
  shows "\<exists>L. other_columns row j (server_upto sc j) s = Done (server_upto sc (Suc j)) (s\<lparr>serverIdLookup := L\<rparr>)
    \<and> (\<forall>x. L x = (if x \<in> addr_of sc j then Some (sc_id sc) else serverIdLookup s x))"
proof -
  have len: "length row = 13" using assms by (simp add: row_good_def)
  have upd: "(server_upto sc j)\<lparr>Ports := row_ports row j (Ports (server_upto sc j))\<rparr> = server_upto sc (Suc j)"
    using conf_ports_step [OF assms(1)] by (simp add: server_upto_def)
  have "row_lookup row (server_upto sc (Suc j)) (serverIdLookup s) x = (if x \<in> addr_of sc j then Some (sc_id sc) else serverIdLookup s x)" for x
    by (rule row_lookup_conf [OF assms(1)]) (use assms(2) in \<open>simp_all add: row_good_def server_upto_def\<close>)
  then show ?thesis using len upd
    by (intro exI [of _ "row_lookup row (server_upto sc (Suc j)) (serverIdLookup s)"]) (simp add: other_columns_def Let_def)
qed

lemma parse_server_rest:
  assumes "\<forall>j \<in> set js. 0 < j \<and> row_good sc j \<and> base + j + 1 < length rows \<and> rows ! (base + j + 1) = conf_row sc (sc_rows sc ! j)"
    and "js = [n..<m]"
  shows "\<exists>L. parse_server rows base js (server_upto sc n) s = Done (server_upto sc (max n m)) (s\<lparr>serverIdLookup := L\<rparr>)
    \<and> (\<forall>x. L x = (if \<exists>j \<in> set js. x \<in> addr_of sc j then Some (sc_id sc) else serverIdLookup s x))"
  using assms
proof (induction js arbitrary: n s)
  case Nil
  from Nil(2) [symmetric] have "max n m = n" by (simp add: upt_eq_Nil_conv) linarith
  then show ?case by (intro exI [of _ "serverIdLookup s"]) simp
next
  case (Cons j js)
  have n: "j = n" "js = [Suc n..<m]" "n < m" using Cons.prems(2) [symmetric] by (auto simp: upt_eq_Cons_conv)
  have ok: "0 < j" "row_good sc j" "base + j + 1 < length rows" "rows ! (base + j + 1) = conf_row sc (sc_rows sc ! j)"
    using Cons.prems(1) by auto
  let ?row = "[itoa (sc_id sc), sc_ip sc, ''vg''] @ sc_rows sc ! j"
  have row: "split_on (CHR '' '') (conf_row sc (sc_rows sc ! j)) = ?row"
    using ok(2) by (intro split_conf_row) (auto simp: row_good_def)
  obtain L1 where L1: "other_columns ?row j (server_upto sc j) s = Done (server_upto sc (Suc j)) (s\<lparr>serverIdLookup := L1\<rparr>)"
      "\<forall>x. L1 x = (if x \<in> addr_of sc j then Some (sc_id sc) else serverIdLookup s x)"
    using other_columns_run [OF refl ok(2)] by blast
  obtain L where L: "parse_server rows base js (server_upto sc (Suc n)) (s\<lparr>serverIdLookup := L1\<rparr>)
        = Done (server_upto sc (max (Suc n) m)) (s\<lparr>serverIdLookup := L1\<rparr>\<lparr>serverIdLookup := L\<rparr>)"
      "\<forall>x. L x = (if \<exists>j \<in> set js. x \<in> addr_of sc j then Some (sc_id sc) else L1 x)"
    using Cons.IH [of "Suc n" "s\<lparr>serverIdLookup := L1\<rparr>"] Cons.prems(1) n(2) by auto
  have "parse_server rows base (j # js) (server_upto sc n) s = Done (server_upto sc (max n m)) (s\<lparr>serverIdLookup := L\<rparr>)"
    using ok(1,3,4) row L1(1) L(1) n by (simp add: max_def)
  moreover have "\<forall>x. L x = (if \<exists>i \<in> set (j # js). x \<in> addr_of sc i then Some (sc_id sc) else serverIdLookup s x)"
    using L(2) L1(2) by simp
  ultimately show ?case by blast
qed

lemma parse_server_run:
  assumes "\<forall>j < np. row_good sc j \<and> base + j + 1 < length rows \<and> rows ! (base + j + 1) = conf_row sc (sc_rows sc ! j)"
    and "0 < np" "length (sc_rows sc) = np" and id: "- (2 ^ 63) \<le> sc_id sc" "sc_id sc < 2 ^ 63"
  shows "\<exists>L. parse_server rows base [0..<np] zero_ServerInfo s = Done (conf_server sc) (s\<lparr>serverIdLookup := L\<rparr>)
    \<and> (\<forall>x. L x = (if \<exists>j < np. x \<in> addr_of sc j then Some (sc_id sc) else serverIdLookup s x))"
proof -
  have js: "[0..<np] = 0 # [Suc 0..<np]" using assms(2) by (rule upt_conv_Cons)
  have ok: "row_good sc 0" "base + 0 + 1 < length rows" "rows ! (base + 0 + 1) = conf_row sc (sc_rows sc ! 0)" using assms(1,2) by auto
  let ?row = "[itoa (sc_id sc), sc_ip sc, ''vg''] @ sc_rows sc ! 0"
  have row: "split_on (CHR '' '') (conf_row sc (sc_rows sc ! 0)) = ?row"
    using ok(1) by (intro split_conf_row) (auto simp: row_good_def)
  have first: "first_row ?row zero_ServerInfo s = Done (server_upto sc 0) s"
    using atoi_itoa [OF id] by (simp add: first_row_def zero_ServerInfo_def server_upto_def conf_ports_upto_def fun_eq_iff)
  obtain L1 where L1: "other_columns ?row 0 (server_upto sc 0) s = Done (server_upto sc (Suc 0)) (s\<lparr>serverIdLookup := L1\<rparr>)"
      "\<forall>x. L1 x = (if x \<in> addr_of sc 0 then Some (sc_id sc) else serverIdLookup s x)"
    using other_columns_run [OF refl ok(1)] by blast
  obtain L where L: "parse_server rows base [Suc 0..<np] (server_upto sc (Suc 0)) (s\<lparr>serverIdLookup := L1\<rparr>)
        = Done (server_upto sc (max (Suc 0) np)) (s\<lparr>serverIdLookup := L1\<rparr>\<lparr>serverIdLookup := L\<rparr>)"
      "\<forall>x. L x = (if \<exists>j \<in> set [Suc 0..<np]. x \<in> addr_of sc j then Some (sc_id sc) else L1 x)"
    using parse_server_rest [of "[Suc 0..<np]" sc base rows "Suc 0" np "s\<lparr>serverIdLookup := L1\<rparr>"] assms(1) by auto
  have sl: "server_upto sc (max (Suc 0) np) = conf_server sc"
    using assms(2,3) by (simp add: server_upto_def conf_server_def max_def conf_ports_upto_def conf_ports_def fun_eq_iff)
  have "parse_server rows base [0..<np] zero_ServerInfo s = Done (conf_server sc) (s\<lparr>serverIdLookup := L\<rparr>)"
    unfolding js parse_server.simps Let_def using ok(2,3) row first L1(1) L(1) sl by simp
  moreover have "(\<exists>j < np. x \<in> addr_of sc j) \<longleftrightarrow> x \<in> addr_of sc 0 \<or> (\<exists>j \<in> set [Suc 0..<np]. x \<in> addr_of sc j)" for x
    using assms(2) by (auto simp: Suc_le_eq) (metis atLeastLessThan_iff not0_implies_Suc less_Suc_eq_le Suc_leI neq0_conv)
  ultimately show ?thesis using L(2) L1(2) by (intro exI [of _ L]) auto
qed

section \<open>Reading back a well-formed file\<close>

lemma concat_nth_equal:
  "\<forall>l \<in> set xss. length l = n \<Longrightarrow> i < length xss \<Longrightarrow> j < n \<Longrightarrow> concat xss ! (i * n + j) = xss ! i ! j \<and> i * n + j < length (concat xss)"
proof (induction xss arbitrary: i)
  case (Cons l xss)
  show ?case
  proof (cases i)
    case (Suc k)
    then have "concat xss ! (k * n + j) = xss ! k ! j \<and> k * n + j < length (concat xss)" using Cons by simp
    then show ?thesis using Cons.prems(1) Suc by (simp add: nth_append add.assoc)
  qed (use Cons.prems in \<open>simp add: nth_append\<close>)
qed simp

lemma length_concat_equal: "\<forall>l \<in> set xss. length l = n \<Longrightarrow> length (concat xss) = length xss * n"
  by (induction xss) auto

definition conf_lines :: "server_conf list \<Rightarrow> string list" where
  "conf_lines scs = concat (map (\<lambda>sc. map (conf_row sc) (sc_rows sc)) scs)"

lemma conf_file_lines:
  assumes "conf_ok np header scs"
  shows "scan_lines (conf_file header scs) = header # conf_lines scs"
  unfolding conf_file_def conf_lines_def
  by (rule scan_lines_concat) (use assms in \<open>auto simp: conf_ok_def line_ok_def\<close>)

definition lookup_after :: "server_conf list \<Rightarrow> (string \<rightharpoonup> int) \<Rightarrow> (string \<rightharpoonup> int) \<Rightarrow> bool" where
  "lookup_after scs L L' \<longleftrightarrow> (\<forall>x. (\<forall>sc \<in> set scs. x \<notin> dial_addresses sc) \<longrightarrow> L' x = L x)
     \<and> (\<forall>sc \<in> set scs. \<forall>x \<in> dial_addresses sc. (\<forall>sc' \<in> set scs. x \<in> dial_addresses sc' \<longrightarrow> sc_id sc' = sc_id sc) \<longrightarrow> L' x = Some (sc_id sc))"

lemma addr_of_dial: "(\<exists>j < length (sc_rows sc). x \<in> addr_of sc j) \<longleftrightarrow> x \<in> dial_addresses sc"
  unfolding addr_of_def dial_addresses_def by (auto simp: in_set_conv_nth)

definition server_loop :: "string list \<Rightarrow> nat \<Rightarrow> nat \<Rightarrow> (node, unit) go" where
  "server_loop rows np i = bindG (parse_server rows (i * np) [0..<np] zero_ServerInfo) (\<lambda>sl.
     if np = 0 then ret () else modG (\<lambda>s. s\<lparr>ServerList := ServerList s @ [sl]\<rparr>))"

lemma server_loop_run:
  assumes ok: "conf_ok np header scs" and np: "0 < np" and i: "i < length scs"
  shows "\<exists>L. server_loop (header # conf_lines scs) np i s = Done () (s\<lparr>serverIdLookup := L, ServerList := ServerList s @ [conf_server (scs ! i)]\<rparr>)
    \<and> (\<forall>x. L x = (if x \<in> dial_addresses (scs ! i) then Some (sc_id (scs ! i)) else serverIdLookup s x))"
proof -
  let ?sc = "scs ! i" and ?rows = "header # conf_lines scs"
  have sc: "?sc \<in> set scs" using i by simp
  have len: "\<forall>l \<in> set (map (\<lambda>sc. map (conf_row sc) (sc_rows sc)) scs). length l = np" using ok by (auto simp: conf_ok_def)
  have good: "row_good ?sc j" if "j < np" for j
  proof -
    have "j < length (sc_rows ?sc)" using ok sc that unfolding conf_ok_def by metis
    moreover from this have "sc_rows ?sc ! j \<in> set (sc_rows ?sc)" by simp
    ultimately show ?thesis using ok sc unfolding conf_ok_def row_good_def by blast
  qed
  have "row_good ?sc j \<and> i * np + j + 1 < length ?rows \<and> ?rows ! (i * np + j + 1) = conf_row ?sc (sc_rows ?sc ! j)" if "j < np" for j
    using concat_nth_equal [OF len, of i j] i that good [OF that] by (simp add: conf_lines_def row_good_def)
  moreover have "length (sc_rows ?sc) = np" "- (2 ^ 63) \<le> sc_id ?sc" "sc_id ?sc < 2 ^ 63" using ok sc unfolding conf_ok_def by blast+
  ultimately obtain L where L: "parse_server ?rows (i * np) [0..<np] zero_ServerInfo s = Done (conf_server ?sc) (s\<lparr>serverIdLookup := L\<rparr>)"
    "\<forall>x. L x = (if \<exists>j < np. x \<in> addr_of ?sc j then Some (sc_id ?sc) else serverIdLookup s x)"
    using parse_server_run [of np ?sc "i * np" ?rows s] np by blast
  have "(\<exists>j < np. x \<in> addr_of ?sc j) \<longleftrightarrow> x \<in> dial_addresses ?sc" for x
    using addr_of_dial [of ?sc x] \<open>length (sc_rows ?sc) = np\<close> by simp
  then show ?thesis using L np by (intro exI [of _ L]) (simp add: server_loop_def)
qed

lemma lookup_after_snoc:
  assumes "lookup_after scs L L1" "\<forall>x. L2 x = (if x \<in> dial_addresses sc then Some (sc_id sc) else L1 x)"
  shows "lookup_after (scs @ [sc]) L L2"
proof -
  have "L2 x = Some (sc_id sc')"
    if "sc' \<in> set (scs @ [sc])" "x \<in> dial_addresses sc'" and u: "\<forall>s \<in> set (scs @ [sc]). x \<in> dial_addresses s \<longrightarrow> sc_id s = sc_id sc'" for sc' x
  proof (cases "x \<in> dial_addresses sc")
    case True
    then show ?thesis using u assms(2) by simp
  next
    case False
    then have "sc' \<in> set scs" using that by auto
    moreover have "\<forall>s \<in> set scs. x \<in> dial_addresses s \<longrightarrow> sc_id s = sc_id sc'" using u by simp
    ultimately have "L1 x = Some (sc_id sc')" using assms(1) that(2) unfolding lookup_after_def by blast
    then show ?thesis using assms(2) False by simp
  qed
  moreover have "L2 x = L x" if "\<forall>s \<in> set (scs @ [sc]). x \<notin> dial_addresses s" for x
  proof -
    have "\<forall>s \<in> set scs. x \<notin> dial_addresses s" "x \<notin> dial_addresses sc" using that by simp_all
    moreover from this have "L1 x = L x" using assms(1) unfolding lookup_after_def by blast
    ultimately show ?thesis using assms(2) by simp
  qed
  ultimately show ?thesis unfolding lookup_after_def by blast
qed

lemma servers_run:
  assumes ok: "conf_ok np header scs" and np: "0 < np" and n: "n \<le> length scs"
  shows "\<exists>L. forG [0..<n] (server_loop (header # conf_lines scs) np) s = Done () (s\<lparr>serverIdLookup := L, ServerList := ServerList s @ map conf_server (take n scs)\<rparr>)
    \<and> lookup_after (take n scs) (serverIdLookup s) L"
  using n
proof (induction n)
  case 0
  then show ?case by (intro exI [of _ "serverIdLookup s"]) (simp add: lookup_after_def)
next
  case (Suc n)
  then obtain L1 where L1: "forG [0..<n] (server_loop (header # conf_lines scs) np) s = Done () (s\<lparr>serverIdLookup := L1, ServerList := ServerList s @ map conf_server (take n scs)\<rparr>)"
    "lookup_after (take n scs) (serverIdLookup s) L1" by auto
  let ?s1 = "s\<lparr>serverIdLookup := L1, ServerList := ServerList s @ map conf_server (take n scs)\<rparr>"
  obtain L where L: "server_loop (header # conf_lines scs) np n ?s1 = Done () (?s1\<lparr>serverIdLookup := L, ServerList := ServerList ?s1 @ [conf_server (scs ! n)]\<rparr>)"
    "\<forall>x. L x = (if x \<in> dial_addresses (scs ! n) then Some (sc_id (scs ! n)) else L1 x)"
    using server_loop_run [OF ok np, of n ?s1] Suc.prems by auto
  have tk: "take (Suc n) scs = take n scs @ [scs ! n]" using Suc.prems by (simp add: take_Suc_conv_app_nth)
  have "lookup_after (take (Suc n) scs) (serverIdLookup s) L" unfolding tk by (rule lookup_after_snoc [OF L1(2) L(2)])
  moreover have "forG [0..<Suc n] (server_loop (header # conf_lines scs) np) s
      = Done () (s\<lparr>serverIdLookup := L, ServerList := ServerList s @ map conf_server (take (Suc n) scs)\<rparr>)"
    using L1(1) L(1) by (simp add: forG_append tk)
  ultimately show ?case by blast
qed

lemma parseConf_run:
  assumes ok: "conf_ok (length (ProposerList c)) header scs" and np: "ProposerList c \<noteq> []" and n: "n \<le> length scs"
  shows "\<exists>L. parseConf c (Some (conf_file header scs)) (int n) s
      = Done () (s\<lparr>serverIdLookup := L, ServerList := ServerList s @ map conf_server (take n scs)\<rparr>)
    \<and> lookup_after (take n scs) (serverIdLookup s) L"
proof -
  let ?np = "length (ProposerList c)"
  have "length (conf_lines scs) = length scs * ?np"
    unfolding conf_lines_def by (subst length_concat_equal) (use ok in \<open>auto simp: conf_ok_def\<close>)
  then have "\<not> int (length (header # conf_lines scs)) < int n * int ?np + 1"
    using mult_le_mono1 [OF n, of ?np] by (simp only: list.size flip: of_nat_mult)
  then have "parseConf c (Some (conf_file header scs)) (int n) s = forG [0..<n] (server_loop (header # conf_lines scs) ?np) s"
    using conf_file_lines [OF ok] by (simp add: parseConf_def server_loop_def [abs_def] Let_def)
  then show ?thesis using servers_run [OF ok _ n, of s] np by simp
qed

text \<open>C30: Reading a well-formed cluster file gives back what was written: one \<open>ServerInfo\<close> per server, in order, with
  its number, address and all its ports, numbered as the listeners and dialers expect them; and, when servers
  with different numbers dial from different addresses, every dial address of a server is recognised as this server's.\<close>

theorem parseConf_reads_back:
  assumes "conf_ok (length (ProposerList c)) header scs" "ProposerList c \<noteq> []" "n \<le> length scs"
    and unique: "\<forall>sc \<in> set (take n scs). \<forall>sc' \<in> set (take n scs). \<forall>x. x \<in> dial_addresses sc \<and> x \<in> dial_addresses sc' \<longrightarrow> sc_id sc' = sc_id sc"
  shows "\<exists>s'. parseConf c (Some (conf_file header scs)) (int n) s = Done () s'
    \<and> ServerList s' = ServerList s @ map conf_server (take n scs)
    \<and> (\<forall>sc \<in> set (take n scs). \<forall>x \<in> dial_addresses sc. serverIdLookup s' x = Some (sc_id sc))"
proof -
  obtain L where L: "parseConf c (Some (conf_file header scs)) (int n) s
      = Done () (s\<lparr>serverIdLookup := L, ServerList := ServerList s @ map conf_server (take n scs)\<rparr>)"
    "lookup_after (take n scs) (serverIdLookup s) L"
    using parseConf_run [OF assms(1-3)] by blast
  have "L x = Some (sc_id sc)" if "sc \<in> set (take n scs)" "x \<in> dial_addresses sc" for sc x
    using L(2) that unique unfolding lookup_after_def by blast
  then show ?thesis using L(1) by simp
qed

definition conf_demo :: "server_conf list" where
  "conf_demo = [\<lparr>sc_id = 0, sc_ip = ''10.0.0.1'', sc_rows = [[''1'', ''2'', ''3'', ''4'', ''5'', ''6'', ''7'', ''8'', ''9'', ''10'']]\<rparr>,
     \<lparr>sc_id = 1, sc_ip = ''20.0.0.1'', sc_rows = [[''1'', ''2'', ''3'', ''4'', ''5'', ''6'', ''7'', ''8'', ''9'', ''10'']]\<rparr>]"

lemma conf_demo_ok: "conf_ok 1 ''id'' conf_demo"
  by (simp add: conf_ok_def conf_demo_def line_ok_def field_ok_def conf_row_def itoa_def digits10.simps char_of_def bit_0)

lemma conf_demo_addresses: "\<forall>sc \<in> set conf_demo. \<forall>x \<in> dial_addresses sc. hd x = hd (sc_ip sc)"
  by (auto simp: conf_demo_def dial_addresses_def)

lemma conf_demo_unique:
  "\<forall>sc \<in> set (take 2 conf_demo). \<forall>sc' \<in> set (take 2 conf_demo). \<forall>x. x \<in> dial_addresses sc \<and> x \<in> dial_addresses sc' \<longrightarrow> sc_id sc' = sc_id sc"
proof -
  have "take 2 conf_demo = conf_demo" by (simp add: conf_demo_def)
  moreover have "\<forall>sc \<in> set conf_demo. \<forall>sc' \<in> set conf_demo. hd (sc_ip sc) = hd (sc_ip sc') \<longrightarrow> sc_id sc' = sc_id sc"
    by (simp add: conf_demo_def)
  ultimately show ?thesis using conf_demo_addresses by metis
qed

theorem parseConf_reads_back_witness:
  "\<exists>s'. parseConf (demo_cfg\<lparr>ProposerList := [0]\<rparr>) (Some (conf_file ''id'' conf_demo)) (int 2) init_node = Done () s'
    \<and> ServerList s' = ServerList init_node @ map conf_server (take 2 conf_demo)
    \<and> (\<forall>sc \<in> set (take 2 conf_demo). \<forall>x \<in> dial_addresses sc. serverIdLookup s' x = Some (sc_id sc))"
  by (rule parseConf_reads_back [OF _ _ _ conf_demo_unique]) (use conf_demo_ok in \<open>simp_all add: conf_demo_def\<close>)

end
