(* ===== verification/Conns.thy ===== *)
theory Conns
  imports Loadconf
begin

text \<open>
  Connections and roles (\<open>handlers.go\<close>, \<open>connsprop.go\<close>, \<open>connsvldr.go\<close>): the registration of connections on both sides,
  the loops that turn received messages into handler goroutines and the synchronisation of the start time. A \<open>go f(x)\<close> is a value of the type \<open>job\<close>, returned by the operation that
  starts it. The network is a parameter: which addresses resolve, which ones can be listened on, and which attempts to dial succeed.
  A loop over a connection is given the finite sequence of results of its calls of \<open>Decode\<close> or \<open>AcceptTCP\<close>.
\<close>

section \<open>Goroutines\<close>

datatype job =
    Async_OBReply ValidatorOPAReply int
  | Async_CPAReply ValidatorCPAReply int
  | Validate_OA ProposerOPAEntry "dest option"
  | Validate_OB ProposerOPBEntry "dest option"
  | Validate_CA ProposerCPAEntry "dest option"
  | Validate_CB ProposerCPBEntry "dest option"
  | Sync_StartTime simulationStartTimeSyncMessage
  | Handle_OPA int | Handle_OPB int | Handle_CPA int | Handle_CPB int
  | Handle_Proposer_OPA int | Handle_Proposer_OPB int | Handle_Proposer_CPA int | Handle_Proposer_CPB int
  | Receive_OA int | Receive_OB int | Receive_CA int | Receive_CB int | Receive_TIME int
  | Relay int phase
  | Ordering_Worker nat
  | Consensus_Worker

record network =
  resolves :: "string \<Rightarrow> bool"
  listens :: "string \<Rightarrow> bool"
  dials :: "string \<Rightarrow> string \<Rightarrow> nat \<Rightarrow> bool"

section \<open>Registration\<close>

definition initConns :: "int \<Rightarrow> (node, unit) go" where
  "initConns numOfServers =
     (if numOfServers < 0 then panicG (PanicMsg ''makeslice: len out of range'')
      else modG (\<lambda>s. s\<lparr>concierge := (\<lambda>_. replicate (nat numOfServers) None), dialogMgr := (\<lambda>_. Map.empty)\<rparr>))"

text \<open>An accepted connection is recognised by the address it was dialed from.\<close>

definition connRegistration :: "string \<Rightarrow> phase \<Rightarrow> (node, int option) go" where
  "connRegistration remoteAddr ph =
     bindG (getG serverIdLookup) (\<lambda>m. case m remoteAddr of
       None \<Rightarrow> ret None
     | Some sid \<Rightarrow>
       bindG (getG (\<lambda>s. concierge s ph)) (\<lambda>docks.
       if 0 \<le> sid \<and> sid < int (length docks)
       then thenG (modG (\<lambda>s. s\<lparr>concierge := (concierge s)(ph := docks[nat sid := Some \<lparr>SID = sid, remote = remoteAddr\<rparr>])\<rparr>)) (ret (Some sid))
       else panicG IndexOutOfRange))"

text \<open>\<open>ServerList[id].Ip + ":" + ServerList[id].Ports[port]\<close>; a missing port reads as the empty string.\<close>

definition server_addr :: "int \<Rightarrow> int \<Rightarrow> (node, string) go" where
  "server_addr sid port =
     bindG (getG ServerList) (\<lambda>l. bindG (idxG l sid) (\<lambda>sl.
     ret (Ip sl @ '':'' @ (case Ports sl port of None \<Rightarrow> [] | Some p \<Rightarrow> p))))"

section \<open>Accepting connections\<close>

datatype accepted = Waiting | Stopped | AllConnected

definition add_validator :: "int \<Rightarrow> (node, unit) go" where
  "add_validator sid = modG (\<lambda>s. if sid \<in> set (ValidatorList s) then s else s\<lparr>ValidatorList := ValidatorList s @ [sid]\<rparr>)"

definition handler_of :: "phase \<Rightarrow> int \<Rightarrow> job list" where
  "handler_of ph sid = (case ph of OPA \<Rightarrow> [Handle_OPA sid] | OPB \<Rightarrow> [Handle_OPB sid] | CPA \<Rightarrow> [Handle_CPA sid]
     | CPB \<Rightarrow> [Handle_CPB sid] | TIME \<Rightarrow> [])"

text \<open>The accept loop; \<open>None\<close> is an error of \<open>AcceptTCP\<close>, otherwise the remote address.\<close>

fun accept_validators :: "cfg \<Rightarrow> phase \<Rightarrow> int \<Rightarrow> string option list \<Rightarrow> (node, accepted \<times> job list) go" where
  "accept_validators c ph connected [] = ret (Waiting, [])"
| "accept_validators c ph connected (None # conns) = ret (Stopped, [])"
| "accept_validators c ph connected (Some remoteAddr # conns) =
     bindG (connRegistration remoteAddr ph) (\<lambda>r. case r of
       None \<Rightarrow> ret (Stopped, [])
     | Some sid \<Rightarrow>
       thenG (add_validator sid)
       (if connected + 1 = NumOfConn c - int (length (ProposerList c)) then ret (AllConnected, handler_of ph sid)
        else bindG (accept_validators c ph (connected + 1) conns) (\<lambda>(a, jobs). ret (a, handler_of ph sid @ jobs))))"

definition acceptValidatorConns :: "network \<Rightarrow> cfg \<Rightarrow> int \<Rightarrow> phase \<Rightarrow> string option list \<Rightarrow> (node, accepted \<times> job list) go" where
  "acceptValidatorConns nw c leaderId ph conns =
     bindG (server_addr leaderId (phase_num ph)) (\<lambda>addr.
       if \<not> resolves nw addr \<or> \<not> listens nw addr then ret (Stopped, [])
       else accept_validators c ph 0 conns)"

definition proposer_handler_of :: "phase \<Rightarrow> int \<Rightarrow> job list" where
  "proposer_handler_of ph sid = (case ph of OPA \<Rightarrow> [Handle_Proposer_OPA sid] | OPB \<Rightarrow> [Handle_Proposer_OPB sid]
     | CPA \<Rightarrow> [Handle_Proposer_CPA sid] | CPB \<Rightarrow> [Handle_Proposer_CPB sid] | TIME \<Rightarrow> [])"

text \<open>This loop goes on after the last expected proposer; the flag says whether \<open>wg.Done()\<close> was called.\<close>

fun accept_proposers :: "cfg \<Rightarrow> phase \<Rightarrow> int \<Rightarrow> string option list \<Rightarrow> (node, bool \<times> job list) go" where
  "accept_proposers c ph connected [] = ret (False, [])"
| "accept_proposers c ph connected (None # conns) = ret (False, [])"
| "accept_proposers c ph connected (Some remoteAddr # conns) =
     bindG (connRegistration remoteAddr ph) (\<lambda>r. case r of
       None \<Rightarrow> ret (False, [])
     | Some sid \<Rightarrow>
       bindG (accept_proposers c ph (connected + 1) conns) (\<lambda>(done, jobs).
         ret (connected + 1 = int (length (ProposerList c)) - 1 \<or> done, proposer_handler_of ph sid @ jobs)))"

definition acceptProposerConns :: "network \<Rightarrow> cfg \<Rightarrow> int \<Rightarrow> phase \<Rightarrow> string option list \<Rightarrow> (node, bool \<times> job list) go" where
  "acceptProposerConns nw c leaderId ph conns =
     bindG (server_addr leaderId (phase_num ph)) (\<lambda>addr.
       if \<not> resolves nw addr \<or> \<not> listens nw addr then ret (False, [])
       else bindG (accept_proposers c ph 0 conns) (\<lambda>(done, jobs).
         ret (int (length (ProposerList c)) - 1 = 0 \<or> done, jobs)))"

section \<open>Dialing\<close>

fun first_index :: "int list \<Rightarrow> int \<Rightarrow> int \<Rightarrow> int" where
  "first_index [] coordinatorId i = - 1"
| "first_index (v # vs) coordinatorId i = (if v = coordinatorId then i else first_index vs coordinatorId (i + 1))"

definition DialPortOPA :: int where
  "DialPortOPA = 5"

definition dial_port :: "phase \<Rightarrow> int" where
  "dial_port ph = DialPortOPA + phase_num ph"

text \<open>Ten attempts; the result is the local and the remote address of the connection.\<close>

definition establishDialConn :: "network \<Rightarrow> cfg \<Rightarrow> int \<Rightarrow> string \<Rightarrow> phase \<Rightarrow> (node, (string \<times> string) option) go" where
  "establishDialConn nw c coordinatorId coordListenerAddr ph =
     (if \<not> resolves nw coordListenerAddr then panicG (PanicMsg ''ResolveTCPAddr'') else
      let coordinatorIndex = first_index (ProposerList c) coordinatorId 0 in
      if coordinatorIndex = - 1 then panicG (PanicMsg ''coordinator not found in ProposerList'') else
      bindG (server_addr (ServerID c) (dial_port ph + coordinatorIndex * NOP * 2)) (\<lambda>myDialAddr.
      if \<not> resolves nw myDialAddr then panicG (PanicMsg ''ResolveTCPAddr'')
      else ret (if \<exists>i \<in> {0..<10}. dials nw myDialAddr coordListenerAddr i then Some (myDialAddr, coordListenerAddr) else None)))"

text \<open>The listener port has the number of the phase.\<close>

definition registerDialConn :: "network \<Rightarrow> cfg \<Rightarrow> int \<Rightarrow> phase \<Rightarrow> (node, unit) go" where
  "registerDialConn nw c coordinatorId ph =
     bindG (server_addr coordinatorId (phase_num ph)) (\<lambda>coordinatorAddress.
     bindG (establishDialConn nw c coordinatorId coordinatorAddress ph) (\<lambda>conn. case conn of
       None \<Rightarrow> ret ()
     | Some (here, there) \<Rightarrow>
       thenG (modG (\<lambda>s. s\<lparr>dialogMgr := (dialogMgr s)(ph := (dialogMgr s ph)(coordinatorId \<mapsto> \<lparr>SID = coordinatorId, remote = there\<rparr>))\<rparr>))
       (modG (\<lambda>s. s\<lparr>blockchainInfo := nset (blockchainInfo s) coordinatorId ph coordinatorId\<rparr>))))"

definition register_all :: "network \<Rightarrow> cfg \<Rightarrow> int \<Rightarrow> (node, unit) go" where
  "register_all nw c coordinatorId = forG phases (registerDialConn nw c coordinatorId)"

section \<open>Receive loops\<close>

text \<open>
  \<open>for { err := dec.Decode(&m); ... }\<close>. \<open>enter\<close> is evaluated before each call of \<open>Decode\<close>, \<open>leave\<close> at the end of
  the stream, and \<open>skip\<close> further messages are consumed after an error. The result: whether the loop still waits for a message, the goroutines
  started, in order, and how often the read lock of \<open>dialogMgr\<close> was taken and not released.
\<close>

record served =
  running :: bool
  jobs :: "job list"
  held :: nat

function serve :: "nat \<Rightarrow> (node, unit) go \<Rightarrow> (node, unit) go \<Rightarrow> ('m \<Rightarrow> (node, job list \<times> nat) go) \<Rightarrow> 'm recv list \<Rightarrow> (node, served) go" where
  "serve skip enter leave react [] = thenG enter (ret \<lparr>running = True, jobs = [], held = 0\<rparr>)"
| "serve skip enter leave react (RecvEOF # rs) = thenG enter (thenG leave (ret \<lparr>running = False, jobs = [], held = 0\<rparr>))"
| "serve skip enter leave react (RecvErr # rs) = thenG enter (serve skip enter leave react (drop skip rs))"
| "serve skip enter leave react (Received m # rs) =
     thenG enter (bindG (react m) (\<lambda>(js, l).
     bindG (serve skip enter leave react rs) (\<lambda>r. ret (r\<lparr>jobs := js @ jobs r, held := l + held r\<rparr>))))"
  by pat_completeness auto
termination
  by (relation "measure (\<lambda>(skip, enter, leave, react, rs). length rs)") auto

subsection \<open>Proposer\<close>

text \<open>\<open>concierge.n[phase][sid].dec\<close>\<close>

definition concierge_dec :: "phase \<Rightarrow> int \<Rightarrow> (node, unit) go" where
  "concierge_dec ph sid = bindG (getG (\<lambda>s. concierge s ph)) (\<lambda>docks.
     bindG (idxG docks sid) (\<lambda>d. if d = None then panicG NilDeref else ret ()))"

text \<open>A reply for another proposer's chain is wrapped and sent there, under a read lock that is not released.\<close>

definition forward_reply :: "env \<Rightarrow> msg \<Rightarrow> int \<Rightarrow> int \<Rightarrow> phase \<Rightarrow> (node, job list \<times> nat) go" where
  "forward_reply en m sid recipient ph =
     bindG (dialog_encoder ph recipient) (\<lambda>enc.
     thenG (dialSendBack en (Between m sid recipient ph) enc) (ret ([], 1)))"

definition handleOPBConns :: "env \<Rightarrow> cfg \<Rightarrow> int \<Rightarrow> ValidatorOPAReply recv list \<Rightarrow> (node, served) go" where
  "handleOPBConns en c sid = serve 0 (concierge_dec OPB sid) (ret ()) (\<lambda>m.
     bindG (proposer_of (opar_BlockchainId m) OPB) (\<lambda>owner.
       if owner \<noteq> ServerID c then forward_reply en (OPAReply m) sid owner OPB
       else bindG (nowG en) (\<lambda>_. ret ([Async_OBReply m sid], 0))))"

definition handleCPAConns :: "env \<Rightarrow> cfg \<Rightarrow> int \<Rightarrow> ValidatorCPAReply recv list \<Rightarrow> (node, served) go" where
  "handleCPAConns en c sid = serve 0 (concierge_dec CPA sid) (ret ()) (\<lambda>m.
     bindG (proposer_of (cpar_BlockchainId m) CPA) (\<lambda>owner.
       if owner \<noteq> ServerID c then forward_reply en (CPAReply m) sid owner CPA
       else bindG (nowG en) (\<lambda>_. ret ([Async_CPAReply m sid], 0))))"

text \<open>From another proposer: a \<open>BetweenProposerMsg\<close>, with message, sender, recipient and phase.\<close>

definition handleProposerOPBConns :: "env \<Rightarrow> int \<Rightarrow> (msg \<times> int \<times> int \<times> phase) recv list \<Rightarrow> (node, served) go" where
  "handleProposerOPBConns en sid = serve 0 (concierge_dec OPB sid) (ret ()) (\<lambda>(message, sender, recipient, ph).
     case message of OPAReply m \<Rightarrow> bindG (nowG en) (\<lambda>_. ret ([Async_OBReply m sender], 0)) | _ \<Rightarrow> ret ([], 0))"

definition handleProposerCPAConns :: "env \<Rightarrow> int \<Rightarrow> (msg \<times> int \<times> int \<times> phase) recv list \<Rightarrow> (node, served) go" where
  "handleProposerCPAConns en sid = serve 0 (concierge_dec CPA sid) (ret ()) (\<lambda>(message, sender, recipient, ph).
     case message of CPAReply m \<Rightarrow> bindG (nowG en) (\<lambda>_. ret ([Async_CPAReply m sender], 0)) | _ \<Rightarrow> ret ([], 0))"

definition handleProposerTIMEConns :: "env \<Rightarrow> cfg \<Rightarrow> (node, unit) go" where
  "handleProposerTIMEConns en c = bindG (getG simulationStartTime) (\<lambda>t.
     broadcastToAll en c (TimeSync \<lparr>sync_Time = t, sync_ProposerId = ServerID c\<rparr>) TIME)"

subsection \<open>Validator\<close>

text \<open>\<open>dialogMgr.conns[phase][coordinatorId]\<close>: without a connection, decoder and encoder are nil, and the first \<open>Decode\<close> panics.\<close>

definition dialog_dec :: "phase \<Rightarrow> int \<Rightarrow> (node, unit) go" where
  "dialog_dec ph coordinatorId = bindG (getG (\<lambda>s. dialogMgr s ph coordinatorId)) (\<lambda>d. if d = None then panicG NilDeref else ret ())"

definition receivingOADialMessages :: "env \<Rightarrow> int \<Rightarrow> ProposerOPAEntry recv list \<Rightarrow> (node, served) go" where
  "receivingOADialMessages en coordinatorId rs =
     bindG (dialog_encoder OPB coordinatorId) (\<lambda>enc.
     thenG (dialog_dec OPA coordinatorId)
     (serve 0 (ret ()) (bindG (nowG en) (\<lambda>_. vgInst_Done)) (\<lambda>m. bindG (nowG en) (\<lambda>_. ret ([Validate_OA m enc], 0))) rs))"

text \<open>After an error this loop decodes, and loses, one more message.\<close>

definition receivingOBDialMessages :: "env \<Rightarrow> int \<Rightarrow> ProposerOPBEntry recv list \<Rightarrow> (node, served) go" where
  "receivingOBDialMessages en coordinatorId rs =
     bindG (dialog_encoder CPA coordinatorId) (\<lambda>enc.
     thenG (dialog_dec OPB coordinatorId)
     (serve 1 (ret ()) (bindG (nowG en) (\<lambda>_. ret ())) (\<lambda>m. ret ([Validate_OB m enc], 0)) rs))"

definition receivingCADialMessages :: "env \<Rightarrow> int \<Rightarrow> ProposerCPAEntry recv list \<Rightarrow> (node, served) go" where
  "receivingCADialMessages en coordinatorId rs =
     bindG (dialog_encoder CPA coordinatorId) (\<lambda>enc.
     thenG (dialog_dec CPA coordinatorId)
     (serve 0 (ret ()) (ret ()) (\<lambda>m. bindG (nowG en) (\<lambda>_. ret ([Validate_CA m enc], 0))) rs))"

definition receivingCBDialMessages :: "env \<Rightarrow> int \<Rightarrow> ProposerCPBEntry recv list \<Rightarrow> (node, served) go" where
  "receivingCBDialMessages en coordinatorId rs =
     bindG (dialog_encoder CPB coordinatorId) (\<lambda>enc.
     thenG (dialog_dec CPB coordinatorId)
     (serve 0 (ret ()) (ret ()) (\<lambda>m. bindG (nowG en) (\<lambda>_. ret ([Validate_CB m enc], 0))) rs))"

definition receivingTIMEDialMessages :: "int \<Rightarrow> simulationStartTimeSyncMessage recv list \<Rightarrow> (node, served) go" where
  "receivingTIMEDialMessages coordinatorId rs =
     thenG (dialog_dec TIME coordinatorId)
     (serve 0 (ret ()) (ret ()) (\<lambda>m. ret ([Sync_StartTime m], 0)) rs)"

definition syncSimulationStartTIme :: "simulationStartTimeSyncMessage \<Rightarrow> (node, unit) go" where
  "syncSimulationStartTIme m = modG (\<lambda>s. if simulationStartTime s <s sync_Time m then s\<lparr>simulationStartTime := sync_Time m\<rparr> else s)"

section \<open>A detoured reply reaches the handler it would have reached directly\<close>

text \<open>The proposers a validator can talk to at its next look at the clock.\<close>

definition talks_to :: "env \<Rightarrow> cfg \<Rightarrow> node \<Rightarrow> int list" where
  "talks_to en c s = (case nget (valToProComTimeMap s) (ServerID c) (key_at en s (clock_reads s)) of None \<Rightarrow> [] | Some l \<Rightarrow> l)"

lemma talks_to_run:
  "\<exists>t. checkComPathToProposer en c p s = Done (if p \<in> set (talks_to en c s) then (False, p)
     else if \<not> AllowBypassRoute c \<or> talks_to en c s = [] then (True, - 1) else (True, hd (talks_to en c s))) t
   \<and> t = s\<lparr>clock_reads := Suc (clock_reads s)\<rparr>"
  by (simp add: checkComPathToProposer_def getNowTimeKey_def talks_to_def key_at_def)

definition registered_at :: "node \<Rightarrow> phase \<Rightarrow> int \<Rightarrow> bool" where
  "registered_at s ph sid \<longleftrightarrow> 0 \<le> sid \<and> sid < int (length (concierge s ph)) \<and> concierge s ph ! nat sid \<noteq> None"

lemma concierge_dec_ok: "registered_at s ph sid \<Longrightarrow> concierge_dec ph sid s = Done () s"
  by (simp add: concierge_dec_def registered_at_def)

lemma handleOPBConns_own:
  assumes "registered_at s OPB sid" "nget (blockchainInfo s) (opar_BlockchainId m) OPB = Some (ServerID c)"
  shows "\<exists>t. handleOPBConns en c sid [Received m] s = Done \<lparr>running = True, jobs = [Async_OBReply m sid], held = 0\<rparr> t \<and> sent t = sent s"
proof -
  have "registered_at (s\<lparr>clock_reads := Suc (clock_reads s)\<rparr>) OPB sid" using assms(1) by (simp add: registered_at_def)
  then show ?thesis using assms(2) by (simp add: handleOPBConns_def concierge_dec_ok assms(1) proposer_of_def)
qed

lemma handleOPBConns_forward:
  assumes "registered_at s OPB sid" "nget (blockchainInfo s) (opar_BlockchainId m) OPB = Some p" "p \<noteq> ServerID c" "dialogMgr s OPB p \<noteq> None"
  shows "\<exists>t. handleOPBConns en c sid [Received m] s = Done \<lparr>running = True, jobs = [], held = 1\<rparr> t
    \<and> outbox t = outbox s @ [(Dialog OPB p, Between (OPAReply m) sid p OPB)]"
proof -
  let ?t = "s\<lparr>sent := sent s @ [\<lparr>to = Dialog OPB p, body = Between (OPAReply m) sid p OPB, failed = encErr en (length (sent s))\<rparr>]\<rparr>"
  have "registered_at ?t OPB sid" using assms(1) by (simp add: registered_at_def)
  then have "handleOPBConns en c sid [Received m] s = Done \<lparr>running = True, jobs = [], held = 1\<rparr> ?t"
    using assms by (auto simp: handleOPBConns_def concierge_dec_ok proposer_of_def forward_reply_def dialog_encoder_def dialSendBack_def)
  then show ?thesis by (simp add: outbox_def)
qed

lemma handleProposerOPBConns_run:
  assumes "registered_at s OPB sid"
  shows "\<exists>t. handleProposerOPBConns en sid [Received (OPAReply m, sender, recipient, ph)] s
    = Done \<lparr>running = True, jobs = [Async_OBReply m sender], held = 0\<rparr> t \<and> sent t = sent s"
proof -
  have "registered_at (s\<lparr>clock_reads := Suc (clock_reads s)\<rparr>) OPB sid" using assms by (simp add: registered_at_def)
  then show ?thesis by (simp add: handleProposerOPBConns_def concierge_dec_ok assms)
qed

text \<open>A reply that has to go a detour is handled like a direct one: the validator sends it, unwrapped, to the first proposer it can
  talk to; that proposer wraps it for the owner of the chain and starts no handler; and the owner starts exactly the
  handler, with the validator as the sender, that the direct connection would have started. The
  forwarding proposer keeps one more read lock of \<open>dialogMgr\<close>.\<close>

theorem detoured_reply_arrives:
  assumes "EvaluateComPossibilityFlag cv" "AllowBypassRoute cv" "nget (blockchainInfo v) (opar_BlockchainId m) OPA = Some (ServerID cp)"
    and "ServerID cp \<notin> set (talks_to en cv v)" "talks_to en cv v = ServerID cq # rest" "ServerID cq \<noteq> - 1" "dialogMgr v OPB (ServerID cq) \<noteq> None"
    and "registered_at q OPB (ServerID cv)" "nget (blockchainInfo q) (opar_BlockchainId m) OPB = Some (ServerID cp)"
      "dialogMgr q OPB (ServerID cp) \<noteq> None"
    and "registered_at p OPB (ServerID cq)" "registered_at p OPB (ServerID cv)" "nget (blockchainInfo p) (opar_BlockchainId m) OPB = Some (ServerID cp)"
  shows "\<exists>v' q' p' p'' js. reply_to en cv (OPAReply m) encoder (opar_BlockchainId m) OPA OPB v = Done () v'
    \<and> outbox v' = outbox v @ [(Dialog OPB (ServerID cq), OPAReply m)]
    \<and> handleOPBConns en cq (ServerID cv) [Received m] q = Done \<lparr>running = True, jobs = [], held = 1\<rparr> q'
    \<and> outbox q' = outbox q @ [(Dialog OPB (ServerID cp), Between (OPAReply m) (ServerID cv) (ServerID cp) OPB)]
    \<and> handleProposerOPBConns en (ServerID cq) [Received (OPAReply m, ServerID cv, ServerID cp, OPB)] p = Done \<lparr>running = True, jobs = js, held = 0\<rparr> p'
    \<and> handleOPBConns en cp (ServerID cv) [Received m] p = Done \<lparr>running = True, jobs = js, held = 0\<rparr> p''"
proof -
  have ne: "ServerID cp \<noteq> ServerID cq" using assms(4,5) by auto
  have "reply_to en cv (OPAReply m) encoder (opar_BlockchainId m) OPA OPB v
      = Done () (v\<lparr>clock_reads := Suc (clock_reads v), sent := sent v @ [\<lparr>to = Dialog OPB (ServerID cq), body = OPAReply m, failed = encErr en (length (sent v))\<rparr>]\<rparr>)"
    using assms(1-7) talks_to_run [of en cv "ServerID cp" v]
    by (auto simp: reply_to_def proposer_of_def dialSendBackWithComCheck_def dialog_encoder_def dialSendBack_def)
  moreover have "outbox (v\<lparr>clock_reads := Suc (clock_reads v), sent := sent v @ [\<lparr>to = Dialog OPB (ServerID cq), body = OPAReply m, failed = encErr en (length (sent v))\<rparr>]\<rparr>)
      = outbox v @ [(Dialog OPB (ServerID cq), OPAReply m)]"
    by (simp add: outbox_def)
  ultimately show ?thesis
    using handleOPBConns_forward [OF assms(8,9) ne assms(10)] handleProposerOPBConns_run [OF assms(11)] handleOPBConns_own [OF assms(12,13)]
    by blast
qed

section \<open>The start time\<close>

lemma sync_sint: "sint (simulationStartTime (final (syncSimulationStartTIme m s))) = max (sint (simulationStartTime s)) (sint (sync_Time m))"
  by (auto simp: syncSimulationStartTIme_def word_sless_alt)

text \<open>The start time a process ends with is the largest of its own and all times it received, however the messages are
  ordered, repeated or split over connections.\<close>

theorem start_time_is_maximum:
  "\<exists>t. forG ms syncSimulationStartTIme s = Done () t
    \<and> sint (simulationStartTime t) = Max (insert (sint (simulationStartTime s)) ((\<lambda>m. sint (sync_Time m)) ` set ms))"
proof (induction ms arbitrary: s)
  case (Cons m ms)
  obtain u where u: "syncSimulationStartTIme m s = Done () u" by (simp add: syncSimulationStartTIme_def)
  then have su: "sint (simulationStartTime u) = max (sint (simulationStartTime s)) (sint (sync_Time m))"
    using sync_sint [of m s] by simp
  obtain t where t: "forG ms syncSimulationStartTIme u = Done () t"
    "sint (simulationStartTime t) = Max (insert (sint (simulationStartTime u)) ((\<lambda>m. sint (sync_Time m)) ` set ms))"
    using Cons.IH [of u] by blast
  have "Max (insert (max a b) A) = Max (insert a (insert b A))" if "finite A" for a b :: int and A
    using that by (cases "A = {}") (auto simp: max.assoc)
  then show ?case using u t su by simp
qed simp

section \<open>Receive loops\<close>

lemma serve_Received:
  "react m s = Done (js, l) u \<Longrightarrow> serve k (ret ()) leave react rs u = Done r t \<Longrightarrow>
   serve k (ret ()) leave react (Received m # rs) s = Done (r\<lparr>jobs := js @ jobs r, held := l + held r\<rparr>) t"
  by (simp only: serve.simps thenG_def bindG_def ret_def outcome.case prod.case)

lemma serve_received:
  assumes "\<And>m s. \<exists>t. react m s = Done ([f m], 0) t"
  shows "\<exists>t. serve k (ret ()) leave react (map Received ms) s = Done \<lparr>running = True, jobs = map f ms, held = 0\<rparr> t"
proof (induction ms arbitrary: s)
  case (Cons m ms)
  obtain u where u: "react m s = Done ([f m], 0) u" using assms by blast
  obtain t where t: "serve k (ret ()) leave react (map Received ms) u = Done \<lparr>running = True, jobs = map f ms, held = 0\<rparr> t"
    using Cons.IH by blast
  have "serve k (ret ()) leave react (Received m # map Received ms) s
      = Done (\<lparr>running = True, jobs = map f ms, held = 0\<rparr>\<lparr>jobs := [f m] @ jobs \<lparr>running = True, jobs = map f ms, held = 0\<rparr>, held := 0 + 0\<rparr>) t"
    using u t by (subst serve_Received [where js = "[f m]" and l = 0 and u = u and r = "\<lparr>running = True, jobs = map f ms, held = 0\<rparr>" and t = t]) auto
  moreover have "\<lparr>running = True, jobs = map f ms, held = 0\<rparr>\<lparr>jobs := [f m] @ jobs \<lparr>running = True, jobs = map f ms, held = 0\<rparr>, held := 0 + 0\<rparr>
      = \<lparr>running = True, jobs = map f (m # ms), held = 0\<rparr>" by simp
  ultimately show ?case unfolding list.map(2) by metis
qed simp

lemma serve_drops:
  "serve (Suc 0) (ret ()) leave react (map Received ms @ RecvErr # x # rs) s = serve (Suc 0) (ret ()) leave react (map Received ms @ rs) s"
proof (induction ms arbitrary: s)
  case (Cons m ms)
  then show ?case by (simp add: thenG_def bindG_def split: outcome.splits prod.splits)
qed simp

text \<open>The loop over ordering certificates loses a message for every error: after one that cannot be decoded, the next one
  is read to log its type, and the loop goes on as if neither had been sent, whatever it contains.\<close>

theorem OB_loop_drops_next:
  "receivingOBDialMessages en p (map Received ms @ RecvErr # x # rs) s = receivingOBDialMessages en p (map Received ms @ rs) s"
proof -
  have "serve 1 (ret ()) leave react (map Received ms @ RecvErr # x # rs) = serve 1 (ret ()) leave react (map Received ms @ rs)"
    for leave and react :: "ProposerOPBEntry \<Rightarrow> (node, job list \<times> nat) go"
    unfolding One_nat_def by (rule ext) (rule serve_drops)
  then show ?thesis by (simp only: receivingOBDialMessages_def)
qed

text \<open>Every ordering entry a validator decodes starts exactly one handler, in order of arrival, which answers on
  the ordering connection of the proposer the entry came from; every certificate one handler that knows it was not carried by a commit entry.\<close>

theorem entries_dispatched:
  assumes "dialogMgr s OPA p \<noteq> None" "dialogMgr s OPB p \<noteq> None" "dialogMgr s CPA p \<noteq> None"
  shows "\<exists>t t'. receivingOADialMessages en p (map Received ms) s
      = Done \<lparr>running = True, jobs = map (\<lambda>m. Validate_OA m (Some (Dialog OPB p))) ms, held = 0\<rparr> t
    \<and> receivingOBDialMessages en p (map Received es) s
      = Done \<lparr>running = True, jobs = map (\<lambda>m. Validate_OB m (Some (Dialog CPA p))) es, held = 0\<rparr> t'"
proof -
  let ?oa = "\<lambda>m. bindG (nowG en) (\<lambda>_. ret ([Validate_OA m (Some (Dialog OPB p))], 0 :: nat))"
  let ?ob = "\<lambda>m. ret ([Validate_OB m (Some (Dialog CPA p))], 0 :: nat)"
  have "\<exists>t. ?oa m s = Done ([Validate_OA m (Some (Dialog OPB p))], 0) t" for m s by simp
  then have "\<exists>t. serve 0 (ret ()) (bindG (nowG en) (\<lambda>_. vgInst_Done)) ?oa (map Received ms) s
      = Done \<lparr>running = True, jobs = map (\<lambda>m. Validate_OA m (Some (Dialog OPB p))) ms, held = 0\<rparr> t" by (rule serve_received)
  moreover have "\<exists>t. ?ob m s = Done ([Validate_OB m (Some (Dialog CPA p))], 0) t" for m s by simp
  then have "\<exists>t. serve 1 (ret ()) (bindG (nowG en) (\<lambda>_. ret ())) ?ob (map Received es) s
      = Done \<lparr>running = True, jobs = map (\<lambda>m. Validate_OB m (Some (Dialog CPA p))) es, held = 0\<rparr> t" by (rule serve_received)
  ultimately show ?thesis
    using assms by (auto simp: receivingOADialMessages_def receivingOBDialMessages_def dialog_encoder_def dialog_dec_def)
qed

section \<open>Who dialed is recognised\<close>

lemma first_index_bound:
  assumes "first_index ps p i \<noteq> - 1" "0 \<le> i"
  shows "i \<le> first_index ps p i \<and> first_index ps p i < i + int (length ps)"
  using assms
proof (induction ps arbitrary: i)
  case (Cons v vs)
  show ?case
  proof (cases "v = p")
    case False
    then have "i + 1 \<le> first_index vs p (i + 1) \<and> first_index vs p (i + 1) < i + 1 + int (length vs)"
      using Cons.IH [of "i + 1"] Cons.prems by simp
    then show ?thesis using False by simp
  qed simp
qed simp

lemma phase_num_range: "0 \<le> phase_num ph \<and> phase_num ph < 5"
  by (cases ph) simp_all

text \<open>The port of a dial belongs to the dial addresses of its server.\<close>

lemma dial_port_address:
  assumes rows: "\<forall>ports \<in> set (sc_rows sc). length ports = 10" and j: "0 \<le> j" "j < int (length (sc_rows sc))"
  shows "\<exists>q. conf_ports sc (dial_port ph + j * NOP * 2) = Some q \<and> sc_ip sc @ '':'' @ q \<in> dial_addresses sc"
proof -
  let ?p = "dial_port ph + j * NOP * 2"
  let ?k = "nat (5 + phase_num ph)"
  have p: "?p = j * 10 + (5 + phase_num ph)" by (simp add: dial_port_def DialPortOPA_def NOP_def)
  have np: "nat ?p = nat j * 10 + ?k" using p j phase_num_range [of ph] by (simp add: nat_add_distrib nat_mult_distrib)
  have k: "5 \<le> ?k" "?k < 10" by (cases ph; simp)+
  have q: "conf_ports sc ?p = Some (sc_rows sc ! nat j ! ?k)"
    using np k j p phase_num_range [of ph] by (simp add: conf_ports_def)
  have "sc_rows sc ! nat j \<in> set (sc_rows sc)" using j by simp
  then have "sc_ip sc @ '':'' @ (sc_rows sc ! nat j ! ?k) \<in> dial_addresses sc"
    using k unfolding dial_addresses_def by blast
  then show ?thesis using q by blast
qed

lemma server_addr_run:
  assumes "ServerList s = map conf_server scs" "0 \<le> i" "i < int (length scs)"
  shows "server_addr i port s = Done (sc_ip (scs ! nat i) @ '':'' @ (case conf_ports (scs ! nat i) port of None \<Rightarrow> [] | Some p \<Rightarrow> p)) s"
  using assms by (simp add: server_addr_def conf_server_def nat_less_iff)

lemma parseConf_reads:
  assumes "conf_ok (length (ProposerList c)) header scs" "ProposerList c \<noteq> []" "n \<le> length scs"
    and "\<forall>sc \<in> set (take n scs). \<forall>sc' \<in> set (take n scs). \<forall>x. x \<in> dial_addresses sc \<and> x \<in> dial_addresses sc' \<longrightarrow> sc_id sc' = sc_id sc"
    and "parseConf c (Some (conf_file header scs)) (int n) s = Done () t"
  shows "ServerList t = ServerList s @ map conf_server (take n scs)"
    "sc \<in> set (take n scs) \<Longrightarrow> x \<in> dial_addresses sc \<Longrightarrow> serverIdLookup t x = Some (sc_id sc)"
proof -
  obtain L where L: "parseConf c (Some (conf_file header scs)) (int n) s
      = Done () (s\<lparr>serverIdLookup := L, ServerList := ServerList s @ map conf_server (take n scs)\<rparr>)"
    "lookup_after (take n scs) (serverIdLookup s) L"
    using parseConf_run [OF assms(1-3)] by blast
  then have t: "t = s\<lparr>serverIdLookup := L, ServerList := ServerList s @ map conf_server (take n scs)\<rparr>" using assms(5) by simp
  show "ServerList t = ServerList s @ map conf_server (take n scs)" by (simp add: t)
  show "serverIdLookup t x = Some (sc_id sc)" if "sc \<in> set (take n scs)" "x \<in> dial_addresses sc"
  proof -
    have "L x = Some (sc_id sc)" using L(2) that assms(4) unfolding lookup_after_def by blast
    then show ?thesis by (simp add: t)
  qed
qed

text \<open>C25: Two processes that read the same cluster file agree on who is who: the address a server dials a proposer from, in any
  phase, is recognised by the accepting side, which registers the connection under the number of the server that dialed.\<close>

theorem dialed_is_recognised:
  assumes cf: "conf_ok (length (ProposerList c)) header scs" "ProposerList c \<noteq> []" "n \<le> length scs"
    and unique: "\<forall>sc \<in> set (take n scs). \<forall>sc' \<in> set (take n scs). \<forall>x. x \<in> dial_addresses sc \<and> x \<in> dial_addresses sc' \<longrightarrow> sc_id sc' = sc_id sc"
    and ids: "\<forall>k < n. sc_id (scs ! k) = int k"
    and dialer: "parseConf c (Some (conf_file header scs)) (int n) s = Done () v" "ServerList s = []" "0 \<le> ServerID c" "ServerID c < int n"
    and acceptor: "thenG (parseConf c' (Some (conf_file header scs)) (int n)) (initConns (int n)) s' = Done () w" "ProposerList c' = ProposerList c"
    and dial: "establishDialConn nw c p addr ph v = Done (Some (here, there)) v'"
  shows "\<exists>w'. connRegistration here ph w = Done (Some (ServerID c)) w'
    \<and> concierge w' ph ! nat (ServerID c) = Some \<lparr>SID = ServerID c, remote = here\<rparr>"
proof -
  let ?sc = "scs ! nat (ServerID c)" and ?j = "first_index (ProposerList c) p 0"
  note v = parseConf_reads [OF cf unique dialer(1)]
  have k: "nat (ServerID c) < n" "nat (ServerID c) < length scs" using dialer(3,4) cf(3) by simp_all
  then have sc: "?sc \<in> set (take n scs)" by (simp add: in_set_conv_nth) (use k in \<open>force intro: exI [of _ "nat (ServerID c)"]\<close>)
  have "\<forall>x \<in> set scs. length (sc_rows x) = length (ProposerList c) \<and> (\<forall>ports \<in> set (sc_rows x). length ports = 10)"
    using cf(1) by (auto simp: conf_ok_def)
  then have rows: "length (sc_rows ?sc) = length (ProposerList c)" "\<forall>ports \<in> set (sc_rows ?sc). length ports = 10"
    using nth_mem [OF k(2)] by blast+
  have j: "?j \<noteq> - 1" using dial by (auto simp: establishDialConn_def Let_def split: if_splits)
  then have jb: "0 \<le> ?j" "?j < int (length (sc_rows ?sc))" using first_index_bound [of "ProposerList c" p 0] rows(1) by simp_all
  obtain q where q: "conf_ports ?sc (dial_port ph + ?j * NOP * 2) = Some q" "sc_ip ?sc @ '':'' @ q \<in> dial_addresses ?sc"
    using dial_port_address [OF rows(2) jb] by blast
  have "server_addr (ServerID c) (dial_port ph + ?j * NOP * 2) v = Done (sc_ip ?sc @ '':'' @ q) v"
    using server_addr_run [of v "take n scs" "ServerID c" "dial_port ph + ?j * NOP * 2"] v(1) dialer k q(1) by simp
  then have here: "here = sc_ip ?sc @ '':'' @ q"
    using dial j by (auto simp: establishDialConn_def Let_def split: if_splits)
  obtain w0 where w0: "parseConf c' (Some (conf_file header scs)) (int n) s' = Done () w0" "initConns (int n) w0 = Done () w"
    using thenG_DoneD [OF acceptor(1)] by auto
  have "serverIdLookup w0 here = Some (sc_id ?sc)"
    using parseConf_reads(2) [OF _ _ cf(3) unique w0(1) sc, of here] cf acceptor(2) q(2) here by simp
  then have "serverIdLookup w here = Some (ServerID c)" "concierge w ph = replicate n None"
    using w0(2) ids k dialer(3) by (auto simp: initConns_def)
  then show ?thesis using dialer(3,4) k by (simp add: connRegistration_def)
qed

section \<open>The accept loop\<close>

text \<open>The servers in the order of their first connection.\<close>

definition joined :: "int list \<Rightarrow> int list \<Rightarrow> int list" where
  "joined l sids = foldl (\<lambda>l sid. if sid \<in> set l then l else l @ [sid]) l sids"

definition connected_as :: "phase \<Rightarrow> (int \<times> string) list \<Rightarrow> node \<Rightarrow> node" where
  "connected_as ph conns s = s\<lparr>concierge := (concierge s)(ph := foldl (\<lambda>d (sid, a). d[nat sid := Some \<lparr>SID = sid, remote = a\<rparr>]) (concierge s ph) conns),
     ValidatorList := joined (ValidatorList s) (map fst conns)\<rparr>"

lemma accept_validators_run:
  assumes "\<forall>(sid, a) \<in> set conns. serverIdLookup s a = Some sid \<and> 0 \<le> sid \<and> sid < int (length (concierge s ph))"
    and "connected + int (length conns) = NumOfConn c - int (length (ProposerList c))" "conns \<noteq> []"
  shows "accept_validators c ph connected (map (\<lambda>a. Some (snd a)) conns @ later) s
    = Done (AllConnected, concat (map (\<lambda>a. handler_of ph (fst a)) conns)) (connected_as ph conns s)"
  using assms
proof (induction conns arbitrary: connected s)
  case (Cons ca conns)
  obtain sid a where ca: "ca = (sid, a)" by (cases ca)
  let ?u = "connected_as ph [(sid, a)] s"
  have reg: "connRegistration a ph s = Done (Some sid) (s\<lparr>concierge := (concierge s)(ph := (concierge s ph)[nat sid := Some \<lparr>SID = sid, remote = a\<rparr>])\<rparr>)"
    using Cons.prems(1) ca by (simp add: connRegistration_def)
  have add: "add_validator sid (s\<lparr>concierge := (concierge s)(ph := (concierge s ph)[nat sid := Some \<lparr>SID = sid, remote = a\<rparr>])\<rparr>) = Done () ?u"
    by (simp add: add_validator_def connected_as_def joined_def)
  have split: "connected_as ph ((sid, a) # conns) s = connected_as ph conns ?u"
    by (simp add: connected_as_def joined_def)
  show ?case
  proof (cases conns)
    case Nil
    then show ?thesis using reg add Cons.prems(2) ca by simp
  next
    case (Cons y ys)
    have ne: "connected + 1 \<noteq> NumOfConn c - int (length (ProposerList c))" using Cons.prems(2) Cons by simp
    have "accept_validators c ph (connected + 1) (map (\<lambda>a. Some (snd a)) conns @ later) ?u
        = Done (AllConnected, concat (map (\<lambda>a. handler_of ph (fst a)) conns)) (connected_as ph conns ?u)"
      by (rule Cons.IH) (use Cons.prems Cons in \<open>auto simp: connected_as_def\<close>)
    then show ?thesis using reg add ne ca split by simp
  qed
qed simp

section \<open>Witnesses\<close>

definition detour_cfg :: "int \<Rightarrow> cfg" where
  "detour_cfg i = demo_cfg\<lparr>ServerID := i, EvaluateComPossibilityFlag := True, AllowBypassRoute := True\<rparr>"

text \<open>Vehicle 3 hears proposer 1 only; chain 0 belongs to proposer 0.\<close>

definition detour_node :: node where
  "detour_node = init_node\<lparr>blockchainInfo := (\<lambda>_. Some (\<lambda>_. Some 0)), dialogMgr := (\<lambda>ph p. Some \<lparr>SID = p, remote = []\<rparr>),
     concierge := (\<lambda>_. replicate 4 (Some \<lparr>SID = 0, remote = []\<rparr>)), valToProComTimeMap := (\<lambda>_. Some (\<lambda>_. Some [1]))\<rparr>"

theorem detoured_reply_arrives_witness:
  "\<exists>v' q' p' p'' js. reply_to demo_env (detour_cfg 3) (OPAReply (opa_reply 0 5 [1])) None (opar_BlockchainId (opa_reply 0 5 [1])) OPA OPB detour_node = Done () v'
    \<and> outbox v' = outbox detour_node @ [(Dialog OPB (ServerID (detour_cfg 1)), OPAReply (opa_reply 0 5 [1]))]
    \<and> handleOPBConns demo_env (detour_cfg 1) (ServerID (detour_cfg 3)) [Received (opa_reply 0 5 [1])] detour_node = Done \<lparr>running = True, jobs = [], held = 1\<rparr> q'
    \<and> outbox q' = outbox detour_node @ [(Dialog OPB (ServerID (detour_cfg 0)), Between (OPAReply (opa_reply 0 5 [1])) (ServerID (detour_cfg 3)) (ServerID (detour_cfg 0)) OPB)]
    \<and> handleProposerOPBConns demo_env (ServerID (detour_cfg 1)) [Received (OPAReply (opa_reply 0 5 [1]), ServerID (detour_cfg 3), ServerID (detour_cfg 0), OPB)] detour_node
        = Done \<lparr>running = True, jobs = js, held = 0\<rparr> p'
    \<and> handleOPBConns demo_env (detour_cfg 0) (ServerID (detour_cfg 3)) [Received (opa_reply 0 5 [1])] detour_node = Done \<lparr>running = True, jobs = js, held = 0\<rparr> p''"
  by (rule detoured_reply_arrives [where rest = "[]"])
    (simp_all add: detour_cfg_def detour_node_def talks_to_def registered_at_def nget_def opa_reply_def)

definition open_network :: network where
  "open_network = \<lparr>resolves = (\<lambda>_. True), listens = (\<lambda>_. True), dials = (\<lambda>_ _ i. i = 2)\<rparr>"

theorem dialed_is_recognised_witness:
  "\<exists>v w here there v' w'. parseConf (demo_cfg\<lparr>ProposerList := [0], ServerID := 1\<rparr>) (Some (conf_file ''id'' conf_demo)) (int 2) init_node = Done () v
    \<and> thenG (parseConf (demo_cfg\<lparr>ProposerList := [0], ServerID := 0\<rparr>) (Some (conf_file ''id'' conf_demo)) (int 2)) (initConns (int 2)) init_node = Done () w
    \<and> establishDialConn open_network (demo_cfg\<lparr>ProposerList := [0], ServerID := 1\<rparr>) 0 ''10.0.0.1:2'' CPA v = Done (Some (here, there)) v'
    \<and> connRegistration here CPA w = Done (Some 1) w' \<and> concierge w' CPA ! 1 = Some \<lparr>SID = 1, remote = here\<rparr>"
proof -
  let ?c = "demo_cfg\<lparr>ProposerList := [0], ServerID := 1\<rparr>" and ?c' = "demo_cfg\<lparr>ProposerList := [0], ServerID := 0\<rparr>"
  let ?file = "Some (conf_file ''id'' conf_demo)"
  have ok: "conf_ok (length (ProposerList ?c)) ''id'' conf_demo" "ProposerList ?c \<noteq> []" "2 \<le> length conf_demo"
    using conf_demo_ok by (simp_all add: conf_demo_def)
  have ok': "conf_ok (length (ProposerList ?c')) ''id'' conf_demo" "ProposerList ?c' \<noteq> []" "2 \<le> length conf_demo"
    using conf_demo_ok by (simp_all add: conf_demo_def)
  obtain v where v: "parseConf ?c ?file (int 2) init_node = Done () v" using parseConf_run [OF ok, of init_node] by auto
  obtain w0 where w0: "parseConf ?c' ?file (int 2) init_node = Done () w0" using parseConf_run [OF ok', of init_node] by auto
  obtain w where w: "thenG (parseConf ?c' ?file (int 2)) (initConns (int 2)) init_node = Done () w"
    using w0 by (simp add: initConns_def)
  have "ServerList v = map conf_server conf_demo"
    using parseConf_reads(1) [OF ok conf_demo_unique v] by (simp add: init_node_def conf_demo_def)
  then have "\<exists>here. server_addr 1 (dial_port CPA) v = Done here v" by (simp add: server_addr_def conf_demo_def)
  then have "\<exists>here there v'. establishDialConn open_network ?c 0 ''10.0.0.1:2'' CPA v = Done (Some (here, there)) v'"
    by (auto simp: establishDialConn_def open_network_def)
  then obtain here there v' where d: "establishDialConn open_network ?c 0 ''10.0.0.1:2'' CPA v = Done (Some (here, there)) v'" by blast
  have "\<exists>w'. connRegistration here CPA w = Done (Some (ServerID ?c)) w' \<and> concierge w' CPA ! nat (ServerID ?c) = Some \<lparr>SID = ServerID ?c, remote = here\<rparr>"
    by (rule dialed_is_recognised [OF ok conf_demo_unique _ v _ _ _ w _ d]) (simp_all add: conf_demo_def init_node_def less_2_cases_iff)
  then show ?thesis using v w d by auto
qed

end
