(* ===== verification/Workload.thy ===== *)
theory Workload
  imports Ordering
begin

text \<open>
  The mock workload (\<open>utilities.go\<close>): one queue of random proposals for every ordering worker. The random numbers and the
  microsecond clock are parameters, numbered by their calls.
\<close>

record mock =
  randIntn :: "nat \<Rightarrow> nat"
  unixMicro :: "nat \<Rightarrow> int64"

definition MaxQueue :: nat where
  "MaxQueue = 10000000"

definition charset :: string where
  "charset = ''abcdefghijklmnopqrstuvwxyzABCDEFGHIJKLMNOPQRSTUVWXYZ0123456789''"

fun mapG :: "'a list \<Rightarrow> ('a \<Rightarrow> ('s, 'b) go) \<Rightarrow> ('s, 'b list) go" where
  "mapG [] f = ret []"
| "mapG (x # xs) f = bindG (f x) (\<lambda>y. bindG (mapG xs f) (\<lambda>ys. ret (y # ys)))"

text \<open>\<open>Intn(k)\<close> answers a number below \<open>k\<close>; \<open>draw\<close> is the number of earlier calls.\<close>

definition mockRandomBytes :: "mock \<Rightarrow> nat \<Rightarrow> int \<Rightarrow> (node, bytes) go" where
  "mockRandomBytes mk draw len =
     (if len < 0 then panicG (PanicMsg ''makeslice: len out of range'')
      else ret (map (\<lambda>k. of_char (charset ! (randIntn mk (draw + k) mod length charset))) [0..<nat len]))"

text \<open>The channel holds \<open>MaxQueue\<close> proposals and nobody receives yet, so one more send waits for ever.\<close>

definition load_queue :: "mock \<Rightarrow> cfg \<Rightarrow> int \<Rightarrow> nat \<Rightarrow> (node, Proposal list) go" where
  "load_queue mk c len w =
     (let load = nat (sint (MsgLoad c)) in
      bindG (mapG [0..<load] (\<lambda>i.
        bindG (mockRandomBytes mk ((w * load + i) * nat len) len) (\<lambda>tx.
        ret \<lparr>Timestamp = unixMicro mk (w * load + i), Transaction = tx\<rparr>))) (\<lambda>q.
      if length q > MaxQueue then blockG else ret q))"

definition txGenerator :: "mock \<Rightarrow> cfg \<Rightarrow> int \<Rightarrow> (node, unit) go" where
  "txGenerator mk c len = forG [0..<nat (NumOfValidators c)] (\<lambda>w.
     bindG (load_queue mk c len w) (\<lambda>q. modG (\<lambda>s. s\<lparr>requestQueue := requestQueue s @ [q]\<rparr>)))"

lemma charset_length [simp]: "length charset = 62"
  by (simp add: charset_def)

lemma mapG_pure: "(\<And>x. x \<in> set xs \<Longrightarrow> f x = ret (g x)) \<Longrightarrow> mapG xs f s = Done (map g xs) s"
  by (induction xs) (auto simp: bindG_def)

definition mock_tx :: "mock \<Rightarrow> int \<Rightarrow> nat \<Rightarrow> bytes" where
  "mock_tx mk len n = map (\<lambda>k. of_char (charset ! (randIntn mk (n * nat len + k) mod 62))) [0..<nat len]"

definition mock_queue :: "mock \<Rightarrow> nat \<Rightarrow> int \<Rightarrow> nat \<Rightarrow> Proposal list" where
  "mock_queue mk load len w = map (\<lambda>i. \<lparr>Timestamp = unixMicro mk (w * load + i), Transaction = mock_tx mk len (w * load + i)\<rparr>) [0..<load]"

lemma load_queue_run:
  assumes "0 \<le> len" "nat (sint (MsgLoad c)) \<le> MaxQueue"
  shows "load_queue mk c len w s = Done (mock_queue mk (nat (sint (MsgLoad c))) len w) s"
proof -
  let ?load = "nat (sint (MsgLoad c))"
  have "mapG [0..<?load] (\<lambda>i. bindG (mockRandomBytes mk ((w * ?load + i) * nat len) len)
      (\<lambda>tx. ret \<lparr>Timestamp = unixMicro mk (w * ?load + i), Transaction = tx\<rparr>)) s = Done (mock_queue mk ?load len w) s"
    unfolding mock_queue_def
    by (rule mapG_pure) (use assms(1) in \<open>auto simp: mockRandomBytes_def mock_tx_def bindG_def ret_def fun_eq_iff\<close>)
  then show ?thesis using assms(2) by (simp add: load_queue_def Let_def mock_queue_def)
qed

lemma txGenerator_run:
  assumes "0 \<le> len" "nat (sint (MsgLoad c)) \<le> MaxQueue"
  shows "txGenerator mk c len s = Done () (s\<lparr>requestQueue := requestQueue s @ map (mock_queue mk (nat (sint (MsgLoad c))) len) [0..<nat (NumOfValidators c)]\<rparr>)"
proof -
  have "forG ws (\<lambda>w. bindG (load_queue mk c len w) (\<lambda>q. modG (\<lambda>s. s\<lparr>requestQueue := requestQueue s @ [q]\<rparr>))) s
      = Done () (s\<lparr>requestQueue := requestQueue s @ map (mock_queue mk (nat (sint (MsgLoad c))) len) ws\<rparr>)" for ws s
    by (induction ws arbitrary: s) (simp_all add: load_queue_run [OF assms])
  then show ?thesis by (simp add: txGenerator_def)
qed

text \<open>On an open queue the worker does the same and then waits for more proposals.\<close>

lemma current_loop_waits:
  "current_loop ky en c fuel True q sh s = Done () t \<Longrightarrow> current_loop ky en c fuel False q sh s = Blocked t"
proof (induction q arbitrary: sh s)
  case (Cons m q)
  show ?case
  proof (cases "BatchSize c \<le> counter (put_entry sh m)")
    case True
    then obtain sh' u where "makeAndBroadcast ky en c fuel (put_entry sh m) s = Done sh' u" "current_loop ky en c fuel True q sh' u = Done () t"
      using Cons.prems by (auto simp: Let_def dest!: bindG_DoneD)
    then show ?thesis using True Cons.IH by (simp add: Let_def)
  qed (use Cons in \<open>simp add: Let_def\<close>)
qed simp

text \<open>C24: From the generated workload to the chain, for a proposer with one ordering worker (\<open>-w 1\<close>) in the batch-size driven mode:
  \<open>txGenerator\<close> loads one queue of \<open>MsgLoad\<close> proposals of \<open>MsgSize\<close> bytes, and the worker then puts the whole queue on the chain, in full
  batches and in order, but for the last incomplete batch, and waits: the queue is never closed. This needs, at every look at the
  clock, more than two participating vehicles, whose numbers are indices of the connection table (\<open>world_ok\<close>). Several workers
  run concurrently on one counter, and can replace each other's blocks (\<open>Workers.workers_share_id\<close>); nothing is claimed for them here.\<close>

theorem workload_ordered:
  assumes "world_ok en c s" "PerfMetres c \<longrightarrow> LatMetreInterval c \<noteq> 0"
    and "BatchSize c = int n" "0 < n" "\<not> UsePeriodicOrdering c"
    and load: "0 \<le> MsgSize c" "nat (sint (MsgLoad c)) \<le> MaxQueue" "requestQueue s = []" and one: "NumOfValidators c = 1"
  shows "\<exists>s1 q t. txGenerator mk c (MsgSize c) s = Done () s1 \<and> requestQueue s1 = [q]
    \<and> length q = nat (sint (MsgLoad c)) \<and> (\<forall>p \<in> set q. length (Transaction p) = nat (MsgSize c))
    \<and> startOrderingPhaseA ky en c (Suc fuel) False sched 0 s1 = Blocked t
    \<and> chain_holds en c (batches n (map entry_of q)) s1 t"
proof -
  let ?load = "nat (sint (MsgLoad c))"
  let ?q = "mock_queue mk ?load (MsgSize c) 0"
  let ?s1 = "s\<lparr>requestQueue := [?q]\<rparr>"
  have gen: "txGenerator mk c (MsgSize c) s = Done () ?s1"
    using txGenerator_run [OF load(1,2), of mk s] load(3) one by simp
  have w: "world_ok en c ?s1"
    by (rule world_ok_frame [OF _ assms(1)]) (simp add: world_frame_def)
  have len: "length ?q = ?load" by (simp add: mock_queue_def)
  have "length ?q < 2 ^ 64" unfolding len using load(2) by (simp add: MaxQueue_def)
  then obtain t where t: "current_loop ky en c (Suc fuel) True ?q empty_shuffle ?s1 = Done () t" "chain_holds en c (batches n (map entry_of ?q)) ?s1 t"
    using current_ordering_complete [OF w assms(2,3,4)] by blast
  have "startOrderingPhaseA ky en c (Suc fuel) False sched 0 ?s1 = Blocked t"
    using current_loop_waits [OF t(1)] assms(5) unfolding startOrderingPhaseA_def by simp
  moreover have "\<forall>p \<in> set ?q. length (Transaction p) = nat (MsgSize c)" by (auto simp: mock_queue_def mock_tx_def)
  ultimately show ?thesis using gen t(2) len
    by (intro exI [of _ ?s1] exI [of _ ?q] exI [of _ t]) simp
qed

definition demo_mock :: mock where
  "demo_mock = \<lparr>randIntn = (\<lambda>k. 7 * k), unixMicro = of_nat\<rparr>"

theorem workload_ordered_witness:
  "\<exists>s1 q t. txGenerator demo_mock ord_cfg (MsgSize ord_cfg) ord_node = Done () s1 \<and> requestQueue s1 = [q]
    \<and> length q = nat (sint (MsgLoad ord_cfg)) \<and> (\<forall>p \<in> set q. length (Transaction p) = nat (MsgSize ord_cfg))
    \<and> startOrderingPhaseA demo_kyber demo_env ord_cfg (Suc 0) False [] 0 s1 = Blocked t
    \<and> chain_holds demo_env ord_cfg (batches 2 (map entry_of q)) s1 t"
  by (rule workload_ordered [OF ord_world_ok]) (simp_all add: ord_cfg_def demo_cfg_def MaxQueue_def ord_node_def demo_node_def init_node_def)

end
