(* ===== verification/Roles.thy ===== *)
theory Roles
  imports Conns Workload
begin

text \<open>
  Start-up (\<open>main.go\<close>, \<open>handlers.go\<close>, \<open>runAsProposer\<close>, \<open>runAsValidator\<close>). The accept loops of one stage run concurrently
  in the program and are waited for together; they write different phases of \<open>concierge\<close> and are run one after the other here.
\<close>

section \<open>Initialisation\<close>

definition metre_init :: "(node, unit) go" where
  "metre_init = modG (\<lambda>s. s\<lparr>metre_startTime := [], metre_orderTime := []\<rparr>)"

text \<open>\<open>True\<close> when the process runs as a proposer.\<close>

definition takingInitRoles :: "cfg \<Rightarrow> (node, bool) go" where
  "takingInitRoles c = thenG (modG (\<lambda>s. s\<lparr>proposerLookup := (\<lambda>_. ProposerList c)\<rparr>)) (ret (ServerID c \<in> set (ProposerList c)))"

definition program_main :: "cfg \<Rightarrow> (node, bool) go" where
  "program_main c = thenG (modG (\<lambda>s. s\<lparr>vgInst := vgInst s + 1\<rparr>)) (takingInitRoles c)"

section \<open>Validator\<close>

text \<open>\<open>proposerLookup.m[phase][index]\<close>\<close>

definition lookup_at :: "phase \<Rightarrow> nat \<Rightarrow> (node, int) go" where
  "lookup_at ph index = bindG (getG (\<lambda>s. proposerLookup s ph)) (\<lambda>l. idxG l (int index))"

definition receivers_at :: "nat \<Rightarrow> (node, job list) go" where
  "receivers_at index =
     bindG (lookup_at OPA index) (\<lambda>p0. bindG (lookup_at OPB index) (\<lambda>p1. bindG (lookup_at CPA index) (\<lambda>p2.
     bindG (lookup_at CPB index) (\<lambda>p3. bindG (lookup_at TIME index) (\<lambda>p4.
     ret [Receive_OA p0, Receive_OB p1, Receive_CA p2, Receive_CB p3, Receive_TIME p4])))))"

definition runAsValidator :: "network \<Rightarrow> env \<Rightarrow> cfg \<Rightarrow> (node, job list) go" where
  "runAsValidator nw en c =
     thenG (fetchValToProComTimeMap en [ServerID c])
     (bindG (getG (\<lambda>s. proposerLookup s OPA)) (\<lambda>ps.
     thenG (forG ps (register_all nw c))
     (bindG (mapG [0..<length ps] receivers_at) (\<lambda>js. ret (concat js)))))"

section \<open>Proposer\<close>

definition own_chain :: "cfg \<Rightarrow> (node, unit) go" where
  "own_chain c = forG phases (\<lambda>ph. modG (\<lambda>s. s\<lparr>blockchainInfo := nset (blockchainInfo s) (ServerID c) ph (ServerID c)\<rparr>))"

definition relays_at :: "nat \<Rightarrow> (node, job list) go" where
  "relays_at index =
     bindG (lookup_at OPA index) (\<lambda>p0. bindG (lookup_at OPB index) (\<lambda>p1. bindG (lookup_at CPA index) (\<lambda>p2.
     bindG (lookup_at CPB index) (\<lambda>p3. bindG (lookup_at TIME index) (\<lambda>p4.
     ret [Relay p0 OPA, Relay p1 OPB, Relay p2 CPA, Relay p3 CPB, Receive_TIME p4])))))"

definition dial_proposers :: "network \<Rightarrow> cfg \<Rightarrow> (node, job list) go" where
  "dial_proposers nw c =
     bindG (getG (\<lambda>s. proposerLookup s OPA)) (\<lambda>ps.
     thenG (forG ps (\<lambda>p. if p = ServerID c then ret () else register_all nw c p))
     (bindG (mapG [0..<length ps] (\<lambda>i. if ps ! i = ServerID c then ret [] else relays_at i)) (\<lambda>js. ret (concat js))))"

definition set_start_time :: "env \<Rightarrow> (node, unit) go" where
  "set_start_time en = bindG (nowG en) (\<lambda>t. modG (\<lambda>s. s\<lparr>simulationStartTime := t\<rparr>))"

text \<open>The busy wait for \<open>InitialSyncBufferTime\<close> seconds, for a number of looks at the clock.\<close>

fun await_start :: "env \<Rightarrow> nat \<Rightarrow> (node, unit) go" where
  "await_start en 0 = blockG"
| "await_start en (Suc fuel) = bindG (nowG en) (\<lambda>t. bindG (getG simulationStartTime) (\<lambda>t0.
     if 100000 <s t - t0 then ret () else await_start en fuel))"

definition start_workers :: "cfg \<Rightarrow> job list" where
  "start_workers c = (if ServerID c = MainProposerId c
     then map Ordering_Worker [0..<nat (NumOfValidators c)] @ [Consensus_Worker] else [])"

definition load_data :: "mock \<Rightarrow> env \<Rightarrow> cfg \<Rightarrow> (node, unit) go" where
  "load_data mk en c =
     thenG (fetchProToValComTimeMap en [ServerID c])
     (thenG (bindG (getG ValidatorList) (fetchValToProComTimeMap en))
     (txGenerator mk c (MsgSize c)))"

text \<open>
  A panic of the goroutine of \<open>runAsProposer\<close> itself is caught by its \<open>recover\<close>: the goroutine ends, those it started go
  on. A panic in a goroutine it started (an accept loop, the broadcast of the start time) is not caught.
\<close>

definition guarded :: "job list \<Rightarrow> (node, 'a) go \<Rightarrow> ('a \<Rightarrow> (node, job list) go) \<Rightarrow> (node, job list) go" where
  "guarded sofar m k = (\<lambda>s. case m s of Done a t \<Rightarrow> k a t | Panicked p t \<Rightarrow> Done sofar t | Blocked t \<Rightarrow> Blocked t)"

text \<open>
  \<open>valConns\<close> and \<open>propConns\<close> are the connections accepted in each phase. An accept loop that stops, or is not yet
  complete, leaves \<open>wg.Wait()\<close> waiting.
\<close>

definition runAsProposer :: "network \<Rightarrow> mock \<Rightarrow> env \<Rightarrow> cfg \<Rightarrow> nat \<Rightarrow> int \<Rightarrow> (phase \<Rightarrow> string option list) \<Rightarrow> (phase \<Rightarrow> string option list) \<Rightarrow> (node, job list) go" where
  "runAsProposer nw mk en c fuel proposerId valConns propConns =
     guarded [] (thenG (fetchArteryData en c) (own_chain c)) (\<lambda>_.
     bindG (mapG phases (\<lambda>ph. acceptValidatorConns nw c proposerId ph (valConns ph))) (\<lambda>vs.
     if \<exists>(a, j) \<in> set vs. a \<noteq> AllConnected then blockG else
     bindG (mapG phases (\<lambda>ph. acceptProposerConns nw c proposerId ph (propConns ph))) (\<lambda>ps.
     let handlers = concat (map snd vs) @ concat (map snd ps) in
     guarded handlers (dial_proposers nw c) (\<lambda>relays.
     if \<exists>(done, j) \<in> set ps. \<not> done then blockG else
     thenG (set_start_time en)
     (thenG (handleProposerTIMEConns en c)
     (guarded (handlers @ relays) (thenG (load_data mk en c) (await_start en fuel)) (\<lambda>_.
     ret (handlers @ relays @ start_workers c))))))))"

section \<open>Start-up waits for every validator\<close>

lemma pres_mapG: "(\<And>x. pres P (f x)) \<Longrightarrow> pres P (mapG xs f)"
  by (induction xs) (auto intro!: pres_intros)

lemma pres_guarded: "pres P m \<Longrightarrow> (\<And>a. pres P (k a)) \<Longrightarrow> pres P (guarded js m k)"
  by (fastforce simp: pres_def guarded_def split: outcome.splits)

lemma mapG_Done_each:
  assumes "mapG xs f s = Done ys t" "\<And>x. pres P (f x)" "P s" "x \<in> set xs"
  shows "\<exists>y u v. y \<in> set ys \<and> P u \<and> f x u = Done y v \<and> (\<forall>Q. (\<forall>x. pres Q (f x)) \<longrightarrow> Q v \<longrightarrow> Q t)"
  using assms(1,3,4)
proof (induction xs arbitrary: s ys t)
  case (Cons z zs)
  obtain y u where y: "f z s = Done y u" and rest: "bindG (mapG zs f) (\<lambda>ys. ret (y # ys)) u = Done ys t"
    using Cons.prems(1) by (auto dest: bindG_DoneD)
  obtain ys' where ys: "mapG zs f u = Done ys' t" "ys = y # ys'"
    using rest by (auto dest!: bindG_DoneD)
  have "P u" using presD [OF assms(2), of s z] y Cons.prems(2) by simp
  show ?case
  proof (cases "x = z")
    case True
    have "Q u \<Longrightarrow> \<forall>x. pres Q (f x) \<Longrightarrow> Q t" for Q
      using presD [OF pres_mapG, of Q f u zs] ys(1) by simp
    then show ?thesis using y ys(2) Cons.prems(2) True by (intro exI [of _ y] exI [of _ s] exI [of _ u]) auto
  next
    case False
    then have "x \<in> set zs" using Cons.prems(3) by simp
    from Cons.IH [OF ys(1) \<open>P u\<close> this] show ?thesis using ys(2) by auto
  qed
qed simp

definition same_lookup :: "(string \<rightharpoonup> int) \<Rightarrow> node \<Rightarrow> bool" where
  "same_lookup L s \<longleftrightarrow> serverIdLookup s = L"

lemma same_lookup_update [simp]:
  "same_lookup L (s\<lparr>concierge := x\<rparr>) = same_lookup L s" "same_lookup L (s\<lparr>ValidatorList := l\<rparr>) = same_lookup L s"
  by (simp_all add: same_lookup_def)

lemma pres_accept_validators [pres_intros]: "pres (same_lookup L) (accept_validators c ph m conns)"
proof (induction c ph m conns rule: accept_validators.induct)
  case (3 c ph m a conns)
  show ?case
    unfolding accept_validators.simps connRegistration_def add_validator_def
    by (auto intro!: pres_intros 3)
qed (simp_all only: accept_validators.simps pres_ret)

lemma pres_acceptValidatorConns: "pres (same_lookup L) (acceptValidatorConns nw c p ph conns)"
  unfolding acceptValidatorConns_def server_addr_def by (auto intro!: pres_intros)

text \<open>A connection is registered under its server, and stays.\<close>

definition docked :: "phase \<Rightarrow> int \<Rightarrow> node \<Rightarrow> bool" where
  "docked ph sid s \<longleftrightarrow> 0 \<le> sid \<and> nat sid < length (concierge s ph) \<and> concierge s ph ! nat sid \<noteq> None"

lemma docked_update [simp]:
  "docked ph sid (s\<lparr>sent := v1\<rparr>) = docked ph sid s" "docked ph sid (s\<lparr>broadcastError := v2\<rparr>) = docked ph sid s"
  "docked ph sid (s\<lparr>clock_reads := v3\<rparr>) = docked ph sid s" "docked ph sid (s\<lparr>ValidatorList := v4\<rparr>) = docked ph sid s"
  "docked ph sid (s\<lparr>blockchainInfo := v5\<rparr>) = docked ph sid s" "docked ph sid (s\<lparr>dialogMgr := v6\<rparr>) = docked ph sid s"
  "docked ph sid (s\<lparr>simulationStartTime := v7\<rparr>) = docked ph sid s" "docked ph sid (s\<lparr>requestQueue := v8\<rparr>) = docked ph sid s"
  "docked ph sid (s\<lparr>proToValComTimeMap := v9\<rparr>) = docked ph sid s" "docked ph sid (s\<lparr>valToProComTimeMap := v10\<rparr>) = docked ph sid s"
  by (simp_all add: docked_def)

lemma pres_docked_registration [pres_intros]: "pres (docked ph sid) (connRegistration a ph')"
  by (rule presI) (auto simp: connRegistration_def docked_def bindG_def getG_def nth_list_update split: option.splits)

lemma pres_docked_validators [pres_intros]: "pres (docked ph sid) (accept_validators c ph' m conns)"
proof (induction c ph' m conns rule: accept_validators.induct)
  case (3 c ph m a conns)
  show ?case unfolding accept_validators.simps add_validator_def by (auto intro!: pres_intros 3)
qed (simp_all only: accept_validators.simps pres_ret)

lemma pres_docked_proposers [pres_intros]: "pres (docked ph sid) (accept_proposers c ph' m conns)"
proof (induction c ph' m conns rule: accept_proposers.induct)
  case (3 c ph m a conns)
  show ?case unfolding accept_proposers.simps by (auto intro!: pres_intros 3)
qed (simp_all only: accept_proposers.simps pres_ret)

lemma pres_docked_register [pres_intros]: "pres (docked ph sid) (register_all nw c p)"
  unfolding register_all_def registerDialConn_def establishDialConn_def server_addr_def Let_def split_beta
  by (auto intro!: pres_intros split: option.split)

lemma pres_docked_dials: "pres (docked ph sid) (dial_proposers nw c)"
  unfolding dial_proposers_def relays_at_def lookup_at_def by (auto intro!: pres_intros pres_mapG)

lemma pres_docked_clock: "pres (docked ph sid) (nowG en)"
  by (rule presI) simp

lemma pres_docked_try_send [pres_intros]: "pres (docked ph sid) (try_send en d m)"
  by (rule presI) (simp add: try_send_def set_broadcastError_def)

lemma pres_docked_start: "pres (docked ph sid) (set_start_time en)" "pres (docked ph sid) (handleProposerTIMEConns en c)"
  unfolding set_start_time_def handleProposerTIMEConns_def broadcastToAll_def
  by (intro pres_intros pres_docked_clock; simp)+

lemma pres_docked_await: "pres (docked ph sid) (await_start en fuel)"
proof (induction fuel)
  case (Suc fuel)
  then show ?case unfolding await_start.simps by (intro pres_intros pres_docked_clock)
qed (simp only: await_start.simps pres_blockG)

lemma pres_docked_load: "pres (docked ph sid) (load_data mk en c)"
proof -
  have "pres (docked ph sid) (fetchProToValComTimeMap en ps)" "pres (docked ph sid) (fetchValToProComTimeMap en ps)" for ps
    by (induction ps) (auto intro!: pres_intros split: option.split)
  then show ?thesis
    unfolding load_data_def txGenerator_def load_queue_def mockRandomBytes_def Let_def by (auto intro!: pres_intros pres_mapG)
qed

text \<open>
  What an accept loop has seen when it is complete: the first connections came from addresses of the cluster
  file, and the servers they belong to, as many as were expected but not always different ones, are registered.
\<close>

definition all_recognised :: "(string \<rightharpoonup> int) \<Rightarrow> int \<Rightarrow> phase \<Rightarrow> string option list \<Rightarrow> node \<Rightarrow> bool" where
  "all_recognised L n ph conns t \<longleftrightarrow> (\<exists>sids. sids \<noteq> [] \<and> int (length sids) = n
     \<and> map (\<lambda>x. Option.bind x L) (take (length sids) conns) = map Some sids \<and> (\<forall>sid \<in> set sids. docked ph sid t))"

lemma connRegistration_docks:
  assumes "connRegistration a ph s = Done (Some sid) u"
  shows "serverIdLookup s a = Some sid \<and> docked ph sid u"
  using assms by (auto simp: connRegistration_def docked_def bindG_def getG_def split: option.splits if_splits)

lemma accept_validators_all:
  assumes "accept_validators c ph m conns s = Done (AllConnected, js) t" "same_lookup L s"
  shows "all_recognised L (NumOfConn c - int (length (ProposerList c)) - m) ph conns t"
  using assms
proof (induction c ph m conns arbitrary: s js rule: accept_validators.induct)
  case (3 c ph m a conns)
  let ?n = "NumOfConn c - int (length (ProposerList c))"
  obtain r u where r: "connRegistration a ph s = Done r u" using "3.prems"(1) by (auto dest: bindG_DoneD)
  then obtain sid where sid: "r = Some sid" using "3.prems"(1) by (cases r) simp_all
  have la: "L a = Some sid" and dock: "docked ph sid u"
    using connRegistration_docks [of a ph s sid u] r sid "3.prems"(2) by (auto simp: same_lookup_def)
  have pres: "pres (same_lookup L) (connRegistration a ph)" "pres (same_lookup L) (add_validator sid)" "pres (docked ph sid) (add_validator sid)"
    unfolding connRegistration_def add_validator_def by (auto intro!: pres_intros)
  obtain v where v: "add_validator sid u = Done () v" by (simp add: add_validator_def)
  have "same_lookup L u" using presD [OF pres(1) "3.prems"(2)] r by simp
  then have sv: "same_lookup L v" using presD [OF pres(2), of u] v by simp
  have dv: "docked ph sid v" using presD [OF pres(3) dock] v by simp
  show ?case
  proof (cases "m + 1 = ?n")
    case True
    then have "t = v" "?n - m = 1" using "3.prems"(1) r sid v by simp_all
    then show ?thesis using la dv unfolding all_recognised_def by (intro exI [of _ "[sid]"]) simp
  next
    case False
    then have "bindG (accept_validators c ph (m + 1) conns) (\<lambda>(a, jobs). ret (a, handler_of ph sid @ jobs)) v = Done (AllConnected, js) t"
      using "3.prems"(1) r sid v by simp
    then obtain js' where js': "accept_validators c ph (m + 1) conns v = Done (AllConnected, js') t"
      by (auto dest!: bindG_DoneD)
    then have "all_recognised L (?n - (m + 1)) ph conns t" by (rule "3.IH" [OF False _ sv])
    then obtain sids where sids: "sids \<noteq> []" "int (length sids) = ?n - (m + 1)"
      "map (\<lambda>x. Option.bind x L) (take (length sids) conns) = map Some sids" "\<forall>sid \<in> set sids. docked ph sid t"
      unfolding all_recognised_def by blast
    have "docked ph sid t" using presD [OF pres_docked_validators dv, of c ph "m + 1" conns] js' by simp
    then show ?thesis using sids la unfolding all_recognised_def by (intro exI [of _ "sid # sids"]) simp
  qed
qed simp_all

lemma own_chain_run: "\<exists>t. own_chain c s = Done () t \<and> serverIdLookup t = serverIdLookup s"
  unfolding own_chain_def phases_def by simp

text \<open>C26: A proposer is not started before it has accepted, in every phase, as many connections as it expects validators: when \<open>runAsProposer\<close> ends,
  \<open>NumOfConn\<close> less the proposers is positive, and in each phase that many first connections all came from addresses of the cluster
  file, and the server of each is registered for the broadcasts of the phase. The connections are counted, not the servers (\<open>reconnecting_counts\<close>): only when
  they come from different servers are all expected validators connected. One connection from another address, or no
  validator expected, keeps the proposer from ever starting.\<close>

theorem startup_waits_for_all:
  assumes run: "runAsProposer nw mk en c fuel p valConns propConns s = Done r t"
  shows "\<exists>sids. sids \<noteq> [] \<and> int (length sids) = NumOfConn c - int (length (ProposerList c))
    \<and> map (\<lambda>x. Option.bind x (serverIdLookup s)) (take (length sids) (valConns ph)) = map Some sids
    \<and> (\<forall>sid \<in> set sids. 0 \<le> sid \<and> nat sid < length (concierge t ph) \<and> concierge t ph ! nat sid \<noteq> None)"
proof -
  let ?L = "serverIdLookup s" and ?n = "NumOfConn c - int (length (ProposerList c))"
  obtain u where u: "thenG (fetchArteryData en c) (own_chain c) s = Done () u" "serverIdLookup u = serverIdLookup s"
  proof -
    obtain t0 where t0: "fetchArteryData en c s = Done () t0" "serverIdLookup t0 = serverIdLookup s"
      by (cases "arteryFile en (ServerID c)") (simp_all add: fetchArteryData_def)
    then show thesis using own_chain_run [of c t0] that by auto
  qed
  let ?acc = "mapG phases (\<lambda>ph. acceptValidatorConns nw c p ph (valConns ph))"
  let ?rest = "\<lambda>vs. bindG (mapG phases (\<lambda>ph. acceptProposerConns nw c p ph (propConns ph))) (\<lambda>ps.
     let handlers = concat (map snd vs) @ concat (map snd ps) in
     guarded handlers (dial_proposers nw c) (\<lambda>relays.
     if \<exists>(done, j) \<in> set ps. \<not> done then blockG else
     thenG (set_start_time en)
     (thenG (handleProposerTIMEConns en c)
     (guarded (handlers @ relays) (thenG (load_data mk en c) (await_start en fuel)) (\<lambda>_.
     ret (handlers @ relays @ start_workers c))))))"
  obtain vs v where vs: "?acc u = Done vs v" and all: "\<not> (\<exists>(a, j) \<in> set vs. a \<noteq> AllConnected)" and rest: "?rest vs v = Done r t"
  proof (cases "?acc u")
    case (Done vs v)
    show thesis
    proof (cases "\<exists>(a, j) \<in> set vs. a \<noteq> AllConnected")
      case True
      then show thesis using run u Done by (simp add: runAsProposer_def guarded_def)
    next
      case False
      then have "?rest vs v = Done r t" using run u Done by (simp add: runAsProposer_def guarded_def [of "[]"])
      then show thesis using Done False that by blast
    qed
  qed (use run u in \<open>simp_all add: runAsProposer_def guarded_def\<close>)
  have "same_lookup ?L u" using u(2) by (simp add: same_lookup_def)
  then obtain y w w' where y: "y \<in> set vs" "same_lookup ?L w" "acceptValidatorConns nw c p ph (valConns ph) w = Done y w'"
    and onward: "\<forall>Q. (\<forall>ph. pres Q (acceptValidatorConns nw c p ph (valConns ph))) \<longrightarrow> Q w' \<longrightarrow> Q v"
    using mapG_Done_each [OF vs pres_acceptValidatorConns _ phases_all] by blast
  then obtain js where js: "y = (AllConnected, js)" using all by (cases y) auto
  obtain adr where "server_addr p (phase_num ph) w = Done adr w"
    using y(3) unfolding acceptValidatorConns_def server_addr_def by (auto dest!: bindG_DoneD simp: idxG_def split: if_splits)
  then have "accept_validators c ph 0 (valConns ph) w = Done (AllConnected, js) w'"
    using y(3) js by (auto simp: acceptValidatorConns_def split: if_splits)
  from accept_validators_all [OF this y(2)] obtain sids where sids: "sids \<noteq> []" "int (length sids) = ?n"
    "map (\<lambda>x. Option.bind x ?L) (take (length sids) (valConns ph)) = map Some sids" "\<forall>sid \<in> set sids. docked ph sid w'"
    unfolding all_recognised_def by auto
  have "docked ph sid t" if "sid \<in> set sids" for sid
  proof -
    have "pres (docked ph sid) (acceptValidatorConns nw c p ph' (valConns ph'))" for ph'
      unfolding acceptValidatorConns_def server_addr_def by (auto intro!: pres_intros)
    then have v: "docked ph sid v" using onward sids(4) that by blast
    have "pres (docked ph sid) (acceptProposerConns nw c p ph' (propConns ph'))" for ph'
      unfolding acceptProposerConns_def server_addr_def by (auto intro!: pres_intros)
    then have "pres (docked ph sid) (?rest vs)"
      unfolding Let_def by (intro pres_intros pres_mapG pres_guarded pres_docked_dials pres_docked_start pres_docked_load pres_docked_await)
    from presD [OF this v] show ?thesis using rest by simp
  qed
  then show ?thesis using sids unfolding docked_def by blast
qed

text \<open>A validator that connects twice counts for two: the accept loop for two validators ends with one of them registered.\<close>

theorem reconnecting_counts:
  assumes "NumOfConn c - int (length (ProposerList c)) = 2" "serverIdLookup s a = Some i" "0 \<le> i" "i < int (length (concierge s ph))"
    and "concierge s ph = replicate k None"
  shows "\<exists>js t. accept_validators c ph 0 [Some a, Some a] s = Done (AllConnected, js) t
    \<and> concierge t ph = (replicate k None)[nat i := Some \<lparr>SID = i, remote = a\<rparr>]"
  using assms by (auto simp: connRegistration_def add_validator_def)

section \<open>A validator's connections\<close>

text \<open>Phases and proposers with a usable connection, for the replies and for the lookup of the owner of a chain.\<close>

definition established :: "node \<Rightarrow> (phase \<times> int) set" where
  "established s = {(ph, p). dialogMgr s ph p \<noteq> None \<and> nget (blockchainInfo s) p ph = Some p}"

definition dial_ready :: "network \<Rightarrow> cfg \<Rightarrow> int list \<Rightarrow> node \<Rightarrow> bool" where
  "dial_ready nw c ps s \<longleftrightarrow> (\<forall>a. resolves nw a) \<and> (\<forall>a b. \<exists>i \<in> {0..<10}. dials nw a b i) \<and> set ps \<subseteq> set (ProposerList c)
     \<and> 0 \<le> ServerID c \<and> ServerID c < int (length (ServerList s)) \<and> (\<forall>p \<in> set ps. 0 \<le> p \<and> p < int (length (ServerList s)))
     \<and> proposerLookup s = (\<lambda>_. ps)"

lemma first_index_found: "p \<in> set ps \<Longrightarrow> 0 \<le> i \<Longrightarrow> first_index ps p i \<noteq> - 1"
proof (induction ps arbitrary: i)
  case (Cons v ps)
  then show ?case using Cons.IH [of "i + 1"] by auto
qed simp

lemma registerDialConn_run:
  assumes "dial_ready nw c ps s" "p \<in> set ps"
  shows "\<exists>t. registerDialConn nw c p ph s = Done () t \<and> dial_ready nw c ps t \<and> insert (ph, p) (established s) \<subseteq> established t"
proof -
  have addr: "\<exists>a. server_addr i port s = Done a s" if "0 \<le> i" "i < int (length (ServerList s))" for i port
    using that by (simp add: server_addr_def)
  obtain there where there: "server_addr p (phase_num ph) s = Done there s"
    using addr assms by (fastforce simp: dial_ready_def)
  have "p \<in> set (ProposerList c)" using assms by (auto simp: dial_ready_def)
  then have idx: "first_index (ProposerList c) p 0 \<noteq> - 1" by (rule first_index_found) simp
  obtain here where here: "server_addr (ServerID c) (dial_port ph + first_index (ProposerList c) p 0 * NOP * 2) s = Done here s"
    using addr assms(1) by (fastforce simp: dial_ready_def)
  have "\<exists>i \<in> {0..<10}. dials nw here there i" "resolves nw here" "resolves nw there" using assms(1) by (simp_all add: dial_ready_def)
  then have "establishDialConn nw c p there ph s = Done (Some (here, there)) s"
    using idx here by (simp add: establishDialConn_def Let_def)
  then have "registerDialConn nw c p ph s = Done () (s\<lparr>dialogMgr := (dialogMgr s)(ph := (dialogMgr s ph)(p \<mapsto> \<lparr>SID = p, remote = there\<rparr>)),
      blockchainInfo := nset (blockchainInfo s) p ph p\<rparr>)"
    using there by (simp add: registerDialConn_def)
  then show ?thesis using assms(1) by (auto simp: dial_ready_def established_def nget_nset)
qed

lemma forG_collect:
  assumes "\<And>x s. x \<in> set xs \<Longrightarrow> P s \<Longrightarrow> \<exists>t. f x s = Done () t \<and> P t \<and> g x \<union> E s \<subseteq> E t" "P s"
  shows "\<exists>t. forG xs f s = Done () t \<and> P t \<and> (\<Union>x \<in> set xs. g x) \<union> E s \<subseteq> E t"
  using assms
proof (induction xs arbitrary: s)
  case (Cons x xs)
  obtain u where u: "f x s = Done () u" "P u" "g x \<union> E s \<subseteq> E u" using Cons.prems by fastforce
  obtain t where "forG xs f u = Done () t" "P t" "(\<Union>x \<in> set xs. g x) \<union> E u \<subseteq> E t"
    using Cons.IH [OF _ u(2)] Cons.prems(1) by auto
  then show ?case using u by auto
qed simp

lemma register_all_run:
  assumes "dial_ready nw c ps s" "p \<in> set ps"
  shows "\<exists>t. register_all nw c p s = Done () t \<and> dial_ready nw c ps t \<and> {(ph, p) | ph. True} \<union> established s \<subseteq> established t"
proof -
  obtain t where "register_all nw c p s = Done () t" "dial_ready nw c ps t" "(\<Union>ph \<in> set phases. {(ph, p)}) \<union> established s \<subseteq> established t"
    using forG_collect [of phases "dial_ready nw c ps" "registerDialConn nw c p" "\<lambda>ph. {(ph, p)}" established s]
      registerDialConn_run [of nw c ps _ p] assms unfolding register_all_def by auto
  then show ?thesis using phases_all by blast
qed

text \<open>C27: When every address resolves and a dial succeeds within its ten attempts, a validator connects to every proposer in
  every phase, knows each as the owner of its chain, and starts the five receive loops of each.\<close>

theorem validator_connects:
  assumes "dial_ready nw c ps s"
  shows "\<exists>t. runAsValidator nw en c s = Done (concat (map (\<lambda>p. [Receive_OA p, Receive_OB p, Receive_CA p, Receive_CB p, Receive_TIME p]) ps)) t
    \<and> (\<forall>p \<in> set ps. \<forall>ph. dialogMgr t ph p \<noteq> None \<and> nget (blockchainInfo t) p ph = Some p)"
proof -
  have "\<exists>s0. fetchValToProComTimeMap en [ServerID c] s = Done () s0 \<and> dial_ready nw c ps s0"
    using assms by (cases "communicationFile en (ServerID c)") (simp_all add: dial_ready_def)
  then obtain s0 where s0: "fetchValToProComTimeMap en [ServerID c] s = Done () s0" "dial_ready nw c ps s0" by blast
  obtain t where t: "forG ps (register_all nw c) s0 = Done () t" "dial_ready nw c ps t"
    "(\<Union>p \<in> set ps. {(ph, p) | ph. True}) \<union> established s0 \<subseteq> established t"
    using forG_collect [of ps "dial_ready nw c ps" "register_all nw c" "\<lambda>p. {(ph, p) | ph. True}" established s0]
      register_all_run [of nw c ps] s0(2) by blast
  have look: "proposerLookup s0 = (\<lambda>_. ps)" "proposerLookup t = (\<lambda>_. ps)" using s0(2) t(2) by (simp_all add: dial_ready_def)
  let ?r = "\<lambda>p. [Receive_OA p, Receive_OB p, Receive_CA p, Receive_CB p, Receive_TIME p]"
  have "mapG is receivers_at t = Done (map (\<lambda>i. ?r (ps ! i)) is) t" if "\<forall>i \<in> set is. i < length ps" for "is"
    using that look(2) by (induction "is") (simp_all add: receivers_at_def lookup_at_def)
  moreover have "map (\<lambda>i. ?r (ps ! i)) [0..<length ps] = map ?r ps"
  proof -
    have "map (\<lambda>i. ?r (ps ! i)) [0..<length ps] = map ?r (map ((!) ps) [0..<length ps])" by (simp only: map_map comp_def)
    then show ?thesis by (simp only: map_nth)
  qed
  ultimately have "runAsValidator nw en c s = Done (concat (map ?r ps)) t"
    using s0(1) t(1) look(1) by (simp add: runAsValidator_def)
  moreover have "dialogMgr t ph p \<noteq> None \<and> nget (blockchainInfo t) p ph = Some p" if "p \<in> set ps" for p ph
    using t(3) that unfolding established_def by blast
  ultimately show ?thesis by blast
qed

text \<open>A dial that fails ten times is only logged; the receive loop of the missing connection then kills the process.\<close>

lemma failed_dial:
  assumes "\<forall>a b i. \<not> dials nw a b i" "registerDialConn nw c p ph s = Done () t"
  shows "t = s"
  using assms by (auto simp: registerDialConn_def establishDialConn_def server_addr_def Let_def idxG_def dest!: bindG_DoneD split: if_splits)

lemma missing_dial_panics: "dialogMgr s OPA p = None \<Longrightarrow> receivingOADialMessages en p rs s = Panicked NilDeref s"
  by (simp add: receivingOADialMessages_def dialog_encoder_def dialog_dec_def)

section \<open>Witnesses\<close>

text \<open>Proposer 0 and validator 1, in a cluster of two.\<close>

definition pair_cfg :: "int \<Rightarrow> cfg" where
  "pair_cfg i = demo_cfg\<lparr>ServerID := i, NumOfConn := 2, ProposerList := [0], MainProposerId := 0\<rparr>"

definition pair_node :: node where
  "pair_node = init_node\<lparr>ServerList := map conf_server conf_demo, proposerLookup := (\<lambda>_. [0]), concierge := (\<lambda>_. [None, None]),
     serverIdLookup := (\<lambda>a. if a = ''20.0.0.1:6'' then Some 1 else None)\<rparr>"

definition slow_clock :: env where
  "slow_clock = demo_env\<lparr>unixMilli := (\<lambda>n. of_nat (200000 * n))\<rparr>"

definition pair_mock :: "int \<Rightarrow> cfg" where
  "pair_mock i = pair_cfg i\<lparr>MsgLoad := 0\<rparr>"

theorem validator_connects_witness:
  "\<exists>t. runAsValidator open_network demo_env (pair_cfg 1) pair_node
      = Done (concat (map (\<lambda>p. [Receive_OA p, Receive_OB p, Receive_CA p, Receive_CB p, Receive_TIME p]) [0])) t
    \<and> (\<forall>p \<in> set [0]. \<forall>ph. dialogMgr t ph p \<noteq> None \<and> nget (blockchainInfo t) p ph = Some p)"
  by (rule validator_connects) (auto simp: dial_ready_def open_network_def pair_cfg_def pair_node_def demo_cfg_def conf_demo_def init_node_def)

definition pair_inv :: "node \<Rightarrow> bool" where
  "pair_inv s \<longleftrightarrow> serverIdLookup s = (\<lambda>a. if a = ''20.0.0.1:6'' then Some 1 else None) \<and> (\<forall>ph. length (concierge s ph) = 2)
     \<and> ServerList s = map conf_server conf_demo \<and> proposerLookup s = (\<lambda>_. [0]) \<and> clock_reads s = 0"

lemma pair_accepts:
  assumes "pair_inv s"
  shows "\<exists>t. acceptValidatorConns open_network (pair_mock 0) 0 ph [Some ''20.0.0.1:6''] s = Done (AllConnected, handler_of ph 1) t \<and> pair_inv t"
  using assms
  by (auto simp: acceptValidatorConns_def server_addr_def connRegistration_def add_validator_def pair_inv_def open_network_def pair_mock_def pair_cfg_def
      demo_cfg_def conf_demo_def)

lemma pair_accepts_all:
  assumes "pair_inv s"
  shows "\<exists>t. mapG phs (\<lambda>ph. acceptValidatorConns open_network (pair_mock 0) 0 ph [Some ''20.0.0.1:6'']) s
    = Done (map (\<lambda>ph. (AllConnected, handler_of ph 1)) phs) t \<and> pair_inv t"
  using assms
proof (induction phs arbitrary: s)
  case (Cons ph phs)
  obtain u where u: "acceptValidatorConns open_network (pair_mock 0) 0 ph [Some ''20.0.0.1:6''] s = Done (AllConnected, handler_of ph 1) u" "pair_inv u"
    using pair_accepts [OF Cons.prems] by blast
  obtain t where "mapG phs (\<lambda>ph. acceptValidatorConns open_network (pair_mock 0) 0 ph [Some ''20.0.0.1:6'']) u
    = Done (map (\<lambda>ph. (AllConnected, handler_of ph 1)) phs) t" "pair_inv t" using Cons.IH [OF u(2)] by blast
  then show ?case using u by simp
qed simp

lemma broadcastToAll_done: "is_done (broadcastToAll en c e ph s)"
proof -
  let ?f = "\<lambda>i. if ServerID c = i then ret () else bindG (registered ph i) (\<lambda>reg. if \<not> reg then ret () else try_send en (Concierge ph i) e)"
  have "\<exists>t. forG is ?f s = Done () t" if "\<forall>i \<in> set is. 0 \<le> i \<and> i < int (length (concierge s ph))" for "is" s
    using that
  proof (induction "is" arbitrary: s)
    case (Cons i "is")
    have "\<exists>u. ?f i s = Done () u \<and> concierge u = concierge s"
      using Cons.prems by (auto simp: registered_def try_send_def set_broadcastError_def)
    then obtain u where u: "?f i s = Done () u" "concierge u = concierge s" by blast
    obtain t where t: "forG is ?f u = Done () t" using Cons.IH [of u] Cons.prems u(2) by auto
    have "thenG (?f i) (forG is ?f) s = forG is ?f u" by (rule thenG_Done [of "?f i" s "()" u]) (rule u(1))
    with t show ?case unfolding forG.simps by (intro exI [of _ t]) (rule trans)
  qed simp
  from this [of "map int [0..<length (concierge s ph)]" s] show ?thesis
    by (auto simp: broadcastToAll_def)
qed

definition clock_is :: "nat \<Rightarrow> int64 \<Rightarrow> node \<Rightarrow> bool" where
  "clock_is n t0 s \<longleftrightarrow> clock_reads s = n \<and> simulationStartTime s = t0"

lemma clock_is_update [simp]: "clock_is n t0 (s\<lparr>sent := x\<rparr>) = clock_is n t0 s" "clock_is n t0 (s\<lparr>broadcastError := e\<rparr>) = clock_is n t0 s"
  by (simp_all add: clock_is_def)

lemma pres_clock_try_send [pres_intros]: "pres (clock_is n t0) (try_send en d m)"
  by (rule presI) (simp add: try_send_def set_broadcastError_def)

lemma pres_clock_broadcastToAll: "pres (clock_is n t0) (broadcastToAll en c e ph)"
  unfolding broadcastToAll_def registered_def by (auto intro!: pres_intros)

lemma mapG_still: "(\<And>x. x \<in> set xs \<Longrightarrow> f x s = Done (g x) s) \<Longrightarrow> mapG xs f s = Done (map g xs) s"
  by (induction xs) auto

lemma pair_runs: "is_done (runAsProposer open_network demo_mock slow_clock (pair_mock 0) 2 0 (\<lambda>_. [Some ''20.0.0.1:6'']) (\<lambda>_. []) pair_node)"
proof -
  let ?c = "pair_mock 0"
  have len: "length (ProposerList ?c) = 1" "ServerID ?c = 0" by (simp_all add: pair_mock_def pair_cfg_def)
  have "\<exists>u. thenG (fetchArteryData slow_clock ?c) (own_chain ?c) pair_node = Done () u \<and> pair_inv u"
    by (auto simp: fetchArteryData_def slow_clock_def demo_env_def own_chain_def phases_def pair_inv_def pair_node_def init_node_def)
  then obtain u where u: "thenG (fetchArteryData slow_clock ?c) (own_chain ?c) pair_node = Done () u" "pair_inv u" by blast
  obtain v where v: "mapG phases (\<lambda>ph. acceptValidatorConns open_network ?c 0 ph [Some ''20.0.0.1:6'']) u
      = Done (map (\<lambda>ph. (AllConnected, handler_of ph 1)) phases) v" "pair_inv v" using pair_accepts_all [OF u(2)] by blast
  have acc: "mapG phases (\<lambda>ph. acceptProposerConns open_network ?c 0 ph []) v = Done (map (\<lambda>ph. (True, [])) phases) v"
    by (rule mapG_still) (use v(2) len in \<open>simp add: acceptProposerConns_def server_addr_def pair_inv_def conf_demo_def open_network_def\<close>)
  have dial: "dial_proposers open_network ?c v = Done [] v" using v(2) len by (simp add: dial_proposers_def pair_inv_def)
  let ?v1 = "v\<lparr>clock_reads := 1, simulationStartTime := 0\<rparr>"
  have start: "set_start_time slow_clock v = Done () ?v1" using v(2) by (simp add: set_start_time_def pair_inv_def slow_clock_def)
  have "is_done (handleProposerTIMEConns slow_clock ?c ?v1)" by (simp add: handleProposerTIMEConns_def broadcastToAll_done)
  then obtain w where w: "handleProposerTIMEConns slow_clock ?c ?v1 = Done () w" by (cases "handleProposerTIMEConns slow_clock ?c ?v1") auto
  then have "broadcastToAll slow_clock ?c (TimeSync \<lparr>sync_Time = 0, sync_ProposerId = ServerID ?c\<rparr>) TIME ?v1 = Done () w"
    by (simp add: handleProposerTIMEConns_def)
  moreover have "clock_is 1 0 (final (broadcastToAll slow_clock ?c (TimeSync \<lparr>sync_Time = 0, sync_ProposerId = ServerID ?c\<rparr>) TIME ?v1))"
    by (rule presD [OF pres_clock_broadcastToAll]) (simp add: clock_is_def)
  ultimately have "clock_is 1 0 w" by simp
  have none: "fetchValToProComTimeMap slow_clock l w = Done () w" "fetchProToValComTimeMap slow_clock l w = Done () w" for l
    by (cases l; simp add: slow_clock_def demo_env_def)+
  have "\<exists>x. load_data demo_mock slow_clock ?c w = Done () x \<and> clock_reads x = clock_reads w \<and> simulationStartTime x = simulationStartTime w"
    using none txGenerator_run [of "MsgSize ?c" ?c demo_mock w]
    by (simp add: load_data_def pair_mock_def pair_cfg_def demo_cfg_def del: fetchProToValComTimeMap.simps fetchValToProComTimeMap.simps)
  with \<open>clock_is 1 0 w\<close> obtain x where x: "load_data demo_mock slow_clock ?c w = Done () x" "clock_reads x = 1" "simulationStartTime x = 0"
    by (auto simp: clock_is_def)
  have late: "(100000 :: int64) <s 200000" by (simp add: word_sless_alt)
  have "await_start slow_clock (Suc (Suc 0)) x = Done () (x\<lparr>clock_reads := Suc (clock_reads x)\<rparr>)"
  proof -
    let ?y = "x\<lparr>clock_reads := Suc (clock_reads x)\<rparr>"
    have now: "nowG slow_clock x = Done 200000 ?y" by (simp add: slow_clock_def x(2))
    have "simulationStartTime ?y = 0" by (simp add: x(3))
    then show ?thesis
      unfolding await_start.simps bindG_def now outcome.case getG_def by (simp only: late diff_zero if_True ret_def)
  qed
  then have "is_done (await_start slow_clock 2 x)" by (simp only: numeral_2_eq_2 is_done.simps)
  then obtain y where y: "await_start slow_clock 2 x = Done () y" by (cases "await_start slow_clock 2 x") auto
  show ?thesis
    unfolding runAsProposer_def guarded_def Let_def using u(1) v(1) acc dial start w x(1) y by simp
qed

theorem startup_waits_for_all_witness:
  "\<exists>r t sids. runAsProposer open_network demo_mock slow_clock (pair_mock 0) 2 0 (\<lambda>_. [Some ''20.0.0.1:6'']) (\<lambda>_. []) pair_node = Done r t
    \<and> sids \<noteq> [] \<and> int (length sids) = NumOfConn (pair_mock 0) - int (length (ProposerList (pair_mock 0)))
    \<and> map (\<lambda>x. Option.bind x (serverIdLookup pair_node)) (take (length sids) [Some ''20.0.0.1:6'']) = map Some sids
    \<and> (\<forall>sid \<in> set sids. 0 \<le> sid \<and> nat sid < length (concierge t OPA) \<and> concierge t OPA ! nat sid \<noteq> None)"
proof -
  obtain r t where run: "runAsProposer open_network demo_mock slow_clock (pair_mock 0) 2 0 (\<lambda>_. [Some ''20.0.0.1:6'']) (\<lambda>_. []) pair_node = Done r t"
    using pair_runs by (cases "runAsProposer open_network demo_mock slow_clock (pair_mock 0) 2 0 (\<lambda>_. [Some ''20.0.0.1:6'']) (\<lambda>_. []) pair_node") auto
  obtain sids where "sids \<noteq> []" "int (length sids) = NumOfConn (pair_mock 0) - int (length (ProposerList (pair_mock 0)))"
    "map (\<lambda>x. Option.bind x (serverIdLookup pair_node)) (take (length sids) [Some ''20.0.0.1:6'']) = map Some sids"
    "\<forall>sid \<in> set sids. 0 \<le> sid \<and> nat sid < length (concierge t OPA) \<and> concierge t OPA ! nat sid \<noteq> None"
    using startup_waits_for_all [OF run, of OPA] by blast
  then show ?thesis using run by (intro exI [of _ r] exI [of _ t] exI [of _ sids] conjI)
qed

end
