(* ===== verification/Activity.thy ===== *)
theory Activity
  imports Roles
begin

text \<open>
  A process as a transition system: in every step one activity (a stage of start-up, a handler goroutine, a block made by an ordering
  worker, a turn of the consensus loop, a relayed message, a registered connection) runs on the state, with any message, and whatever its
  outcome: an activity that panics or waits leaves the state it reached. Invariants of the reachable states.
\<close>

section \<open>Activities\<close>

datatype activity =
    Initialise "string option"
  | Run_Validator network
  | Run_Proposer network mock int "phase \<Rightarrow> string option list" "phase \<Rightarrow> string option list"
  | Goroutine job
  | Make_Block shuffleBuf
  | Consensus_Turn int int
  | Relay_Message phase msg int int phase
  | Register_Conn string phase

text \<open>The goroutines that handle one message; the others are loops, whose steps are the activities.\<close>

definition run_job :: "('sc, 'pt, 'pub) kyber \<Rightarrow> env \<Rightarrow> cfg \<Rightarrow> ((int64 \<times> int64) list \<Rightarrow> (int64 \<times> int64) list) \<Rightarrow> job \<Rightarrow> (node, unit) go" where
  "run_job ky en c visit j = (case j of
     Async_OBReply m sid \<Rightarrow> asyncHandleOBReply ky en c m sid
   | Async_CPAReply m sid \<Rightarrow> asyncHandleCPAReply ky en c visit m sid
   | Validate_OA m enc \<Rightarrow> validatingOAEntry ky en c m enc
   | Validate_OB m enc \<Rightarrow> validatingOBEntry ky c m enc
   | Validate_CA m enc \<Rightarrow> validatingCAEntry ky en c m enc
   | Validate_CB m enc \<Rightarrow> bindG (validatingCBEntry ky c m) (\<lambda>_. ret ())
   | Sync_StartTime m \<Rightarrow> syncSimulationStartTIme m
   | _ \<Rightarrow> ret ())"

definition run_activity :: "('sc, 'pt, 'pub) kyber \<Rightarrow> env \<Rightarrow> cfg \<Rightarrow> ((int64 \<times> int64) list \<Rightarrow> (int64 \<times> int64) list) \<Rightarrow> nat \<Rightarrow> activity \<Rightarrow> (node, unit) go" where
  "run_activity ky en c visit fuel a = (case a of
     Initialise conf \<Rightarrow> thenG (parseConf c conf (NumOfConn c)) (thenG (initConns (NumOfConn c)) (thenG metre_init
       (bindG (program_main c) (\<lambda>_. ret ()))))
   | Run_Validator nw \<Rightarrow> bindG (runAsValidator nw en c) (\<lambda>_. ret ())
   | Run_Proposer nw mk p valConns propConns \<Rightarrow> bindG (runAsProposer nw mk en c fuel p valConns propConns) (\<lambda>_. ret ())
   | Goroutine j \<Rightarrow> run_job ky en c visit j
   | Make_Block sh \<Rightarrow> bindG (makeAndBroadcast ky en c fuel sh) (\<lambda>_. ret ())
   | Consensus_Turn inst waited \<Rightarrow> bindG (consensus_step ky en c fuel inst waited) (\<lambda>_. ret ())
   | Relay_Message ph m sender recipient mph \<Rightarrow> relay_one en c ph m sender recipient mph
   | Register_Conn a ph \<Rightarrow> bindG (connRegistration a ph) (\<lambda>_. ret ()))"

inductive process_step :: "('sc, 'pt, 'pub) kyber \<Rightarrow> env \<Rightarrow> cfg \<Rightarrow> ((int64 \<times> int64) list \<Rightarrow> (int64 \<times> int64) list) \<Rightarrow> nat \<Rightarrow> node \<Rightarrow> node \<Rightarrow> bool"
  for ky en c visit fuel where
  act: "run_activity ky en c visit fuel a s = r \<Longrightarrow> process_step ky en c visit fuel s (final r)"

inductive_cases process_stepE: "process_step ky en c visit fuel s t"

lemma process_step_pres:
  assumes "\<And>a. pres P (run_activity ky en c visit fuel a)" "process_step ky en c visit fuel s t" "P s"
  shows "P t"
  using assms(2) by (rule process_stepE) (auto intro: presD [OF assms(1)] assms(3))

lemma process_steps_pres:
  assumes "\<And>a. pres P (run_activity ky en c visit fuel a)" "(process_step ky en c visit fuel)\<^sup>*\<^sup>* s t" "P s"
  shows "P t"
  using assms(2,3) by (induction rule: rtranclp_induct) (blast intro: process_step_pres [OF assms(1)])+

section \<open>The invariant\<close>

text \<open>
  Well-formed states: the recorder hands out what it has, no block has more votes than the threshold of its booth, the token
  channels hold at most one token, and booth numbers, positions and hashes agree.
\<close>

definition well_formed :: "env \<Rightarrow> node \<Rightarrow> bool" where
  "well_formed en s \<longleftrightarrow> recorder_inv (vgrec s)
     \<and> (\<forall>b i f. nget (ordSnapshot s) b i = Some f \<longrightarrow> int (length (sigs f)) \<le> getThreshold (int (length (Indices (booth f)))))
     \<and> (\<forall>b i n. nget (valiOrdJobStack s) b i = Some n \<longrightarrow> n \<le> 1) \<and> (\<forall>b i n. nget (valiConsJobStack s) b i = Some n \<longrightarrow> n \<le> 1)
     \<and> registry_inv en s"

text \<open>
  The blocks of other proposers whose ordering entries are in the first map of \<open>blks\<close> are still there, with the same content and booth,
  and so are their counterparts of the second map in the commit snapshot.
\<close>

definition same_block :: "blockSnapshot \<Rightarrow> blockSnapshot \<Rightarrow> bool" where
  "same_block f g \<longleftrightarrow> hash g = hash f \<and> entries g = entries f \<and> booth g = booth f"

definition keeps_blocks :: "(int, int64, blockSnapshot) nmap \<times> (int, int64, blockSnapshot) nmap \<Rightarrow> int \<Rightarrow> node \<Rightarrow> bool" where
  "keeps_blocks blks own s \<longleftrightarrow> (\<forall>b i f. b \<noteq> own \<longrightarrow> nget (fst blks) b i = Some f \<longrightarrow>
     (\<exists>g. nget (ordSnapshot s) b i = Some g \<and> same_block f g)
   \<and> (\<forall>k. nget (snd blks) b i = Some k \<longrightarrow> (\<exists>g. nget (cmtSnapshot s) b i = Some g \<and> same_block k g)))"

definition process_inv :: "env \<Rightarrow> (int, int64, blockSnapshot) nmap \<times> (int, int64, blockSnapshot) nmap \<Rightarrow> int \<Rightarrow> node \<Rightarrow> bool" where
  "process_inv en blks own s \<longleftrightarrow> well_formed en s \<and> keeps_blocks blks own s"

named_theorems process_pres "activities and their parts preserve the invariant of a process"

lemma process_inv_update [simp]:
  "process_inv en blks own (s\<lparr>sent := v1\<rparr>) = process_inv en blks own s" "process_inv en blks own (s\<lparr>broadcastError := v2\<rparr>) = process_inv en blks own s"
  "process_inv en blks own (s\<lparr>clock_reads := v3\<rparr>) = process_inv en blks own s" "process_inv en blks own (s\<lparr>files := v4\<rparr>) = process_inv en blks own s"
  "process_inv en blks own (s\<lparr>vgTxMeta_sigs := v6\<rparr>) = process_inv en blks own s"
  "process_inv en blks own (s\<lparr>vgTxMeta_hash := v7\<rparr>) = process_inv en blks own s" "process_inv en blks own (s\<lparr>vgTxMeta_blockIDs := v8\<rparr>) = process_inv en blks own s"
  "process_inv en blks own (s\<lparr>vgTxData_tx := v9\<rparr>) = process_inv en blks own s" "process_inv en blks own (s\<lparr>vgTxData_boo := v10\<rparr>) = process_inv en blks own s"
  "process_inv en blks own (s\<lparr>metre_startTime := v11\<rparr>) = process_inv en blks own s" "process_inv en blks own (s\<lparr>metre_orderTime := v12\<rparr>) = process_inv en blks own s"
  "process_inv en blks own (s\<lparr>concierge := v13\<rparr>) = process_inv en blks own s" "process_inv en blks own (s\<lparr>simulationStartTime := v14\<rparr>) = process_inv en blks own s"
  "process_inv en blks own (s\<lparr>vgInst := v15\<rparr>) = process_inv en blks own s" "process_inv en blks own (s\<lparr>logIndex := v16\<rparr>) = process_inv en blks own s"
  "process_inv en blks own (s\<lparr>serverIdLookup := v17\<rparr>) = process_inv en blks own s" "process_inv en blks own (s\<lparr>ServerList := v18\<rparr>) = process_inv en blks own s"
  "process_inv en blks own (s\<lparr>dialogMgr := v19\<rparr>) = process_inv en blks own s" "process_inv en blks own (s\<lparr>blockchainInfo := v20\<rparr>) = process_inv en blks own s"
  "process_inv en blks own (s\<lparr>proposerLookup := v21\<rparr>) = process_inv en blks own s" "process_inv en blks own (s\<lparr>ValidatorList := v22\<rparr>) = process_inv en blks own s"
  "process_inv en blks own (s\<lparr>requestQueue := v23\<rparr>) = process_inv en blks own s" "process_inv en blks own (s\<lparr>proToValComTimeMap := v24\<rparr>) = process_inv en blks own s"
  "process_inv en blks own (s\<lparr>valToProComTimeMap := v25\<rparr>) = process_inv en blks own s"
  "process_inv en blks own (s\<lparr>participantVehicleTimeData := v26\<rparr>) = process_inv en blks own s"
  by (simp_all add: process_inv_def well_formed_def keeps_blocks_def registry_inv_def)

lemma pres_outcome [simp]: "pres P (Done r)" "pres P (Panicked p)" "pres P Blocked"
  by (simp_all add: pres_def)

lemma pres_sum [pres_intros]:
  "(\<And>e. pres P (f e)) \<Longrightarrow> (\<And>x. pres P (g x)) \<Longrightarrow> pres P (case z of Inl e \<Rightarrow> f e | Inr x \<Rightarrow> g x)"
  by (cases z) simp_all

lemma pres_process_handlers [process_pres]:
  "pres (process_inv en' blks own) (nowG en)" "pres (process_inv en' blks own) (encodeG en d m)"
  "pres (process_inv en' blks own) (try_send en d m)" "pres (process_inv en' blks own) set_broadcastError"
  by (rule presI; simp add: try_send_def set_broadcastError_def)+

lemma pres_process_routing [process_pres]:
  "pres (process_inv en' blks own) (checkComPathToValidator en c i)" "pres (process_inv en' blks own) (checkComPathToProposer en c i)"
  "pres (process_inv en' blks own) (log_concierge_SID ph i)"
  unfolding checkComPathToValidator_def checkComPathToProposer_def getNowTimeKey_def log_concierge_SID_def
  by (auto intro!: pres_intros process_pres)

lemma pres_process_broadcasts [process_pres]:
  "pres (process_inv en' blks own) (broadcast_booth en c e ph b)" "pres (process_inv en' blks own) (broadcastToAll en c e ph)"
  "pres (process_inv en' blks own) (broadcastToNewBooth en c e ph b ns e2)" "pres (process_inv en' blks own) (broadcastToNewBoothWithComCheck en c e ph b ns e2)"
  unfolding broadcast_booth_def broadcastToBooth_def broadcastToBoothWithComCheck_def broadcastToAll_def broadcastToNewBooth_def
    broadcastToNewBoothWithComCheck_def Let_def split_beta
  by (intro pres_intros process_pres)+

lemma pres_process_replies [process_pres]:
  "pres (process_inv en' blks own) (dialSendBack en m e)" "pres (process_inv en' blks own) (dialSendBackWithComCheck en c m e ph p)"
  "pres (process_inv en' blks own) (reply_to en c m e b ph ph')" "pres (process_inv en' blks own) (relay_one en c ph m sd rc mph)"
  unfolding dialSendBack_def dialSendBackWithComCheck_def dialog_encoder_def reply_to_def proposer_of_def relay_one_def Let_def split_beta
  by (intro pres_intros process_pres)+

lemma pres_process_metre [process_pres]:
  "pres (process_inv en' blks own) (recordStartTime en i)" "pres (process_inv en' blks own) (recordOrderTime en i)"
  "pres (process_inv en' blks own) (latency_loop t n l r)" "pres (process_inv en' blks own) (printConsensusLatency en visit k)"
proof -
  show loop: "pres (process_inv en' blks own) (latency_loop t n l r)" for t n l r
    by (induction t n l r rule: latency_loop.induct) (auto intro!: pres_intros)
  show "pres (process_inv en' blks own) (printConsensusLatency en visit k)"
    unfolding printConsensusLatency_def by (intro pres_intros process_pres loop)
qed (auto simp: recordStartTime_def recordOrderTime_def intro!: pres_intros process_pres)

section \<open>The recorder, the votes, the tokens and the registry\<close>

lemma pres_process_recorder [process_pres]:
  "pres (process_inv en blks own) (vgrec_Add i)" "pres (process_inv en blks own) vgrec_GetIDRange"
  by (rule presI; simp add: vgrec_Add_def vgrec_GetIDRange_def rec_GetIDRange_eq rec_Add_def process_inv_def well_formed_def keeps_blocks_def
      registry_inv_def recorder_inv_def split_beta)+

lemma pres_process_tokens [process_pres]:
  "pres (process_inv en blks own) (ord_job b i)" "pres (process_inv en blks own) (ord_job_send b i)" "pres (process_inv en blks own) (ord_job_receive b i)"
  "pres (process_inv en blks own) (cons_job b j)" "pres (process_inv en blks own) (cons_job_send b j)" "pres (process_inv en blks own) (cons_job_receive b j)"
  "pres (process_inv en blks own) (modG (\<lambda>s. s\<lparr>valiOrdJobStack := nmake (valiOrdJobStack s) b\<rparr>))"
  by (rule presI; auto simp: ord_job_def ord_job_send_def ord_job_receive_def cons_job_def cons_job_send_def cons_job_receive_def nputG_app
      process_inv_def well_formed_def keeps_blocks_def registry_inv_def split: option.splits)+

lemma same_block_trans: "same_block f g \<Longrightarrow> same_block g h \<Longrightarrow> same_block f h"
  by (simp add: same_block_def)

lemma process_inv_vote:
  assumes "process_inv en blks own s" "nget (ordSnapshot s) b i = Some f" "length (sigs f) < l"
    "int l \<le> getThreshold (int (length (Indices (booth f))))" "length v = l"
  shows "process_inv en blks own (s\<lparr>ordSnapshot := nset (ordSnapshot s) b i (f\<lparr>sigs := v\<rparr>)\<rparr>)"
proof -
  have "same_block f (f\<lparr>sigs := v\<rparr>)" by (simp add: same_block_def)
  then have "keeps_blocks blks own (s\<lparr>ordSnapshot := nset (ordSnapshot s) b i (f\<lparr>sigs := v\<rparr>)\<rparr>)"
    unfolding keeps_blocks_def
  proof (intro allI impI conjI)
    fix b' j f' assume p: "b' \<noteq> own" "nget (fst blks) b' j = Some f'"
    obtain g where g: "nget (ordSnapshot s) b' j = Some g" "same_block f' g"
      using assms(1) p unfolding process_inv_def keeps_blocks_def by blast
    show "\<exists>g. nget (ordSnapshot (s\<lparr>ordSnapshot := nset (ordSnapshot s) b i (f\<lparr>sigs := v\<rparr>)\<rparr>)) b' j = Some g \<and> same_block f' g"
    proof (cases "b' = b \<and> j = i")
      case True
      then have "same_block f' f" using g assms(2) by simp
      then show ?thesis using True same_block_trans [OF _ \<open>same_block f (f\<lparr>sigs := v\<rparr>)\<close>] by simp
    qed (use g in auto)
  qed (use assms(1) in \<open>unfold process_inv_def keeps_blocks_def, auto\<close>)
  then show ?thesis using assms by (auto simp: process_inv_def well_formed_def registry_inv_def)
qed

lemma process_inv_unused:
  assumes "process_inv en blks own s" "nget (ordSnapshot s) b i = None"
  shows "nget (fst blks) b i = None \<or> b = own"
  using assms unfolding process_inv_def keeps_blocks_def by (metis not_Some_eq option.distinct(1))

lemma process_inv_block:
  assumes "process_inv en blks own s" "nget (ordSnapshot s) b i = None \<or> b = own" "sigs f = []"
  shows "process_inv en blks own (s\<lparr>ordSnapshot := nset (ordSnapshot s) b i f\<rparr>)"
proof -
  have "nget (fst blks) b i = None \<or> b = own"
    using assms(2) process_inv_unused [OF assms(1)] by blast
  then have "keeps_blocks blks own (s\<lparr>ordSnapshot := nset (ordSnapshot s) b i f\<rparr>)"
    using assms(1) unfolding process_inv_def keeps_blocks_def by auto
  then show ?thesis using assms(1,3) getThreshold_nonneg [of "int (length (Indices (booth f)))"]
    by (auto simp: process_inv_def well_formed_def registry_inv_def)
qed

text \<open>The commit snapshot may change where no ordering entry is protected, and keep a block with another certificate.\<close>

lemma process_inv_commit:
  assumes "process_inv en blks own s"
    and "nget (fst blks) b i = None \<or> b = own \<or> (\<exists>g. nget (cmtSnapshot s) b i = Some g \<and> same_block g f)"
  shows "process_inv en blks own (s\<lparr>cmtSnapshot := nset (cmtSnapshot s) b i f\<rparr>)"
proof -
  have "\<exists>g. nget (nset (cmtSnapshot s) b i f) b' j = Some g \<and> same_block k g"
    if p: "b' \<noteq> own" "nget (fst blks) b' j = Some f'" "nget (snd blks) b' j = Some k" for b' j f' k
  proof -
    obtain g where g: "nget (cmtSnapshot s) b' j = Some g" "same_block k g"
      using assms(1) p unfolding process_inv_def keeps_blocks_def by blast
    show ?thesis
    proof (cases "b' = b \<and> j = i")
      case True
      then have "same_block g f" using assms(2) p(1,2) g(1) by auto
      then show ?thesis using True same_block_trans [OF g(2)] by auto
    qed (use g in auto)
  qed
  then have "keeps_blocks blks own (s\<lparr>cmtSnapshot := nset (cmtSnapshot s) b i f\<rparr>)"
    using assms(1) unfolding process_inv_def keeps_blocks_def by simp
  then show ?thesis using assms(1) by (simp add: process_inv_def well_formed_def registry_inv_def)
qed

lemma process_inv_certificate:
  assumes "process_inv en blks own s" "nget (cmtSnapshot s) b i = Some f"
  shows "process_inv en blks own (s\<lparr>cmtSnapshot := nset (cmtSnapshot s) b i (f\<lparr>tSig := v\<rparr>)\<rparr>)"
  by (rule process_inv_commit [OF assms(1)]) (use assms(2) in \<open>simp add: same_block_def\<close>)

lemma pres_process_vote [process_pres]: "pres (process_inv en blks own) (ob_vote c m)"
proof (rule presI)
  fix s assume s: "process_inv en blks own s"
  show "process_inv en blks own (final (ob_vote c m s))"
  proof (cases "nget (ordSnapshot s) (opar_BlockchainId m) (opar_BlockId m)")
    case None
    then show ?thesis using s by (simp add: ob_vote_def)
  next
    case (Some f)
    have m: "m = opa_reply (opar_BlockchainId m) (opar_BlockId m) (opar_ParSig m)" by (simp add: opa_reply_def)
    have le: "length (sigs f) \<le> 2 * (length (Indices (booth f)) div 3)"
    proof -
      have "int (length (sigs f)) \<le> getThreshold (int (length (Indices (booth f))))"
        using s Some unfolding process_inv_def well_formed_def by blast
      then show ?thesis by (simp only: getThreshold_nat of_nat_le_iff)
    qed
    show ?thesis
    proof (cases "length (sigs f) = 2 * (length (Indices (booth f)) div 3)")
      case True
      then show ?thesis by (subst m) (simp add: ob_vote_run [OF Some] Let_def s)
    next
      case False
      then have "process_inv en blks own (s\<lparr>ordSnapshot := nset (ordSnapshot s) (opar_BlockchainId m) (opar_BlockId m) (f\<lparr>sigs := sigs f @ [opar_ParSig m]\<rparr>)\<rparr>)"
        using le by (intro process_inv_vote [OF s Some, of "Suc (length (sigs f))"]) simp_all
      then show ?thesis using False by (subst m) (simp add: ob_vote_run [OF Some] Let_def)
    qed
  qed
qed

lemma pres_process_register [process_pres]: "pres (process_inv en blks own) (OA_register m)"
  by (rule presI) (auto simp: OA_register_def OA_snapshot_def intro!: process_inv_block split: option.split)

lemma pres_process_registry [process_pres]: "pres (process_inv en blks own) (checkExactMatchInBooMgr ky en c p)"
proof (rule presI)
  fix s assume s: "process_inv en blks own s"
  obtain i t where t: "checkExactMatchInBooMgr ky en c p s = Done i t" using checkExactMatch_Done by blast
  have "registry_inv en t" using registry_request(1) [OF _ t] s by (simp add: process_inv_def well_formed_def)
  moreover have "vgrec t = vgrec s \<and> ordSnapshot t = ordSnapshot s \<and> cmtSnapshot t = cmtSnapshot s \<and> valiOrdJobStack t = valiOrdJobStack s \<and> valiConsJobStack t = valiConsJobStack s"
    using t by (auto simp: checkExactMatchInBooMgr_def generateBoothKey_def Let_def split: option.splits)
  ultimately show "process_inv en blks own (final (checkExactMatchInBooMgr ky en c p s))"
    using s t by (simp add: process_inv_def well_formed_def keeps_blocks_def)
qed

lemma pres_process_getBoothID [process_pres]: "pres (process_inv en blks own) (getBoothID ky en c fuel)"
proof (induction fuel)
  case (Suc fuel)
  then show ?case unfolding getBoothID.simps getNowTimeKey_def by (intro pres_intros process_pres)
qed simp

section \<open>Every activity\<close>

lemma pres_process_make [process_pres]: "pres (process_inv en blks (ServerID c)) (makeAndBroadcast ky en c fuel sh)"
proof -
  have "pres (process_inv en blks (ServerID c)) (register_block (ServerID c) i (snapshot_of en h es boo))" for i h es boo
    unfolding register_block_def incrementLogIndex_def
    by (auto intro!: pres_intros process_inv_block process_inv_commit simp: snapshot_of_def)
  then show ?thesis
    unfolding makeAndBroadcast_def record_start_def Let_def getLogIndex_def
    by (auto intro!: pres_intros process_pres split: option.split)
qed

lemma pres_process_ob_store [process_pres]: "pres (process_inv en blks own) (ob_store m sg)"
  by (rule presI) (auto simp: ob_store_def process_inv_certificate split: option.split)

lemma pres_process_OBReply [process_pres]: "pres (process_inv en blks own) (asyncHandleOBReply ky en c m sid)"
  unfolding asyncHandleOBReply_def ob_recover_def ob_record_def Let_def split_beta
  by (intro pres_intros process_pres pres_fetchKeysByBoothId)

lemma pres_process_CPAReply [process_pres]: "pres (process_inv en blks own) (asyncHandleCPAReply ky en c visit m sid)"
  unfolding asyncHandleCPAReply_def cpa_read_def cpa_write_def cpa_finish_def Let_def split_beta
  by (intro pres_intros process_pres pres_fetchKeysByBoothId) simp_all

lemma pres_process_store:
  assumes "nget (fst blks) (opa_BlockchainId m) (opa_BlockId m) = None \<or> opa_BlockchainId m = own"
  shows "pres (process_inv en blks own) (OA_store m)"
proof -
  have "pres (process_inv en blks own) (modG (\<lambda>s. s\<lparr>cmtSnapshot := nset (cmtSnapshot s) (opa_BlockchainId m) (opa_BlockId m) (OA_snapshot m)\<rparr>))"
    by (rule pres_modG, rule process_inv_commit) (use assms in blast)+
  then show ?thesis unfolding OA_store_def by (intro pres_thenG process_pres)
qed

lemma pres_process_OA [process_pres]: "pres (process_inv en blks own) (validatingOAEntry ky en c m e)"
proof (rule presI)
  fix s assume s: "process_inv en blks own s"
  have sign: "pres (process_inv en blks own) (OA_sign ky en c m e)"
    unfolding OA_sign_def split_beta by (intro pres_intros process_pres pres_fetchKeysByBoothId)
  show "process_inv en blks own (final (validatingOAEntry ky en c m e s))"
  proof (cases "nget (ordSnapshot s) (opa_BlockchainId m) (opa_BlockId m)")
    case None
    have "pres (process_inv en blks own) (thenG (OA_store m) (OA_sign ky en c m e))"
      by (rule pres_thenG [OF pres_process_store [OF process_inv_unused [OF s None]] sign])
    moreover obtain s1 where "OA_register m s = Done True s1" "process_inv en blks own s1"
      using presD [OF pres_process_register s, of m] None by (auto simp: OA_register_def)
    ultimately show ?thesis by (simp add: validatingOAEntry_def presD)
  next
    case (Some f)
    then have "OA_register m s = Done False s" by (simp add: OA_register_def)
    then show ?thesis using s unfolding validatingOAEntry_def bindG_Done [where m = "OA_register m", OF \<open>OA_register m s = Done False s\<close>] by simp
  qed
qed

lemma pres_process_OB [process_pres]: "pres (process_inv en blks own) (validatingOBEntry ky c m e)"
proof (rule presI)
  fix s assume s: "process_inv en blks own s"
  let ?t = "final (validatingOBEntry ky c m e s)" and ?b = "opb_BlockchainId m" and ?i = "opb_BlockId m"
  have tokens: "pres (well_formed en) (ord_job b i)" "pres (well_formed en) (ord_job_receive b i)" for b i
    by (rule presI; auto simp: ord_job_def ord_job_receive_def nputG_app well_formed_def registry_inv_def split: option.splits)+
  have "pres (well_formed en) (validatingOBEntry ky c m e)"
    unfolding validatingOBEntry_def OB_attach_def split_beta
    by (intro pres_intros pres_fetchKeysByBoothId tokens) (simp_all add: well_formed_def registry_inv_def)
  then have "well_formed en ?t" using s by (auto simp: process_inv_def dest: presD)
  moreover have "keeps_blocks blks own ?t"
    unfolding keeps_blocks_def
  proof (intro allI impI conjI)
    fix b i f assume f: "b \<noteq> own" "nget (fst blks) b i = Some f"
    note e = OB_effect_entry [of m e s ky c]
    have ord: "ordSnapshot ?t = ordSnapshot s" using e unfolding OB_effect_def by (elim conjE exE) simp
    then show "\<exists>g. nget (ordSnapshot ?t) b i = Some g \<and> same_block f g"
      using s f unfolding process_inv_def keeps_blocks_def by simp
    fix k assume k: "nget (snd blks) b i = Some k"
    obtain g h where g: "nget (cmtSnapshot s) b i = Some g" "same_block k g" "nget (ordSnapshot s) b i = Some h"
      using s f k unfolding process_inv_def keeps_blocks_def by blast
    then have "nget (cmtSnapshot ?t) b i = Some g \<or> nget (cmtSnapshot ?t) b i = Some (g\<lparr>tSig := opb_CombSig m\<rparr>)"
      using e unfolding OB_effect_def certified_block_def by (metis option.distinct(1) option.inject)
    then show "\<exists>g. nget (cmtSnapshot ?t) b i = Some g \<and> same_block k g"
      using g(2) by (auto simp: same_block_def)
  qed
  ultimately show "process_inv en blks own ?t" by (simp add: process_inv_def)
qed

lemma pres_append [process_pres]: "pres (process_inv en blks own) (append_tx b i boo es)"
  unfolding append_tx_def by (intro pres_intros) simp

lemma pres_process_CA [process_pres]: "pres (process_inv en blks own) (validatingCAEntry ky en c m e)"
  unfolding validatingCAEntry_def CA_sign_def CA_block_def split_beta
  by (intro pres_intros process_pres pres_fetchKeysByBoothId) simp_all

lemma pres_process_CB [process_pres]: "pres (process_inv en blks own) (validatingCBEntry ky c m)"
  unfolding validatingCBEntry_def split_beta
  by (intro pres_intros process_pres pres_fetchKeysByBoothId)

lemma pres_process_turn [process_pres]: "pres (process_inv en blks own) (consensus_step ky en c fuel inst waited)"
  unfolding consensus_step_def init_tx_def store_meta_def broadcast_CA_def ca_block_def vgInst_Done_def Let_def split_beta
  by (intro pres_intros process_pres pres_append) simp_all

section \<open>Start-up\<close>

declare pres_mapG [process_pres] pres_guarded [process_pres]

lemma pres_parse_server: "pres (process_inv en blks own) (parse_server rows base js sl)"
proof (induction rows base js sl rule: parse_server.induct)
  case (2 rows base j js sl)
  show ?case unfolding parse_server.simps first_row_def other_columns_def idxL_def Let_def
    by (intro pres_intros 2) simp_all
qed (simp only: parse_server.simps pres_intros)

lemma pres_process_init [process_pres]:
  "pres (process_inv en blks own) (parseConf c conf n)" "pres (process_inv en blks own) (initConns n)"
  "pres (process_inv en blks own) metre_init" "pres (process_inv en blks own) (program_main c)"
  unfolding parseConf_def initConns_def metre_init_def program_main_def takingInitRoles_def Let_def
  by (auto intro!: pres_intros pres_parse_server split: option.split)

lemma pres_process_maps [process_pres]:
  "pres (process_inv en blks own) (fetchArteryData e c)" "pres (process_inv en blks own) (fetchProToValComTimeMap e ps)"
  "pres (process_inv en blks own) (fetchValToProComTimeMap e ps)"
proof -
  show "pres (process_inv en blks own) (fetchProToValComTimeMap e ps)"
    by (induction ps) (auto intro!: pres_intros split: option.split)
  show "pres (process_inv en blks own) (fetchValToProComTimeMap e ps)"
    by (induction ps) (auto intro!: pres_intros split: option.split)
qed (auto simp: fetchArteryData_def intro!: pres_intros split: option.split)

lemma pres_process_conns [process_pres]:
  "pres (process_inv en blks own) (connRegistration a ph)" "pres (process_inv en blks own) (add_validator i)"
  "pres (process_inv en blks own) (server_addr i j)" "pres (process_inv en blks own) (registerDialConn nw c p ph)"
  "pres (process_inv en blks own) (register_all nw c p)" "pres (process_inv en blks own) (lookup_at ph k)"
  "pres (process_inv en blks own) (own_chain c)"
  unfolding connRegistration_def add_validator_def server_addr_def register_all_def registerDialConn_def establishDialConn_def
    lookup_at_def own_chain_def Let_def split_beta
  by (auto intro!: pres_intros split: option.split)

lemma pres_process_accept [process_pres]:
  "pres (process_inv en blks own) (accept_validators c ph n conns)" "pres (process_inv en blks own) (accept_proposers c ph n conns)"
proof -
  show "pres (process_inv en blks own) (accept_validators c ph n conns)"
    by (induction c ph n conns rule: accept_validators.induct) (auto intro!: pres_intros process_pres split: option.split)
  show "pres (process_inv en blks own) (accept_proposers c ph n conns)"
    by (induction c ph n conns rule: accept_proposers.induct) (auto intro!: pres_intros process_pres split: option.split)
qed

lemma pres_process_await [process_pres]: "pres (process_inv en blks own) (await_start e n)"
proof (induction n)
  case (Suc n)
  then show ?case unfolding await_start.simps by (intro pres_intros process_pres)
qed simp

lemma pres_process_load [process_pres]: "pres (process_inv en blks own) (txGenerator mk c n)"
  unfolding txGenerator_def load_queue_def mockRandomBytes_def Let_def
  by (intro pres_intros process_pres) simp_all

lemma pres_process_validator [process_pres]: "pres (process_inv en blks own) (runAsValidator nw e c)"
  unfolding runAsValidator_def receivers_at_def by (intro pres_intros process_pres)

lemma pres_process_proposer [process_pres]: "pres (process_inv en blks own) (runAsProposer nw mk e c n p vs ps)"
  unfolding runAsProposer_def acceptValidatorConns_def acceptProposerConns_def dial_proposers_def relays_at_def set_start_time_def
    handleProposerTIMEConns_def load_data_def Let_def split_beta
  by (intro pres_intros process_pres) simp_all

section \<open>Reachable states\<close>

lemma pres_process_activity: "pres (process_inv en blks (ServerID c)) (run_activity ky en c visit fuel a)"
proof (cases a)
  case (Goroutine j)
  then show ?thesis
    by (cases j) (auto simp: run_activity_def run_job_def syncSimulationStartTIme_def intro!: pres_intros process_pres)
qed (auto simp: run_activity_def connRegistration_def handleProposerTIMEConns_def intro!: pres_intros process_pres)

lemma process_inv_start: "well_formed en s \<Longrightarrow> process_inv en (ordSnapshot s, cmtSnapshot s) own s"
  by (auto simp: process_inv_def keeps_blocks_def same_block_def)

lemma process_steps_inv:
  assumes "(process_step ky en c visit fuel)\<^sup>*\<^sup>* s t" "well_formed en s"
  shows "process_inv en (ordSnapshot s, cmtSnapshot s) (ServerID c) t"
  by (rule process_steps_pres [OF pres_process_activity assms(1)]) (rule process_inv_start [OF assms(2)])

lemma init_well_formed: "well_formed en (init_node\<lparr>files := fs\<rparr>)"
  by (simp add: well_formed_def init_node_def recorder_inv_def registry_inv_def)

text \<open>C10: Every state a process can reach from the very start, as a validator or as a proposer, whatever the key files contain, whatever is dialed or accepted and whatever
  messages arrive in whatever order, forged ones included, is well formed:
  the recorder hands out only ids it holds, no block has more votes than its threshold, the token channels hold at most their
  capacity, and the numbers, positions and hashes of the booths agree.\<close>

theorem reachable_well_formed:
  assumes "(process_step ky en c visit fuel)\<^sup>*\<^sup>* (init_node\<lparr>files := fs\<rparr>) t"
  shows "well_formed en t"
  using process_steps_inv [OF assms init_well_formed] by (simp add: process_inv_def)


section \<open>A late ordering entry replaces a certified block\<close>

definition committed :: "int \<Rightarrow> int64 \<Rightarrow> blockSnapshot option \<Rightarrow> node \<Rightarrow> bool" where
  "committed b i f s \<longleftrightarrow> nget (cmtSnapshot s) b i = f"

lemma committed_update [simp]:
  "committed b i f (s\<lparr>sent := v1\<rparr>) = committed b i f s" "committed b i f (s\<lparr>clock_reads := v2\<rparr>) = committed b i f s"
  "committed b i f (s\<lparr>valiOrdJobStack := v3\<rparr>) = committed b i f s"
  by (simp_all add: committed_def)

lemma pres_committed_reply: "pres (committed b i f) (reply_to en c m e b' ph ph')"
  unfolding reply_to_def proposer_of_def dialSendBackWithComCheck_def dialSendBack_def dialog_encoder_def checkComPathToProposer_def
    getNowTimeKey_def split_beta
  by (intro pres_intros pres_nowG, simp_all add: pres_def)

lemma OA_stores:
  assumes "nget (ordSnapshot s) (opa_BlockchainId m) (opa_BlockId m) = None"
  shows "nget (cmtSnapshot (final (validatingOAEntry ky en c m e s))) (opa_BlockchainId m) (opa_BlockId m) = Some (OA_snapshot m)"
proof -
  let ?b = "opa_BlockchainId m" and ?i = "opa_BlockId m"
  let ?s1 = "s\<lparr>ordSnapshot := nset (ordSnapshot s) ?b ?i (OA_snapshot m)\<rparr>"
  let ?s2 = "?s1\<lparr>cmtSnapshot := nset (cmtSnapshot s) ?b ?i (OA_snapshot m)\<rparr>"
  let ?rest = "thenG (thenG (modG (\<lambda>s. s\<lparr>valiOrdJobStack := nmake (valiOrdJobStack s) ?b\<rparr>)) (thenG (ord_job ?b ?i) (ord_job_send ?b ?i))) (OA_sign ky en c m e)"
  have "validatingOAEntry ky en c m e s = ?rest ?s2"
    using assms by (simp add: validatingOAEntry_def OA_register_def OA_store_def thenG_def bindG_def modG_def)
  moreover have "pres (committed ?b ?i (Some (OA_snapshot m))) ?rest"
    unfolding OA_sign_def ord_job_def ord_job_send_def split_beta
    by (intro pres_intros pres_fetchKeysByBoothId pres_committed_reply) simp_all
  then have "committed ?b ?i (Some (OA_snapshot m)) (final (?rest ?s2))" by (rule presD) (simp add: committed_def)
  ultimately show ?thesis by (simp add: committed_def)
qed

text \<open>C36: A certified block is not safe from its own proposer: a validator that learned a block from the certificate carried by a
  commit entry, and verified it, takes a later ordering entry with the same id for a new block and replaces the certified content, whatever
  it is, by the unsigned one.\<close>

theorem late_entry_replaces_certified:
  assumes "fetchKeysByBoothId ky (getThreshold (int (length (Indices (opb_Booth e))))) (ServerID c) (ID (opb_Booth e)) (opb_BlockchainId e) s = Done (pub, pri) s"
    and "PenVerify ky (opb_Hash e) (opb_CombSig e) pub" "nget (ordSnapshot s) (opb_BlockchainId e) (opb_BlockId e) = None"
    and "opa_BlockchainId m = opb_BlockchainId e" "opa_BlockId m = opb_BlockId e"
  shows "\<exists>s1. validatingOBEntry ky c e None s = Done () s1
    \<and> nget (cmtSnapshot s1) (opb_BlockchainId e) (opb_BlockId e) = Some (OB_snapshot e)
    \<and> (\<exists>g. nget (cmtSnapshot (final (validatingOAEntry ky en c m enc s1))) (opb_BlockchainId e) (opb_BlockId e) = Some g \<and> hash g = opa_Hash m \<and> tSig g = [])"
proof -
  let ?s1 = "s\<lparr>cmtSnapshot := nset (cmtSnapshot s) (opb_BlockchainId e) (opb_BlockId e) (OB_snapshot e)\<rparr>"
  have "validatingOBEntry ky c e None s = Done () ?s1"
    using assms(1-3) by (simp add: validatingOBEntry_def)
  moreover have "nget (ordSnapshot ?s1) (opa_BlockchainId m) (opa_BlockId m) = None" using assms(3-5) by simp
  then have "nget (cmtSnapshot (final (validatingOAEntry ky en c m enc ?s1))) (opa_BlockchainId m) (opa_BlockId m) = Some (OA_snapshot m)"
    by (rule OA_stores)
  ultimately show ?thesis using assms(4,5) by (intro exI [of _ ?s1]) (simp add: OA_snapshot_def)
qed

section \<open>Witnesses\<close>


theorem reachable_well_formed_witness:
  "well_formed demo_env (final (run_activity demo_kyber demo_env vali_cfg (\<lambda>m. m) 1 (Goroutine (Validate_OA vali_OA None))
     (final (run_activity demo_kyber demo_env vali_cfg (\<lambda>m. m) 1 (Initialise (Some (conf_file ''id ip'' conf_demo))) (init_node\<lparr>files := Map.empty\<rparr>)))))"
  by (rule reachable_well_formed [OF rtranclp.rtrancl_into_rtrancl [OF r_into_rtranclp]]) (rule process_step.act [OF refl])+


theorem late_entry_replaces_certified_witness:
  "\<exists>fs s1. validatingOBEntry demo_kyber vali_cfg (vali_OB [6, 6]) None (vali_node fs) = Done () s1
    \<and> nget (cmtSnapshot s1) 10 7 = Some (OB_snapshot (vali_OB [6, 6]))
    \<and> (\<exists>g. nget (cmtSnapshot (final (validatingOAEntry demo_kyber demo_env vali_cfg vali_OA None s1))) 10 7 = Some g \<and> hash g = [1, 2] \<and> tSig g = [])"
proof -
  obtain fs where keys: "\<And>s. files s = fs \<Longrightarrow> fetchKeysByBoothId demo_kyber (getThreshold (int (length (Indices vali_booth)))) (ServerID vali_cfg) (ID vali_booth) 10 s
     = Done ([7, 9], \<lparr>I = 12, V = 12\<rparr>) s" using vali_keys by blast
  let ?e = "vali_OB [6, 6]"
  have k: "fetchKeysByBoothId demo_kyber (getThreshold (int (length (Indices (opb_Booth ?e))))) (ServerID vali_cfg) (ID (opb_Booth ?e)) (opb_BlockchainId ?e) (vali_node fs)
     = Done ([7, 9], \<lparr>I = 12, V = 12\<rparr>) (vali_node fs)"
    using keys [of "vali_node fs"] by (simp add: vali_OB_def vali_node_def)
  have "PenVerify demo_kyber (opb_Hash ?e) (opb_CombSig ?e) [7, 9]" "nget (ordSnapshot (vali_node fs)) (opb_BlockchainId ?e) (opb_BlockId ?e) = None"
    "opa_BlockchainId vali_OA = opb_BlockchainId ?e" "opa_BlockId vali_OA = opb_BlockId ?e"
    by (simp_all add: PenVerify_def demo_kyber_def vali_OB_def vali_node_def init_node_def vali_OA_def)
  from late_entry_replaces_certified [OF k this, of demo_env None] show ?thesis
    by (intro exI [of _ fs]) (simp add: vali_OB_def vali_OA_def)
qed

end
