(* ===== verification/Rounds.thy ===== *)
theory Rounds
  imports Activity
begin

text \<open>
  A whole ordering instance across processes: the proposer and the validators of a booth, each with its own state,
  exchange the messages the handlers of the other theories send. Every participant reads the keys of the booth from its files.
\<close>

section \<open>Threshold signatures\<close>

text \<open>
  Documented behaviour of kyber's \<open>tbls\<close>: a share signs any message, and the signatures of a message by as many distinct shares of
  a polynomial as it has coefficients combine to a signature that verifies under its public commitment.
\<close>

definition tbls_recovers :: "('sc, 'pt, 'pub) kyber \<Rightarrow> 'sc list \<Rightarrow> int \<Rightarrow> bool" where
  "tbls_recovers ky coeffs n \<longleftrightarrow>
     (\<forall>sh m. tblsSign ky sh m \<noteq> None) \<and>
     (\<forall>shs m sgs boothSize. distinct (map I shs) \<longrightarrow> set shs \<subseteq> set (evalShares ky coeffs n) \<longrightarrow> length shs = length coeffs \<longrightarrow>
        map Some sgs = map (\<lambda>sh. tblsSign ky sh m) shs \<longrightarrow>
        (\<exists>sg. tblsRecover ky (newPubPoly ky (map (mulBase ky) coeffs)) m sgs (int (length coeffs)) boothSize = Some sg
          \<and> blsVerify ky (newPubPoly ky (map (mulBase ky) coeffs)) m sg))"

text \<open>The signature that participant \<open>v\<close> of a key makes, and the public key.\<close>

definition share_sig :: "('sc, 'pt, 'pub) kyber \<Rightarrow> 'sc list \<Rightarrow> int \<Rightarrow> bytes \<Rightarrow> int \<Rightarrow> bytes" where
  "share_sig ky coeffs n m v = the (PenSign ky m (evalShares ky coeffs n ! nat v))"

definition key_pub :: "('sc, 'pt, 'pub) kyber \<Rightarrow> 'sc list \<Rightarrow> 'pub" where
  "key_pub ky coeffs = newPubPoly ky (map (mulBase ky) coeffs)"

text \<open>The keys of a booth, as every participant reads them, and a quorum of its participants.\<close>

definition booth_keys :: "('sc, 'pt, 'pub) kyber \<Rightarrow> 'sc list \<Rightarrow> int \<Rightarrow> Booth \<Rightarrow> int \<Rightarrow> fs \<Rightarrow> bool" where
  "booth_keys ky coeffs n boo b fs \<longleftrightarrow> kyber_encodes ky \<and> tbls_recovers ky coeffs n \<and> 0 \<le> b
     \<and> length coeffs = 2 * (length (Indices boo) div 3) \<and> coeffs \<noteq> []
     \<and> (\<forall>v s. 0 \<le> v \<longrightarrow> v < n \<longrightarrow> files s = fs \<longrightarrow> fetchKeysByBoothId ky (getThreshold (int (length (Indices boo)))) v (ID boo) b s
          = Done (key_pub ky coeffs, evalShares ky coeffs n ! nat v) s)"

definition quorum :: "'sc list \<Rightarrow> int \<Rightarrow> int list \<Rightarrow> bool" where
  "quorum coeffs n vs \<longleftrightarrow> distinct vs \<and> length vs = length coeffs \<and> (\<forall>v \<in> set vs. 0 \<le> v \<and> v < n)"

text \<open>They are there after a run of the generator for the booth, and stay there when it runs for other booths.\<close>

lemma generated_booth_keys:
  assumes "generator_main ky coeffs n (ID boo) b f = Inr fs" "kyber_encodes ky" "tbls_recovers ky coeffs n" "0 \<le> b"
    and "length coeffs = 2 * (length (Indices boo) div 3)" "coeffs \<noteq> []"
  shows "booth_keys ky coeffs n boo b fs"
proof -
  have t: "getThreshold (int (length (Indices boo))) = int (length coeffs)" using assms(5) by simp
  have "fetchKeysByBoothId ky (int (length coeffs)) v (ID boo) b s = Done (key_pub ky coeffs, evalShares ky coeffs n ! nat v) s"
    if "0 \<le> v" "v < n" "files s = fs" for v s
    unfolding key_pub_def by (rule fetchKeys_generated [where f = f, OF assms(2,4) that(1,2)]) (simp add: assms(1) that(3))
  then show ?thesis using assms(2-6) unfolding booth_keys_def t by blast
qed

lemma booth_keys_kept:
  assumes "booth_keys ky coeffs n boo b fs" "generator_main ky coeffs' n' i b' fs = Inr fs'" "0 \<le> b'" "(i, b') \<noteq> (ID boo, b)"
  shows "booth_keys ky coeffs n boo b fs'"
proof -
  have "fetchKeysByBoothId ky (getThreshold (int (length (Indices boo)))) v (ID boo) b t = Done (key_pub ky coeffs, evalShares ky coeffs n ! nat v) t"
    if v: "0 \<le> v" "v < n" and t: "files t = fs'" for v t
  proof (rule fetchKeys_other [OF _ assms(3) _ assms(4), where s = "t\<lparr>files := fs\<rparr>"])
    show "generator_main ky coeffs' n' i b' fs = Inr (files t)" using assms(2) t by simp
  qed (use assms(1) v in \<open>simp_all add: booth_keys_def del: getThreshold_nat\<close>)
  then show ?thesis using assms(1) unfolding booth_keys_def by blast
qed

lemma booth_keys_fetch:
  assumes "booth_keys ky coeffs n boo b fs" "0 \<le> v" "v < n" "files s = fs"
  shows "fetchKeysByBoothId ky (getThreshold (int (length (Indices boo)))) v (ID boo) b s = Done (key_pub ky coeffs, evalShares ky coeffs n ! nat v) s"
  using assms unfolding booth_keys_def by blast

lemma booth_keys_sign:
  assumes "booth_keys ky coeffs n boo b fs"
  shows "PenSign ky m (evalShares ky coeffs n ! nat v) = Some (share_sig ky coeffs n m v)"
  using assms by (auto simp: booth_keys_def tbls_recovers_def share_sig_def PenSign_def)

lemma booth_keys_shares:
  assumes "booth_keys ky coeffs n boo b fs" "quorum coeffs n vs"
  shows "map I (map (\<lambda>v. evalShares ky coeffs n ! nat v) vs) = vs"
    and "set (map (\<lambda>v. evalShares ky coeffs n ! nat v) vs) \<subseteq> set (evalShares ky coeffs n)"
proof -
  let ?shs = "evalShares ky coeffs n"
  have at: "I (?shs ! nat v) = v \<and> nat v < length ?shs" if "0 \<le> v" "v < n" for v
  proof -
    have ids: "map I ?shs = map int [0..<nat n]" using assms(1) that by (simp add: booth_keys_def kyber_encodes_def)
    then have len: "length ?shs = nat n" by (metis length_map length_upt minus_nat.diff_0)
    then show ?thesis using arg_cong [OF ids, of "\<lambda>l. l ! nat v"] that by simp
  qed
  then show "map I (map (\<lambda>v. ?shs ! nat v) vs) = vs" using assms(2) by (simp add: quorum_def map_idI)
  show "set (map (\<lambda>v. ?shs ! nat v) vs) \<subseteq> set ?shs" using at assms(2) by (auto simp: quorum_def)
qed

lemma quorum_recovers:
  assumes "booth_keys ky coeffs n boo b fs" "quorum coeffs n vs"
  shows "\<exists>sg. PenRecovery ky (map (share_sig ky coeffs n m) vs) m (key_pub ky coeffs) (int (length (Indices boo))) = Some sg
    \<and> PenVerify ky m sg (key_pub ky coeffs)"
proof -
  let ?shs = "map (\<lambda>v. evalShares ky coeffs n ! nat v) vs"
  have t: "getThreshold (int (length (Indices boo))) = int (length coeffs)" using assms(1) by (simp add: booth_keys_def)
  have "map Some (map (share_sig ky coeffs n m) vs) = map (\<lambda>sh. tblsSign ky sh m) ?shs"
    using booth_keys_sign [OF assms(1), of m] by (simp add: PenSign_def)
  moreover have "distinct (map I ?shs)" "length ?shs = length coeffs"
    using booth_keys_shares(1) [OF assms] assms(2) by (simp_all add: quorum_def)
  moreover have "tbls_recovers ky coeffs n" using assms(1) by (simp add: booth_keys_def)
  ultimately show ?thesis
    unfolding PenRecovery_def PenVerify_def key_pub_def t tbls_recovers_def using booth_keys_shares(2) [OF assms] by blast
qed

section \<open>An ordering instance\<close>

lemma handle_OB_below:
  assumes "nget (ordSnapshot s) b i = Some f" "Suc (length (sigs f)) < 2 * (length (Indices (booth f)) div 3)"
  shows "asyncHandleOBReply ky en c (opa_reply b i x) sid s = Done () (s\<lparr>ordSnapshot := nset (ordSnapshot s) b i (f\<lparr>sigs := sigs f @ [x]\<rparr>)\<rparr>)"
proof -
  have "ob_vote c (opa_reply b i x) s = Done None (s\<lparr>ordSnapshot := nset (ordSnapshot s) b i (f\<lparr>sigs := sigs f @ [x]\<rparr>)\<rparr>)"
    using assms(2) unfolding ob_vote_run [OF assms(1)] Let_def by simp
  then show ?thesis unfolding asyncHandleOBReply_def by (subst bindG_Done) (assumption, simp)
qed

text \<open>All replies but the last.\<close>

lemma handle_OBs_below:
  assumes "nget (ordSnapshot s) b i = Some f" "length (sigs f) + length vs < 2 * (length (Indices (booth f)) div 3)"
  shows "\<exists>om. forG vs (\<lambda>v. asyncHandleOBReply ky en c (opa_reply b i (sig v)) v) s = Done () (s\<lparr>ordSnapshot := om\<rparr>)
    \<and> nget om b i = Some (f\<lparr>sigs := sigs f @ map sig vs\<rparr>)"
  using assms
proof (induction vs arbitrary: s f)
  case Nil
  then show ?case by (intro exI [of _ "ordSnapshot s"]) simp
next
  case (Cons v vs)
  let ?f = "f\<lparr>sigs := sigs f @ [sig v]\<rparr>"
  let ?s = "s\<lparr>ordSnapshot := nset (ordSnapshot s) b i ?f\<rparr>"
  have step: "asyncHandleOBReply ky en c (opa_reply b i (sig v)) v s = Done () ?s"
    by (rule handle_OB_below [OF Cons.prems(1)]) (use Cons.prems(2) in simp)
  have "\<exists>om. forG vs (\<lambda>v. asyncHandleOBReply ky en c (opa_reply b i (sig v)) v) ?s = Done () (?s\<lparr>ordSnapshot := om\<rparr>)
    \<and> nget om b i = Some (?f\<lparr>sigs := sigs ?f @ map sig vs\<rparr>)"
    by (rule Cons.IH) (use Cons.prems(2) in simp_all)
  then show ?case using step by auto
qed

text \<open>A proposer that has made block \<open>i\<close> and can broadcast its certificate.\<close>

definition awaits_votes :: "env \<Rightarrow> cfg \<Rightarrow> node \<Rightarrow> int64 \<Rightarrow> blockSnapshot \<Rightarrow> bool" where
  "awaits_votes en c p i f \<longleftrightarrow> nget (ordSnapshot p) (ServerID c) i = Some f \<and> sigs f = [] \<and> nget (cmtSnapshot p) (ServerID c) i = Some f
     \<and> 0 \<le> ID (booth f) \<and> ID (booth f) < int (length (booMgr_b p)) \<and> booMgr_b p ! nat (ID (booth f)) = booth f
     \<and> \<not> broadcastError p \<and> members_in_range c p OPB (Indices (booth f)) \<and> audible en c p (Indices (booth f))
     \<and> (PerfMetres c \<longrightarrow> LatMetreInterval c \<noteq> 0)"

text \<open>What the votes for a block leave unchanged at the proposer.\<close>

definition order_frame :: "node \<Rightarrow> node \<Rightarrow> bool" where
  "order_frame s t \<longleftrightarrow> booMgr_b t = booMgr_b s \<and> booMgr_index t = booMgr_index s \<and> concierge t = concierge s \<and> files t = files s
     \<and> vgTxMeta_sigs t = vgTxMeta_sigs s \<and> lastIdx (vgrec t) = lastIdx (vgrec s) \<and> participantVehicleTimeData t = participantVehicleTimeData s
     \<and> same_links s t"

lemma logged_fails: "\<forall>k. \<not> encErr en k \<Longrightarrow> t \<in> set (logged en n g) \<Longrightarrow> \<not> failed t"
  by (induction en n g rule: logged.induct) auto

lemma logged_no_error: "\<forall>k. \<not> encErr en k \<Longrightarrow> log_step en P ts s t \<Longrightarrow> broadcastError t = broadcastError s"
  unfolding log_step_def using logged_fails by blast

lemma quorum_orders:
  assumes "booth_keys ky coeffs n (booth f) (ServerID c) (files p)" "quorum coeffs n vs" "ServerID c < n" "awaits_votes en c p i f"
  shows "\<exists>sg p'. forG vs (\<lambda>v. asyncHandleOBReply ky en c (opa_reply (ServerID c) i (share_sig ky coeffs n (hash f) v)) v) p = Done () p'
    \<and> PenVerify ky (hash f) sg (key_pub ky coeffs)
    \<and> blockIDs (vgrec p') = blockIDs (vgrec p) @ [i] \<and> nget (cmtSnapshot p') (ServerID c) i = Some (f\<lparr>tSig := sg\<rparr>)
    \<and> outbox p' = outbox p @ map (\<lambda>v. (Concierge OPB v, OPBEntry (order_entry (opa_reply (ServerID c) i []) f sg)))
        (members_to_send c p OPB (Indices (booth f)))
    \<and> order_frame p p' \<and> ((\<forall>k. \<not> encErr en k) \<longrightarrow> \<not> broadcastError p')"
proof -
  let ?b = "ServerID c" and ?sig = "share_sig ky coeffs n (hash f)" and ?t = "2 * (length (Indices (booth f)) div 3)"
  let ?h = "\<lambda>v. asyncHandleOBReply ky en c (opa_reply ?b i (?sig v)) v"
  have len: "length vs = ?t" "length coeffs = ?t" using assms(1,2) by (simp_all add: booth_keys_def quorum_def)
  then have "vs \<noteq> []" using assms(1) by (auto simp: booth_keys_def)
  then obtain us v where vs: "vs = us @ [v]" by (cases vs rule: rev_cases) auto
  have f: "nget (ordSnapshot p) ?b i = Some f" "sigs f = []" "nget (cmtSnapshot p) ?b i = Some f"
    using assms(4) by (simp_all add: awaits_votes_def)
  obtain om where om: "forG us ?h p = Done () (p\<lparr>ordSnapshot := om\<rparr>)" "nget om ?b i = Some (f\<lparr>sigs := map ?sig us\<rparr>)"
    using handle_OBs_below [OF f(1), of us ky en c ?sig] f(2) len vs by auto
  let ?p = "p\<lparr>ordSnapshot := om\<rparr>" and ?f = "f\<lparr>sigs := map ?sig us\<rparr>"
  obtain sg where sg: "PenRecovery ky (map ?sig vs) (hash f) (key_pub ky coeffs) (int (length (Indices (booth f)))) = Some sg"
    "PenVerify ky (hash f) sg (key_pub ky coeffs)"
    using quorum_recovers [OF assms(1,2)] by blast
  have k: "fetchKeysByBoothId ky (getThreshold (int (length (Indices (booth ?f))))) ?b (ID (booth ?f)) ?b ?p = Done (key_pub ky coeffs, evalShares ky coeffs n ! nat ?b) ?p"
    using booth_keys_fetch [OF assms(1), of ?b ?p] assms(1,3) by (simp add: booth_keys_def)
  have "\<exists>s1. asyncHandleOBReply ky en c (opa_reply ?b i (?sig v)) v ?p =
      thenG (broadcast_booth en c (OPBEntry (order_entry (opa_reply ?b i (?sig v)) ?f sg)) OPB (ID (booth ?f))) (bindG (nowG en) (\<lambda>_. ret ())) s1
    \<and> blockIDs (vgrec s1) = blockIDs (vgrec ?p) @ [i] \<and> nget (cmtSnapshot s1) ?b i = Some (f\<lparr>tSig := sg\<rparr>)
    \<and> nget (ordSnapshot s1) ?b i = Some (?f\<lparr>sigs := sigs ?f @ [?sig v]\<rparr>) \<and> booth_view ?p s1 \<and> lastIdx (vgrec s1) = lastIdx (vgrec ?p)"
    by (rule ob_orders_run [OF _ _ k]) (use om(2) vs len sg(1) f(3) assms(4) in \<open>simp_all add: awaits_votes_def\<close>)
  then obtain s1 where s1: "?h v ?p = thenG (broadcast_booth en c (OPBEntry (order_entry (opa_reply ?b i []) f sg)) OPB (ID (booth f)))
        (bindG (nowG en) (\<lambda>_. ret ())) s1"
      "blockIDs (vgrec s1) = blockIDs (vgrec p) @ [i]" "nget (cmtSnapshot s1) ?b i = Some (f\<lparr>tSig := sg\<rparr>)" "booth_view p s1" "lastIdx (vgrec s1) = lastIdx (vgrec p)"
    by (auto simp: order_entry_def opa_reply_def booth_view_def same_links_def)
  let ?e = "OPBEntry (order_entry (opa_reply ?b i []) f sg)"
  have mem: "members_in_range c s1 OPB (Indices (booMgr_b s1 ! nat (ID (booth f))))" "members_to_send c s1 OPB (Indices (booMgr_b s1 ! nat (ID (booth f))))
      = members_to_send c p OPB (Indices (booth f))"
    using assms(4) s1(4) by (simp_all add: awaits_votes_def booth_view_def members_in_range_def members_to_send_def)
  have links: "same_links p s1" using s1(4) by (simp add: booth_view_def same_links_def)
  have "\<exists>p1. broadcast_booth en c ?e OPB (ID (booth f)) s1 = Done () p1
      \<and> log_step en (\<lambda>_. True) (map (\<lambda>i. (Concierge OPB i, ?e)) (members_to_send c s1 OPB (Indices (booMgr_b s1 ! nat (ID (booth f)))))) s1 p1"
    by (rule broadcast_booth_sends) (use mem(1) assms(4) s1(4) in \<open>simp_all add: awaits_votes_def booth_view_def audible_links [OF links]\<close>)
  then obtain p1 where p1: "broadcast_booth en c ?e OPB (ID (booth f)) s1 = Done () p1"
      "log_step en (\<lambda>_. True) (map (\<lambda>i. (Concierge OPB i, ?e)) (members_to_send c p OPB (Indices (booth f)))) s1 p1"
    unfolding mem(2) by blast
  let ?p' = "p1\<lparr>clock_reads := Suc (clock_reads p1)\<rparr>"
  have "?h v ?p = Done () ?p'"
    unfolding s1(1) using p1(1) by simp
  then have "forG vs ?h p = Done () ?p'" using om(1) by (simp add: vs forG_append)
  moreover have "outbox ?p' = outbox p @ map (\<lambda>v. (Concierge OPB v, ?e)) (members_to_send c p OPB (Indices (booth f)))"
    using log_step_outbox [OF p1(2)] s1(4) by (simp add: outbox_def booth_view_def)
  moreover have "vgrec ?p' = vgrec s1" "cmtSnapshot ?p' = cmtSnapshot s1"
    using log_step_frame [OF p1(2)] by (simp_all add: net_frame_fields)
  moreover have "order_frame p ?p'"
    using s1(4,5) links net_frame_fields [OF log_step_frame [OF p1(2)]] net_frame_links [OF log_step_frame [OF p1(2)]]
    by (simp add: order_frame_def booth_view_def same_links_def)
  moreover have "\<not> broadcastError ?p'" if "\<forall>k. \<not> encErr en k"
    using logged_no_error [OF that p1(2)] s1(4) assms(4) by (simp add: booth_view_def awaits_votes_def)
  ultimately show ?thesis using sg(2) s1(2,3) by (intro exI [of _ sg] exI [of _ ?p']) simp
qed

text \<open>A member that has not seen the block and replies directly.\<close>

definition member_ready :: "env \<Rightarrow> (int \<Rightarrow> cfg) \<Rightarrow> (int \<Rightarrow> node) \<Rightarrow> fs \<Rightarrow> int \<Rightarrow> int64 \<Rightarrow> int \<Rightarrow> bool" where
  "member_ready en cv st fs b i v \<longleftrightarrow> ServerID (cv v) = v \<and> answers en (cv v) (st v) b OPA \<and> files (st v) = fs
     \<and> nget (ordSnapshot (st v)) b i = None \<and> nget (valiOrdJobStack (st v)) b i = None"

lemma OB_run:
  assumes "fetchKeysByBoothId ky (getThreshold (int (length (Indices (opb_Booth m))))) (ServerID c) (ID (opb_Booth m)) (opb_BlockchainId m) s = Done (pub, pri) s"
    and "PenVerify ky (opb_Hash m) (opb_CombSig m) pub"
    and "nget (ordSnapshot s) (opb_BlockchainId m) (opb_BlockId m) = Some f" "nget (cmtSnapshot s) (opb_BlockchainId m) (opb_BlockId m) = Some g"
  shows "validatingOBEntry ky c m encoder s
     = Done () (s\<lparr>cmtSnapshot := nset (cmtSnapshot s) (opb_BlockchainId m) (opb_BlockId m) (g\<lparr>tSig := opb_CombSig m\<rparr>)\<rparr>)"
  using assms by (simp add: validatingOBEntry_def OB_attach_def)

lemma member_replies:
  assumes "booth_keys ky coeffs n (opa_Booth m) (opa_BlockchainId m) fs" "member_ready en cv st fs (opa_BlockchainId m) (opa_BlockId m) v" "0 \<le> v" "v < n"
  shows "validatingOAEntry ky en (cv v) m (Some d) (st v) = Done () (OA_replied en (cv v) m d (share_sig ky coeffs n (opa_Hash m) v) (st v))"
proof (rule OA_run)
  show "fetchKeysByBoothId ky (getThreshold (int (length (Indices (opa_Booth m))))) (ServerID (cv v)) (ID (opa_Booth m)) (opa_BlockchainId m) (st v)
      = Done (key_pub ky coeffs, evalShares ky coeffs n ! nat v) (st v)"
    using booth_keys_fetch [OF assms(1,3,4), of "st v"] assms(2) by (simp add: member_ready_def)
qed (use assms(2) booth_keys_sign [OF assms(1)] in \<open>simp_all add: member_ready_def\<close>)

text \<open>A member that answered the entry attaches a certificate of its booth that verifies.\<close>

lemma member_certifies:
  assumes "booth_keys ky coeffs n (opa_Booth m) (opa_BlockchainId m) (files s)" "0 \<le> ServerID c" "ServerID c < n"
    and "PenVerify ky (opb_Hash e) (opb_CombSig e) (key_pub ky coeffs)"
    and "opb_Booth e = opa_Booth m" "opb_BlockchainId e = opa_BlockchainId m" "opb_BlockId e = opa_BlockId m"
  shows "validatingOBEntry ky c e enc (OA_replied en c m d sig s) = Done () ((OA_replied en c m d sig s)\<lparr>cmtSnapshot :=
    nset (cmtSnapshot (OA_replied en c m d sig s)) (opa_BlockchainId m) (opa_BlockId m) ((OA_snapshot m)\<lparr>tSig := opb_CombSig e\<rparr>)\<rparr>)"
proof -
  have "fetchKeysByBoothId ky (getThreshold (int (length (Indices (opb_Booth e))))) (ServerID c) (ID (opb_Booth e)) (opb_BlockchainId e) (OA_replied en c m d sig s)
      = Done (key_pub ky coeffs, evalShares ky coeffs n ! nat (ServerID c)) (OA_replied en c m d sig s)"
    unfolding assms(5,6) by (rule booth_keys_fetch [OF assms(1-3)]) (simp add: OA_replied_fields)
  from OB_run [OF this assms(4)] show ?thesis using OA_replied_fields(1,2) [of en c m d sig s] unfolding assms(6,7) by simp
qed

text \<open>What a member has in the end: the block with its certificate, and otherwise what it had.\<close>

definition certified_member :: "int \<Rightarrow> int64 \<Rightarrow> blockSnapshot \<Rightarrow> node \<Rightarrow> node \<Rightarrow> bool" where
  "certified_member b i g s t \<longleftrightarrow> (\<forall>j. nget (cmtSnapshot t) b j = (if j = i then Some g else nget (cmtSnapshot s) b j))
     \<and> valiConsJobStack t = valiConsJobStack s \<and> files t = files s \<and> same_links s t"

lemma certified_member_block: "certified_member b i g s t \<Longrightarrow> nget (cmtSnapshot t) b i = Some g"
  by (simp add: certified_member_def)

lemma round_from_block:
  assumes "booth_keys ky coeffs n (booth f) (ServerID c) fs" "quorum coeffs n vs" "ServerID c < n" "files p = fs" "awaits_votes en c p i f"
    and "\<forall>v \<in> set vs. member_ready en cv st fs (ServerID c) i v"
    and "opa_Booth m = booth f" "opa_BlockchainId m = ServerID c" "opa_BlockId m = i" "opa_Hash m = hash f"
  shows "\<exists>sig st1 sg p' st2.
      (\<forall>v \<in> set vs. validatingOAEntry ky en (cv v) m (Some d) (st v) = Done () (st1 v)
        \<and> outbox (st1 v) = outbox (st v) @ [(d, OPAReply (opa_reply (ServerID c) i (sig v)))])
    \<and> forG vs (\<lambda>v. asyncHandleOBReply ky en c (opa_reply (ServerID c) i (sig v)) v) p = Done () p'
    \<and> blockIDs (vgrec p') = blockIDs (vgrec p) @ [i] \<and> nget (cmtSnapshot p') (ServerID c) i = Some (f\<lparr>tSig := sg\<rparr>)
    \<and> PenVerify ky (hash f) sg (key_pub ky coeffs)
    \<and> outbox p' = outbox p @ map (\<lambda>v. (Concierge OPB v, OPBEntry (order_entry (opa_reply (ServerID c) i []) f sg)))
        (members_to_send c p OPB (Indices (booth f)))
    \<and> (\<forall>v \<in> set vs. validatingOBEntry ky (cv v) (order_entry (opa_reply (ServerID c) i []) f sg) enc (st1 v) = Done () (st2 v)
        \<and> certified_member (ServerID c) i ((OA_snapshot m)\<lparr>tSig := sg\<rparr>) (st v) (st2 v))
    \<and> order_frame p p' \<and> ((\<forall>k. \<not> encErr en k) \<longrightarrow> \<not> broadcastError p')"
proof -
  let ?b = "ServerID c" and ?sig = "share_sig ky coeffs n (hash f)"
  let ?st1 = "\<lambda>v. OA_replied en (cv v) m d (?sig v) (st v)"
  have OA: "validatingOAEntry ky en (cv v) m (Some d) (st v) = Done () (?st1 v)" if "v \<in> set vs" for v
    using member_replies [of ky coeffs n m fs en cv st v d] assms(1,2,6-10) that by (simp add: quorum_def)
  have reply: "outbox (?st1 v) = outbox (st v) @ [(d, OPAReply (opa_reply ?b i (?sig v)))]" for v
    using OA_replied_fields(3) [of en "cv v" m d "?sig v" "st v"] assms(8,9) by (simp add: opa_reply_def)
  obtain sg p' where p': "forG vs (\<lambda>v. asyncHandleOBReply ky en c (opa_reply ?b i (?sig v)) v) p = Done () p'"
    "PenVerify ky (hash f) sg (key_pub ky coeffs)" "blockIDs (vgrec p') = blockIDs (vgrec p) @ [i]" "nget (cmtSnapshot p') ?b i = Some (f\<lparr>tSig := sg\<rparr>)"
    "outbox p' = outbox p @ map (\<lambda>v. (Concierge OPB v, OPBEntry (order_entry (opa_reply ?b i []) f sg))) (members_to_send c p OPB (Indices (booth f)))"
    "order_frame p p'" "(\<forall>k. \<not> encErr en k) \<longrightarrow> \<not> broadcastError p'"
    using quorum_orders [OF _ assms(2,3,5), of ky] assms(1,4) by blast
  let ?e = "order_entry (opa_reply ?b i []) f sg"
  have e: "opb_Booth ?e = booth f" "opb_BlockchainId ?e = ?b" "opb_BlockId ?e = i" "opb_Hash ?e = hash f" "opb_CombSig ?e = sg"
    by (simp_all add: order_entry_def opa_reply_def)
  let ?st2 = "\<lambda>v. (?st1 v)\<lparr>cmtSnapshot := nset (cmtSnapshot (?st1 v)) ?b i ((OA_snapshot m)\<lparr>tSig := sg\<rparr>)\<rparr>"
  have OB: "validatingOBEntry ky (cv v) ?e enc (?st1 v) = Done () (?st2 v)" if "v \<in> set vs" for v
    using member_certifies [of ky coeffs n m "st v" "cv v" ?e enc en d "?sig v"] assms(1,2,6-10) p'(2) e that by (simp add: quorum_def member_ready_def)
  have cert: "certified_member ?b i ((OA_snapshot m)\<lparr>tSig := sg\<rparr>) (st v) (?st2 v)" for v
    using assms(8,9) by (simp add: certified_member_def OA_replied_def replied_fields) (simp add: OA_stored_def Let_def replied_def look_def same_links_def)
  show ?thesis
    by (rule exI [of _ ?sig], rule exI [of _ ?st1], rule exI [of _ sg], rule exI [of _ p'], rule exI [of _ ?st2])
      (use OA reply p' OB cert in blast)
qed

section \<open>From the entries to the certificate\<close>

lemma getBoothID_registry:
  assumes "registry_inv en s" "getBoothID ky en c fuel s = Done b t"
  shows "registry_inv en t \<and> 0 \<le> b \<and> b < int (length (booMgr_b t))"
  using assms
proof (induction fuel arbitrary: s)
  case (Suc fuel)
  have inv: "registry_inv en (look s)" using Suc.prems(1) by (simp add: look_def registry_inv_def)
  show ?case
  proof (cases "length (participants_at en s (clock_reads s)) \<le> 2")
    case True
    then show ?thesis using Suc.IH [OF inv] Suc.prems(2) by (simp add: getBoothID_step del: getBoothID.simps)
  next
    case False
    then have "checkExactMatchInBooMgr ky en c (ServerID c # participants_at en s (clock_reads s)) (look s) = Done b t"
      using Suc.prems(2) by (simp add: getBoothID_step del: getBoothID.simps)
    from registry_request [OF inv this] show ?thesis by blast
  qed
qed simp

text \<open>What choosing the booth leaves unchanged.\<close>

definition booth_frame :: "node \<Rightarrow> node \<Rightarrow> bool" where
  "booth_frame s t \<longleftrightarrow> chain t = chain s \<and> sent t = sent s \<and> concierge t = concierge s \<and> broadcastError t = broadcastError s \<and> vgrec t = vgrec s
     \<and> vgTxMeta_sigs t = vgTxMeta_sigs s \<and> participantVehicleTimeData t = participantVehicleTimeData s \<and> same_links s t"

lemma getBoothID_frame:
  assumes "getBoothID ky en c fuel s = Done b t"
  shows "booth_frame s t"
proof -
  have "pres (booth_frame s) (getBoothID ky en c fuel)" by (rule pres_getBoothID) (simp_all add: booth_frame_def same_links_def)
  from presD [OF this, of s] show ?thesis using assms by (simp add: booth_frame_def)
qed

definition made_entry :: "env \<Rightarrow> cfg \<Rightarrow> Booth \<Rightarrow> int64 \<Rightarrow> Entry list \<Rightarrow> ProposerOPAEntry" where
  "made_entry en c boo i es = \<lparr>opa_Booth = boo, opa_BlockId = i, opa_BlockchainId = ServerID c, opa_Entries = numbered es,
     opa_Hash = getDigest en (the (serialization_entries (numbered es)))\<rparr>"

text \<open>A proposer that can reach a booth: every member has a place in the connection table and hears the proposer, and sends succeed.\<close>

definition booth_reachable :: "env \<Rightarrow> cfg \<Rightarrow> node \<Rightarrow> Booth \<Rightarrow> bool" where
  "booth_reachable en c p boo \<longleftrightarrow> registry_inv en p \<and> \<not> broadcastError p \<and> (\<forall>k. \<not> encErr en k) \<and> audible en c p (Indices boo)
     \<and> (PerfMetres c \<longrightarrow> LatMetreInterval c \<noteq> 0) \<and> (\<forall>ph. members_in_range c p ph (Indices boo))"

lemma record_start_run:
  assumes "PerfMetres c \<longrightarrow> LatMetreInterval c \<noteq> 0"
  shows "\<exists>x y. record_start en c i s = Done () (s\<lparr>metre_startTime := x, clock_reads := y\<rparr>)"
proof (cases "PerfMetres c \<and> rem64 i (LatMetreInterval c) = 0")
  case True
  show ?thesis
    by (rule exI [of _ "alput i (unixMilli en (clock_reads s)) (metre_startTime s)"], rule exI [of _ "Suc (clock_reads s)"])
      (use True assms in \<open>simp add: record_start_def remG_def recordStartTime_def\<close>)
next
  case False
  show ?thesis
    by (rule exI [of _ "metre_startTime s"], rule exI [of _ "clock_reads s"]) (use False assms in \<open>auto simp: record_start_def remG_def\<close>)
qed

text \<open>From the first clock reading to the second: the block is counted and stored in both snapshots.\<close>

lemma block_registered:
  fixes k :: "(node, 'r) go"
  assumes "PerfMetres c \<longrightarrow> LatMetreInterval c \<noteq> 0"
  shows "\<exists>t. thenG (bindG (nowG en) (\<lambda>_. ret ())) (thenG (record_start en c i) (thenG (register_block b i f) (thenG (bindG (nowG en) (\<lambda>_. ret ())) k))) s = k t
    \<and> concierge t = concierge s \<and> broadcastError t = broadcastError s \<and> booMgr_b t = booMgr_b s \<and> sent t = sent s \<and> files t = files s
    \<and> vgrec t = vgrec s \<and> nget (ordSnapshot t) b i = Some f \<and> nget (cmtSnapshot t) b i = Some f
    \<and> booMgr_index t = booMgr_index s \<and> vgTxMeta_sigs t = vgTxMeta_sigs s \<and> participantVehicleTimeData t = participantVehicleTimeData s
    \<and> same_links s t"
proof -
  let ?s = "s\<lparr>clock_reads := Suc (clock_reads s)\<rparr>"
  obtain x y where r: "record_start en c i ?s = Done () (?s\<lparr>metre_startTime := x, clock_reads := y\<rparr>)"
    using record_start_run [OF assms] by blast
  show ?thesis
    by (rule exI [of _ "s\<lparr>metre_startTime := x, logIndex := logIndex s + 1, ordSnapshot := nset (ordSnapshot s) b i f,
        cmtSnapshot := nset (cmtSnapshot s) b i f, clock_reads := Suc y\<rparr>"]) (simp add: r register_block_def incrementLogIndex_def same_links_def)
qed

lemma made_block:
  assumes "booth_reachable en c p boo" "getBoothID ky en c fuel p = Done bid s1" "boo = booMgr_b s1 ! nat bid" "es \<noteq> []"
  shows "\<exists>p1. makeAndBroadcast ky en c fuel (sh_of es) p = Done (sh_of []) p1 \<and> awaits_votes en c p1 (logIndex p) (block_of en es boo)
    \<and> files p1 = files s1 \<and> vgrec p1 = vgrec p \<and> concierge p1 = concierge p \<and> registry_inv en p1 \<and> vgTxMeta_sigs p1 = vgTxMeta_sigs p
    \<and> booMgr_b p1 = booMgr_b s1 \<and> booMgr_index p1 = booMgr_index s1 \<and> participantVehicleTimeData p1 = participantVehicleTimeData p \<and> same_links p p1
    \<and> outbox p1 = outbox p @ map (\<lambda>v. (Concierge OPA v, OPAEntry (made_entry en c boo (logIndex p) es))) (members_to_send c p OPA (Indices boo))"
proof -
  obtain d where ser: "serialization_entries (numbered es) = Some d" by (simp add: serialization_entries_def)
  have loc: "present (numbered es) (upto_int 0 (int (length es))) = numbered es" by (simp add: present_numbered)
  note R = assms(1) [unfolded booth_reachable_def]
  note F = getBoothID_frame [OF assms(2), unfolded booth_frame_def]
  have b: "0 \<le> bid" "bid < int (length (booMgr_b s1))" "registry_inv en s1"
    using getBoothID_registry [OF _ assms(2)] R by blast+
  then have id: "ID boo = bid" using assms(3) by (auto simp: registry_inv_def)
  let ?e = "made_entry en c boo (logIndex p) es" and ?f = "block_of en es boo"
  let ?k = "thenG (broadcast_booth en c (OPAEntry ?e) OPA bid) (thenG (bindG (nowG en) (\<lambda>_. ret ())) (ret (sh_of [])))"
  obtain t where t: "thenG (bindG (nowG en) (\<lambda>_. ret ())) (thenG (record_start en c (logIndex p)) (thenG (register_block (ServerID c) (logIndex p) ?f)
      (thenG (bindG (nowG en) (\<lambda>_. ret ())) ?k))) s1 = ?k t"
    and v: "concierge t = concierge s1" "broadcastError t = broadcastError s1" "booMgr_b t = booMgr_b s1" "sent t = sent s1" "files t = files s1"
      "vgrec t = vgrec s1" "nget (ordSnapshot t) (ServerID c) (logIndex p) = Some ?f" "nget (cmtSnapshot t) (ServerID c) (logIndex p) = Some ?f"
      "booMgr_index t = booMgr_index s1" "vgTxMeta_sigs t = vgTxMeta_sigs s1" "participantVehicleTimeData t = participantVehicleTimeData s1" "same_links s1 t"
    using block_registered [of c en "logIndex p" "ServerID c" ?f ?k s1] R by blast
  have range: "members_in_range c t OPA (Indices (booMgr_b t ! nat bid))"
      "members_to_send c t OPA (Indices (booMgr_b t ! nat bid)) = members_to_send c p OPA (Indices boo)"
    using R F by (simp_all add: v assms(3) [symmetric] members_in_range_def members_to_send_def)
  have up: "\<not> broadcastError t" "bid < int (length (booMgr_b t))" using R F b(2) by (simp_all add: v)
  have "same_links p s1" using F by blast
  from same_links_trans [OF this v(12)] have links: "same_links p t" .
  then have aud: "audible en c t (Indices (booMgr_b t ! nat bid))" using R by (simp add: v assms(3) [symmetric] audible_links)
  obtain u where u: "broadcast_booth en c (OPAEntry ?e) OPA bid t = Done () u"
      "log_step en (\<lambda>_. True) (map (\<lambda>i. (Concierge OPA i, OPAEntry ?e)) (members_to_send c p OPA (Indices boo))) t u"
    using broadcast_booth_sends [OF up(1) b(1) up(2) range(1) aud, of "OPAEntry ?e"] unfolding range(2) by blast
  let ?p1 = "u\<lparr>clock_reads := Suc (clock_reads u)\<rparr>"
  have "same_links t ?p1" using net_frame_links [OF log_step_frame [OF u(2)]] by (simp add: same_links_def)
  from same_links_trans [OF links this] have links': "same_links p ?p1" .
  note N = net_frame_fields [OF log_step_frame [OF u(2)]]
  have "makeAndBroadcast ky en c fuel (sh_of es) p = ?k t"
    using assms(2-4) b(1,2) t
    by (simp only: makeAndBroadcast_def) (simp add: sh_of_def loc ser getLogIndex_def Let_def empty_shuffle_def block_of_def made_entry_def
        del: getBoothID.simps)
  also have "\<dots> = Done (sh_of []) ?p1" using u(1) by simp
  finally have run: "makeAndBroadcast ky en c fuel (sh_of es) p = Done (sh_of []) ?p1" .
  have "\<not> broadcastError u" using logged_no_error [OF _ u(2)] R F by (simp add: v)
  then have votes: "awaits_votes en c ?p1 (logIndex p) ?f"
    using R F b id assms(3) v N unfolding awaits_votes_def
    by (simp add: block_of_def snapshot_of_def members_in_range_def audible_links [OF links'])
  have "outbox ?p1 = outbox p @ map (\<lambda>v. (Concierge OPA v, OPAEntry ?e)) (members_to_send c p OPA (Indices boo))"
    using log_step_outbox [OF u(2)] F v(4) by (simp add: outbox_def)
  moreover have "registry_inv en ?p1" using b(3) by (simp add: registry_inv_def N v)
  ultimately show ?thesis using run votes v F N links' by (intro exI [of _ ?p1]) simp
qed

lemma ordering_run:
  assumes "booth_reachable en c p boo" "getBoothID ky en c fuel p = Done bid s1" "boo = booMgr_b s1 ! nat bid" "es \<noteq> []"
    and "booth_keys ky coeffs n boo (ServerID c) (files s1)" "quorum coeffs n vs" "ServerID c < n"
    and "\<forall>v \<in> set vs. member_ready en cv st (files s1) (ServerID c) (logIndex p) v"
    and "m = made_entry en c boo (logIndex p) es" "f = block_of en es boo"
  shows "\<exists>p1 sig st1 sg p' st2.
      makeAndBroadcast ky en c fuel (sh_of es) p = Done (sh_of []) p1
    \<and> outbox p1 = outbox p @ map (\<lambda>v. (Concierge OPA v, OPAEntry m)) (members_to_send c p OPA (Indices boo))
    \<and> (\<forall>v \<in> set vs. validatingOAEntry ky en (cv v) m (Some d) (st v) = Done () (st1 v)
        \<and> outbox (st1 v) = outbox (st v) @ [(d, OPAReply (opa_reply (ServerID c) (logIndex p) (sig v)))])
    \<and> forG vs (\<lambda>v. asyncHandleOBReply ky en c (opa_reply (ServerID c) (logIndex p) (sig v)) v) p1 = Done () p'
    \<and> blockIDs (vgrec p') = blockIDs (vgrec p) @ [logIndex p] \<and> nget (cmtSnapshot p') (ServerID c) (logIndex p) = Some (f\<lparr>tSig := sg\<rparr>)
    \<and> PenVerify ky (hash f) sg (key_pub ky coeffs)
    \<and> outbox p' = outbox p1 @ map (\<lambda>v. (Concierge OPB v, OPBEntry (order_entry (opa_reply (ServerID c) (logIndex p) []) f sg)))
        (members_to_send c p OPB (Indices boo))
    \<and> (\<forall>v \<in> set vs. validatingOBEntry ky (cv v) (order_entry (opa_reply (ServerID c) (logIndex p) []) f sg) enc (st1 v) = Done () (st2 v)
        \<and> certified_member (ServerID c) (logIndex p) ((OA_snapshot m)\<lparr>tSig := sg\<rparr>) (st v) (st2 v))
    \<and> order_frame p1 p' \<and> \<not> broadcastError p' \<and> registry_inv en p1 \<and> concierge p1 = concierge p \<and> vgrec p1 = vgrec p
    \<and> vgTxMeta_sigs p1 = vgTxMeta_sigs p \<and> files p1 = files s1 \<and> ID boo < int (length (booMgr_b p1))
    \<and> booMgr_b p1 = booMgr_b s1 \<and> booMgr_index p1 = booMgr_index s1 \<and> participantVehicleTimeData p1 = participantVehicleTimeData p
    \<and> same_links p p1"
proof -
  obtain p1 where p1: "makeAndBroadcast ky en c fuel (sh_of es) p = Done (sh_of []) p1" "awaits_votes en c p1 (logIndex p) f" "files p1 = files s1"
      "vgrec p1 = vgrec p" "concierge p1 = concierge p" "registry_inv en p1" "vgTxMeta_sigs p1 = vgTxMeta_sigs p"
      "booMgr_b p1 = booMgr_b s1" "booMgr_index p1 = booMgr_index s1" "participantVehicleTimeData p1 = participantVehicleTimeData p"
      "same_links p p1" "outbox p1 = outbox p @ map (\<lambda>v. (Concierge OPA v, OPAEntry m)) (members_to_send c p OPA (Indices boo))"
    using made_block [OF assms(1-4)] unfolding assms(9,10) by blast
  have bf: "booth f = boo" by (simp add: assms(10) block_of_def snapshot_of_def)
  have entry: "opa_Booth m = booth f" "opa_BlockchainId m = ServerID c" "opa_BlockId m = logIndex p" "opa_Hash m = hash f"
    unfolding bf by (simp_all add: assms(9,10) made_entry_def block_of_def snapshot_of_def)
  have to: "members_to_send c p1 OPB (Indices boo) = members_to_send c p OPB (Indices boo)" by (simp add: members_to_send_def p1(5))
  have e: "\<forall>k. \<not> encErr en k" "ID boo < int (length (booMgr_b p1))"
    using assms(1) p1(2) bf by (simp_all add: booth_reachable_def awaits_votes_def)
  show ?thesis
    using round_from_block [OF assms(5) [folded bf] assms(6,7) p1(3,2) assms(8) entry, of d enc] p1(1,12) e
    unfolding p1(4) to bf using p1(3-11) by blast
qed

text \<open>C2: An ordering instance from the proposer's buffer to the certificate at the members. A proposer that
  can reach the booth it chose makes one block of its buffered entries, under its log index, and
  sends the entry of this block to the connected members. When the keys of the booth were made by
  one run of the generator, every member of a quorum that has not seen the block answers the entry
  with one signature; the proposer, handling these replies in any order, combines them to a
  signature of the block that verifies, records the block as ordered, stores the signature and sends
  it, with the hash of the block, to the connected members; and every member of the quorum that gets
  this certificate attaches it to the block it stored.\<close>

theorem ordering_round:
  assumes "booth_reachable en c p boo" "getBoothID ky en c fuel p = Done bid s1" "boo = booMgr_b s1 ! nat bid" "es \<noteq> []"
    and "booth_keys ky coeffs n boo (ServerID c) (files s1)" "quorum coeffs n vs" "ServerID c < n"
    and "\<forall>v \<in> set vs. member_ready en cv st (files s1) (ServerID c) (logIndex p) v"
    and "m = made_entry en c boo (logIndex p) es" "f = block_of en es boo"
  shows "\<exists>p1 sig st1 sg p' st2.
      makeAndBroadcast ky en c fuel (sh_of es) p = Done (sh_of []) p1
    \<and> outbox p1 = outbox p @ map (\<lambda>v. (Concierge OPA v, OPAEntry m)) (members_to_send c p OPA (Indices boo))
    \<and> (\<forall>v \<in> set vs. validatingOAEntry ky en (cv v) m (Some d) (st v) = Done () (st1 v)
        \<and> outbox (st1 v) = outbox (st v) @ [(d, OPAReply (opa_reply (ServerID c) (logIndex p) (sig v)))])
    \<and> forG vs (\<lambda>v. asyncHandleOBReply ky en c (opa_reply (ServerID c) (logIndex p) (sig v)) v) p1 = Done () p'
    \<and> blockIDs (vgrec p') = blockIDs (vgrec p) @ [logIndex p] \<and> nget (cmtSnapshot p') (ServerID c) (logIndex p) = Some (f\<lparr>tSig := sg\<rparr>)
    \<and> PenVerify ky (hash f) sg (key_pub ky coeffs)
    \<and> outbox p' = outbox p1 @ map (\<lambda>v. (Concierge OPB v, OPBEntry (order_entry (opa_reply (ServerID c) (logIndex p) []) f sg)))
        (members_to_send c p OPB (Indices boo))
    \<and> (\<forall>v \<in> set vs. validatingOBEntry ky (cv v) (order_entry (opa_reply (ServerID c) (logIndex p) []) f sg) enc (st1 v) = Done () (st2 v)
        \<and> nget (cmtSnapshot (st2 v)) (ServerID c) (logIndex p) = Some ((OA_snapshot m)\<lparr>tSig := sg\<rparr>))"
  using ordering_run [OF assms, of d enc] certified_member_block by blast

section \<open>Witnesses\<close>

definition round_cfg :: "int \<Rightarrow> cfg" where
  "round_cfg v = demo_cfg\<lparr>ServerID := v, EvaluateComPossibilityFlag := True\<rparr>"

lemma demo_recovers: "tbls_recovers demo_kyber [a, b] 14"
proof -
  have "\<exists>sg. tblsRecover demo_kyber pub m sgs 2 k = Some sg \<and> blsVerify demo_kyber pub m sg"
    if D: "distinct (map I shs)" and S: "set shs \<subseteq> set (evalShares demo_kyber [a, b] 14)" and L: "length shs = 2"
      and M: "map Some sgs = map (\<lambda>sh. tblsSign demo_kyber sh m) shs" for shs m sgs k pub
  proof -
    obtain x y where xy: "shs = [x, y]" using L by (auto simp: numeral_2_eq_2 length_Suc_conv)
    obtain i j where ij: "x = \<lparr>I = int i, V = of_nat i\<rparr>" "y = \<lparr>I = int j, V = of_nat j\<rparr>" "i < 14" "j < 14"
      using S unfolding xy by (auto simp: demo_kyber_def)
    have "i \<noteq> j" using D by (simp add: xy ij)
    moreover have "unat (of_nat i :: byte) = i" "unat (of_nat j :: byte) = j" using ij by (simp_all add: unat_of_nat)
    ultimately have ne: "(of_nat i :: byte) \<noteq> of_nat j" by metis
    have "map Some sgs = [Some (of_nat i # m), Some (of_nat j # m)]" using M by (simp add: xy ij demo_kyber_def)
    then have "sgs = [of_nat i # m, of_nat j # m]" by auto
    then show ?thesis using ne by (simp add: demo_kyber_def)
  qed
  moreover have "tblsSign demo_kyber sh m \<noteq> None" for sh m by (simp add: demo_kyber_def)
  ultimately show ?thesis by (simp add: tbls_recovers_def)
qed

lemma round_keys: "\<exists>fs. booth_keys demo_kyber [7, 9] 14 vali_booth 10 fs"
proof -
  obtain fs where "generator_main demo_kyber [7, 9] 14 3 10 Map.empty = Inr fs"
    using generator_main_total [OF demo_kyber_encodes] by (metis list.distinct(1))
  then show ?thesis
    by (intro exI [of _ fs]) (auto intro!: generated_booth_keys simp: demo_kyber_encodes demo_recovers vali_booth_def)
qed

text \<open>A proposer that must set up a booth of the vehicles 11, 12 and 13 for its first block, and members that hear it, with
  the check of the paths on, as it is by default.\<close>

definition fresh_member :: "(string \<rightharpoonup> string) \<Rightarrow> int \<Rightarrow> node" where
  "fresh_member fs v = init_node\<lparr>files := fs, blockchainInfo := [10 \<mapsto> (\<lambda>_. Some 10)], valToProComTimeMap := [v \<mapsto> [''100.00'' \<mapsto> [10]]]\<rparr>"

lemma fresh_member_answers: "answers demo_env (round_cfg v) (fresh_member fs v) 10 ph"
  by (simp add: answers_def fresh_member_def round_cfg_def demo_cfg_def demo_env_def hears_def key_at_def nget_def)

definition fresh_cfg :: cfg where
  "fresh_cfg = demo_cfg\<lparr>NumOfConn := 14, EvaluateComPossibilityFlag := True\<rparr>"

definition fresh_node :: node where
  "fresh_node = init_node\<lparr>participantVehicleTimeData := [''100.00'' \<mapsto> [11, 12, 13]], logIndex := 0,
     proToValComTimeMap := [10 \<mapsto> [''100.00'' \<mapsto> [9, 11, 12, 13]]],
     concierge := (\<lambda>_. replicate 14 (Some \<lparr>SID = 0, remote = []\<rparr>))\<rparr>"

definition fresh_booth :: Booth where
  "fresh_booth = \<lparr>ID = 0, Indices = [10, 11, 12, 13]\<rparr>"

definition fresh_entry :: Entry where
  "fresh_entry = \<lparr>TimeStamp = 5, Tx = [1, 2, 3]\<rparr>"

lemma fresh_booth_made:
  assumes "participantVehicleTimeData s = [''100.00'' \<mapsto> [11, 12, 13]]" "booMgr_b s = []" "booMgr_index s = Map.empty"
  shows "\<exists>s1. getBoothID demo_kyber demo_env fresh_cfg 1 s = Done 0 s1 \<and> booMgr_b s1 = [fresh_booth]
    \<and> booMgr_index s1 = [generateBoothHash demo_env [10, 11, 12, 13] \<mapsto> 0] \<and> booth_keys demo_kyber [0, 0] 14 fresh_booth 10 (files s1)"
proof -
  obtain fs where fs: "generator_main demo_kyber [0, 0] 14 0 10 (files s) = Inr fs"
    using generator_main_total [OF demo_kyber_encodes] by (metis list.distinct(1))
  have pat: "participants_at demo_env s (clock_reads s) = [11, 12, 13]"
    using assms by (simp add: participants_at_def demo_env_def)
  have poly: "newPriPoly demo_kyber 0 (go_div 4 3 * 2) = [0, 0]" by (simp add: demo_kyber_def go_div_def numeral_2_eq_2)
  have "getBoothID demo_kyber demo_env fresh_cfg 1 s = Done 0 ((look s)\<lparr>booMgr_b := [fresh_booth],
      booMgr_index := [generateBoothHash demo_env [10, 11, 12, 13] \<mapsto> 0], files := fs\<rparr>)"
    using fs assms(2,3) unfolding One_nat_def getBoothID_step pat
    by (simp add: checkExactMatchInBooMgr_def generateBoothKey_def Let_def look_def fresh_booth_def fresh_cfg_def demo_cfg_def poly
        del: getBoothID.simps)
  moreover have "booth_keys demo_kyber [0, 0] 14 fresh_booth 10 fs"
    using fs by (auto intro!: generated_booth_keys simp: demo_kyber_encodes demo_recovers fresh_booth_def)
  ultimately show ?thesis by (intro exI conjI) (assumption, simp_all)
qed

lemma fresh_audible:
  assumes "same_links fresh_node s" "set is \<subseteq> {9, 10, 11, 12, 13}"
  shows "audible demo_env fresh_cfg s is"
  using assms(2) unfolding audible_links [OF assms(1)]
  by (auto simp: audible_def all_heard_def heard_by_def nget_def fresh_node_def fresh_cfg_def demo_cfg_def demo_env_def key_at_def)

lemma fresh_reachable:
  assumes "booMgr_b s = []" "booMgr_index s = Map.empty" "\<not> broadcastError s" "concierge s = concierge fresh_node" "same_links fresh_node s"
  shows "booth_reachable demo_env fresh_cfg s fresh_booth"
  using assms fresh_audible [OF assms(5), of "Indices fresh_booth"]
  by (simp add: booth_reachable_def registry_inv_def fresh_node_def demo_env_def fresh_cfg_def demo_cfg_def members_in_range_def fresh_booth_def)

lemma fresh_quorum: "quorum [0 :: byte, 0] 14 [11, 13]"
  by (simp add: quorum_def)

lemma fresh_fields:
  "participantVehicleTimeData fresh_node = [''100.00'' \<mapsto> [11, 12, 13]]" "booMgr_b fresh_node = []" "booMgr_index fresh_node = Map.empty"
  "\<not> broadcastError fresh_node" "logIndex fresh_node = 0" "blockIDs (vgrec fresh_node) = []" "sent fresh_node = []" "vgTxMeta_sigs fresh_node = Map.empty"
  "ServerID fresh_cfg = 10"
  by (simp_all add: fresh_node_def init_node_def fresh_cfg_def demo_cfg_def)

lemma fresh_members: "concierge s = concierge fresh_node \<Longrightarrow> members_to_send fresh_cfg s ph (Indices fresh_booth) = [11, 12, 13]"
  by (simp add: members_to_send_def fresh_node_def fresh_booth_def fresh_cfg_def demo_cfg_def)

theorem ordering_round_witness:
  "\<exists>fs p1 sig sg p'. makeAndBroadcast demo_kyber demo_env fresh_cfg 1 (sh_of [fresh_entry]) fresh_node = Done (sh_of []) p1
    \<and> outbox p1 = map (\<lambda>v. (Concierge OPA v, OPAEntry (made_entry demo_env fresh_cfg fresh_booth 0 [fresh_entry]))) [11, 12, 13]
    \<and> forG [11, 13] (\<lambda>v. asyncHandleOBReply demo_kyber demo_env fresh_cfg (opa_reply 10 0 (sig v)) v) p1 = Done () p'
    \<and> blockIDs (vgrec p') = [0] \<and> booth_keys demo_kyber [0, 0] 14 fresh_booth 10 fs
    \<and> outbox p' = outbox p1 @ map (\<lambda>v. (Concierge OPB v, OPBEntry (order_entry (opa_reply 10 0 []) (block_of demo_env [fresh_entry] fresh_booth) sg))) [11, 12, 13]"
proof -
  obtain s1 where s1: "getBoothID demo_kyber demo_env fresh_cfg 1 fresh_node = Done 0 s1" "booMgr_b s1 = [fresh_booth]"
    and k: "booth_keys demo_kyber [0, 0] 14 fresh_booth 10 (files s1)" using fresh_booth_made [OF fresh_fields(1-3)] by blast
  have keys: "booth_keys demo_kyber [0, 0] 14 fresh_booth (ServerID fresh_cfg) (files s1)" "ServerID fresh_cfg < 14" using k by (simp_all add: fresh_fields)
  have boo: "fresh_booth = booMgr_b s1 ! nat 0" by (simp add: s1(2))
  have ready: "\<forall>v \<in> set [11, 13]. member_ready demo_env round_cfg (fresh_member (files s1)) (files s1) (ServerID fresh_cfg) (logIndex fresh_node) v"
    using fresh_member_answers [of _ "files s1" OPA]
    by (simp add: member_ready_def fresh_fields) (simp add: fresh_member_def round_cfg_def demo_cfg_def init_node_def)
  have out: "outbox fresh_node = []" by (simp add: outbox_def fresh_fields)
  show ?thesis
    using ordering_round [OF fresh_reachable [OF fresh_fields(2-4) refl same_links_refl] s1(1) boo _ keys(1) fresh_quorum keys(2) ready refl refl,
        of "[fresh_entry]" "Dialog OPA 10" None] k
    unfolding fresh_members [OF refl] out fresh_fields append_Nil by blast
qed

end
