(* ===== verification/Agreement.thy ===== *)
theory Agreement
  imports Rounds
begin

text \<open>
  What follows from a validator answering every block id once: over the whole run of a validator no second vote, and no two quorums of a
  booth that vote for different blocks under one id, as long as at most \<open>(n - 1) div 3\<close> members are faulty, the proposer among them.
\<close>

section \<open>A validator's run\<close>

text \<open>The activities of a process that runs as a validator.\<close>

definition as_validator :: "activity \<Rightarrow> bool" where
  "as_validator a \<longleftrightarrow> (case a of Initialise conf \<Rightarrow> True | Run_Validator nw \<Rightarrow> True
     | Goroutine j \<Rightarrow> (case j of Async_OBReply m sid \<Rightarrow> False | Async_CPAReply m sid \<Rightarrow> False | _ \<Rightarrow> True) | _ \<Rightarrow> False)"

inductive validator_step :: "('sc, 'pt, 'pub) kyber \<Rightarrow> env \<Rightarrow> cfg \<Rightarrow> ((int64 \<times> int64) list \<Rightarrow> (int64 \<times> int64) list) \<Rightarrow> nat \<Rightarrow> node \<Rightarrow> node \<Rightarrow> bool"
  for ky en c visit fuel where
  act: "as_validator a \<Longrightarrow> run_activity ky en c visit fuel a s = r \<Longrightarrow> validator_step ky en c visit fuel s (final r)"

inductive_cases validator_stepE: "validator_step ky en c visit fuel s t"

text \<open>The votes for one block among the messages a process has sent.\<close>

definition is_vote :: "int \<Rightarrow> int64 \<Rightarrow> transmission \<Rightarrow> bool" where
  "is_vote b i t \<longleftrightarrow> (\<exists>x. body t = OPAReply (opa_reply b i x))"

definition votes_sent :: "int \<Rightarrow> int64 \<Rightarrow> node \<Rightarrow> transmission list" where
  "votes_sent b i s = filter (is_vote b i) (sent s)"

definition one_vote :: "int \<Rightarrow> int64 \<Rightarrow> node \<Rightarrow> bool" where
  "one_vote b i s \<longleftrightarrow> length (votes_sent b i s) \<le> 1 \<and> (votes_sent b i s \<noteq> [] \<longrightarrow> nget (ordSnapshot s) b i \<noteq> None)"

named_theorems vote_pres "operations of a validator keep the votes"

lemma votes_sent_frame: "sent t = sent s \<Longrightarrow> votes_sent b i t = votes_sent b i s"
  by (simp add: votes_sent_def)

lemma one_vote_update [simp]:
  "one_vote b i (s\<lparr>clock_reads := v1\<rparr>) = one_vote b i s" "one_vote b i (s\<lparr>cmtSnapshot := v2\<rparr>) = one_vote b i s"
  "one_vote b i (s\<lparr>valiOrdJobStack := v3\<rparr>) = one_vote b i s" "one_vote b i (s\<lparr>valiConsJobStack := v4\<rparr>) = one_vote b i s"
  "one_vote b i (s\<lparr>vgTxMeta_hash := v5\<rparr>) = one_vote b i s" "one_vote b i (s\<lparr>vgTxData_tx := v6\<rparr>) = one_vote b i s"
  "one_vote b i (s\<lparr>vgTxData_boo := v7\<rparr>) = one_vote b i s" "one_vote b i (s\<lparr>simulationStartTime := v8\<rparr>) = one_vote b i s"
  "one_vote b i (s\<lparr>concierge := v9\<rparr>) = one_vote b i s" "one_vote b i (s\<lparr>dialogMgr := v10\<rparr>) = one_vote b i s"
  "one_vote b i (s\<lparr>blockchainInfo := v11\<rparr>) = one_vote b i s" "one_vote b i (s\<lparr>serverIdLookup := v12\<rparr>) = one_vote b i s"
  "one_vote b i (s\<lparr>ServerList := v13\<rparr>) = one_vote b i s" "one_vote b i (s\<lparr>metre_startTime := v14\<rparr>) = one_vote b i s"
  "one_vote b i (s\<lparr>metre_orderTime := v15\<rparr>) = one_vote b i s" "one_vote b i (s\<lparr>vgInst := v16\<rparr>) = one_vote b i s"
  "one_vote b i (s\<lparr>proposerLookup := v17\<rparr>) = one_vote b i s" "one_vote b i (s\<lparr>valToProComTimeMap := v18\<rparr>) = one_vote b i s"
  by (simp_all add: one_vote_def votes_sent_def)

section \<open>Sends\<close>

text \<open>A reply is sent at most once, and nothing else changes but the clock.\<close>

definition sends_one :: "msg \<Rightarrow> node \<Rightarrow> node \<Rightarrow> bool" where
  "sends_one m s t \<longleftrightarrow> ordSnapshot t = ordSnapshot s \<and> (sent t = sent s \<or> (\<exists>tr. body tr = m \<and> sent t = sent s @ [tr]))"

lemma dialSendBack_sends: "sends_one m s (final (dialSendBack en m e s))"
  by (cases e) (simp_all add: dialSendBack_def sends_one_def)

lemma reply_to_sends: "sends_one m s (final (reply_to en c m e b ph ph' s))"
proof (cases "EvaluateComPossibilityFlag c")
  case True
  let ?p = "case nget (blockchainInfo s) b ph of None \<Rightarrow> 0 | Some i \<Rightarrow> i" and ?s = "s\<lparr>clock_reads := Suc (clock_reads s)\<rparr>"
  obtain d where d: "checkComPathToProposer en c ?p s = Done d ?s" using talks_to_run [of en c ?p s] by blast
  have "reply_to en c m e b ph ph' s = (if fst d then if snd d = - 1 then ret ()
      else bindG (dialog_encoder ph' (snd d)) (dialSendBack en m) else dialSendBack en m e) ?s"
    using True d by (simp add: reply_to_def proposer_of_def dialSendBackWithComCheck_def split_beta)
  moreover have "sends_one m ?s (final (bindG (dialog_encoder ph' k) (dialSendBack en m) ?s))" for k
    using dialSendBack_sends [of m ?s en "map_option (\<lambda>_. Dialog ph' k) (dialogMgr ?s ph' k)"] by (simp add: dialog_encoder_def)
  moreover have "sends_one m ?s (final (dialSendBack en m e ?s))" by (rule dialSendBack_sends)
  ultimately have "sends_one m ?s (final (reply_to en c m e b ph ph' s))" by (auto simp: sends_one_def)
  then show ?thesis by (simp add: sends_one_def)
next
  case False
  then show ?thesis using dialSendBack_sends by (simp add: reply_to_def)
qed

lemma one_vote_other: "sends_one m s t \<Longrightarrow> \<forall>r. m \<noteq> OPAReply r \<Longrightarrow> one_vote b i s \<Longrightarrow> one_vote b i t"
  unfolding sends_one_def one_vote_def votes_sent_def is_vote_def by auto

lemma pres_vote_reply_CPA [vote_pres]: "pres (one_vote b i) (reply_to en c (CPAReply r) e b' ph ph')"
  by (rule presI) (rule one_vote_other [OF reply_to_sends], simp_all)

section \<open>The handlers\<close>

lemma pres_vote_jobs [vote_pres]:
  "pres (one_vote b i) (ord_job b' j)" "pres (one_vote b i) (ord_job_send b' j)" "pres (one_vote b i) (ord_job_receive b' j)"
  "pres (one_vote b i) (cons_job b' k)" "pres (one_vote b i) (cons_job_send b' k)" "pres (one_vote b i) (cons_job_receive b' k)"
  "pres (one_vote b i) (nowG en)"
  unfolding ord_job_def ord_job_send_def ord_job_receive_def cons_job_def cons_job_send_def cons_job_receive_def
  by (intro pres_intros pres_nowG; simp)+

lemma pres_vote_OB [vote_pres]: "pres (one_vote b i) (validatingOBEntry ky c m e)"
  unfolding validatingOBEntry_def OB_attach_def split_beta
  by (intro pres_intros vote_pres pres_fetchKeysByBoothId) simp_all

lemma pres_vote_CA [vote_pres]: "pres (one_vote b i) (validatingCAEntry ky en c m e)"
  unfolding validatingCAEntry_def CA_sign_def CA_block_def append_tx_def split_beta
  by (intro pres_intros vote_pres pres_fetchKeysByBoothId) simp_all

lemma pres_vote_CB [vote_pres]: "pres (one_vote b i) (validatingCBEntry ky c m)"
  unfolding validatingCBEntry_def split_beta
  by (intro pres_intros vote_pres pres_fetchKeysByBoothId)

text \<open>No vote yet, or none for this block.\<close>

definition unvoted :: "int \<Rightarrow> int64 \<Rightarrow> node \<Rightarrow> bool" where
  "unvoted b i s \<longleftrightarrow> votes_sent b i s = [] \<and> nget (ordSnapshot s) b i \<noteq> None"

lemma unvoted_update [simp]:
  "unvoted b i (s\<lparr>cmtSnapshot := v2\<rparr>) = unvoted b i s" "unvoted b i (s\<lparr>valiOrdJobStack := v3\<rparr>) = unvoted b i s"
  by (simp_all add: unvoted_def votes_sent_def)

lemma pres_unvoted_store: "pres (unvoted b i) (OA_store m)"
  unfolding OA_store_def ord_job_def ord_job_send_def by (intro pres_intros) simp_all

lemma OA_sign_sends:
  "\<exists>x. sends_one (OPAReply (opa_reply (opa_BlockchainId m) (opa_BlockId m) x)) s (final (OA_sign ky en c m e s))"
proof (cases rule: fetchKeysByBoothId_cases [of ky "getThreshold (int (length (Indices (opa_Booth m))))" "ServerID c" "ID (opa_Booth m)" "opa_BlockchainId m" s])
  case (keys pub pri)
  show ?thesis
  proof (cases "PenSign ky (opa_Hash m) pri")
    case None
    then have "OA_sign ky en c m e s = Done () s" using keys by (simp add: OA_sign_def)
    then show ?thesis by (simp add: sends_one_def)
  next
    case (Some x)
    then have "OA_sign ky en c m e s = reply_to en c (OPAReply (opa_reply (opa_BlockchainId m) (opa_BlockId m) x))
        e (opa_BlockchainId m) OPA OPB s" using keys by (simp add: OA_sign_def opa_reply_def)
    then show ?thesis using reply_to_sends by metis
  qed
next
  case (panic p)
  then have "OA_sign ky en c m e s = Panicked p s" by (simp add: OA_sign_def)
  then show ?thesis by (simp add: sends_one_def)
qed

lemma opa_reply_eq [simp]: "opa_reply b i x = opa_reply b' i' y \<longleftrightarrow> b = b' \<and> i = i' \<and> x = y"
  by (simp add: opa_reply_def)

lemma one_vote_first: "unvoted b i s \<Longrightarrow> sends_one m s t \<Longrightarrow> one_vote b i t"
  unfolding sends_one_def one_vote_def votes_sent_def unvoted_def by auto

lemma unvoted_one_vote: "unvoted b i s \<Longrightarrow> one_vote b i s"
  by (simp add: unvoted_def one_vote_def)

lemma pres_vote_OA [vote_pres]: "pres (one_vote b i) (validatingOAEntry ky en c m e)"
proof (rule presI)
  fix s assume s: "one_vote b i s"
  let ?b = "opa_BlockchainId m" and ?i = "opa_BlockId m"
  let ?s1 = "s\<lparr>ordSnapshot := nset (ordSnapshot s) ?b ?i (OA_snapshot m)\<rparr>"
  show "one_vote b i (final (validatingOAEntry ky en c m e s))"
  proof (cases "nget (ordSnapshot s) ?b ?i")
    case (Some f)
    then show ?thesis using s by (simp add: OA_again)
  next
    case None
    have run: "validatingOAEntry ky en c m e s = thenG (OA_store m) (OA_sign ky en c m e) ?s1"
      using None by (simp add: validatingOAEntry_def OA_register_def)
    have x: "\<exists>x. sends_one (OPAReply (opa_reply ?b ?i x)) u (final (OA_sign ky en c m e u))" for u by (rule OA_sign_sends)
    show ?thesis
    proof (cases "b = ?b \<and> i = ?i")
      case True
      then have "unvoted b i ?s1" using s None by (simp add: one_vote_def unvoted_def votes_sent_def)
      then have u: "unvoted b i (final (OA_store m ?s1))" by (rule presD [OF pres_unvoted_store])
      show ?thesis unfolding run
      proof (cases "OA_store m ?s1")
        case (Done r u1)
        then show "one_vote b i (final (thenG (OA_store m) (OA_sign ky en c m e) ?s1))" using u x [of u1] one_vote_first by auto
      qed (use u unvoted_one_vote in auto)
    next
      case False
      have C: "one_vote b i ?s1" using s False by (auto simp: one_vote_def votes_sent_def nget_nset)
      have A: "pres (one_vote b i) (OA_store m)"
        unfolding OA_store_def by (intro pres_intros vote_pres) simp_all
      have B: "pres (one_vote b i) (OA_sign ky en c m e)"
      proof (rule presI)
        fix u assume u: "one_vote b i u"
        obtain y where "sends_one (OPAReply (opa_reply ?b ?i y)) u (final (OA_sign ky en c m e u))" using x by blast
        then show "one_vote b i (final (OA_sign ky en c m e u))"
          using u False unfolding sends_one_def one_vote_def votes_sent_def is_vote_def by auto
      qed
      show ?thesis unfolding run by (rule presD [OF pres_thenG [OF A B] C])
    qed
  qed
qed

section \<open>Start-up\<close>

lemma pres_vote_parse: "pres (one_vote b i) (parse_server rows base js sl)"
proof (induction rows base js sl rule: parse_server.induct)
  case (2 rows base j js sl)
  show ?case unfolding parse_server.simps first_row_def other_columns_def idxL_def Let_def
    by (intro pres_intros 2) simp_all
qed (simp only: parse_server.simps pres_intros)

lemma pres_vote_start [vote_pres]:
  "pres (one_vote b i) (parseConf c conf n)" "pres (one_vote b i) (initConns n)" "pres (one_vote b i) metre_init" "pres (one_vote b i) (program_main c)"
  "pres (one_vote b i) (registerDialConn nw c p ph)" "pres (one_vote b i) (lookup_at ph k)"
  unfolding parseConf_def initConns_def metre_init_def program_main_def takingInitRoles_def registerDialConn_def establishDialConn_def
    server_addr_def lookup_at_def Let_def split_beta
  by (auto intro!: pres_intros pres_vote_parse split: option.split)

lemma pres_vote_map [vote_pres]: "pres (one_vote b i) (fetchValToProComTimeMap e ps)"
  by (induction ps) (auto intro!: pres_intros split: option.split)

lemma pres_vote_validator [vote_pres]: "pres (one_vote b i) (runAsValidator nw e c)"
  unfolding runAsValidator_def receivers_at_def register_all_def by (intro pres_intros vote_pres pres_mapG)

lemma pres_vote_activity:
  assumes "as_validator a"
  shows "pres (one_vote b i) (run_activity ky en c visit fuel a)"
proof (cases a)
  case (Goroutine j)
  then show ?thesis using assms
    by (cases j) (auto simp: run_activity_def run_job_def as_validator_def syncSimulationStartTIme_def intro!: pres_intros vote_pres)
qed (use assms in \<open>auto simp: run_activity_def as_validator_def intro!: pres_intros vote_pres\<close>)

lemma validator_steps_one_vote:
  assumes "(validator_step ky en c visit fuel)\<^sup>*\<^sup>* s t" "one_vote b i s"
  shows "one_vote b i t"
  using assms
  by (induction rule: rtranclp_induct) (auto elim!: validator_stepE intro: presD [OF pres_vote_activity])

lemma one_vote_start: "one_vote b i (init_node\<lparr>files := fs\<rparr>)"
  by (simp add: one_vote_def votes_sent_def init_node_def)

section \<open>One vote per block\<close>

text \<open>C9: In its whole run, from the very start, a validator sends at most one vote for a block id of a chain, whatever entries it gets
  for it, in whatever order, and whatever else it handles in between.\<close>

theorem one_vote_per_block:
  assumes "(validator_step ky en c visit fuel)\<^sup>*\<^sup>* (init_node\<lparr>files := fs\<rparr>) t"
  shows "length (filter (\<lambda>tr. \<exists>x. body tr = OPAReply (opa_reply b i x)) (sent t)) \<le> 1"
  using validator_steps_one_vote [OF assms one_vote_start, of b i] by (simp add: one_vote_def votes_sent_def is_vote_def [abs_def])

section \<open>Two quorums agree\<close>

text \<open>
  The vote of a correct member for the digest \<open>h\<close> of block \<open>i\<close> of chain \<open>b\<close>, in a run from the start that leads to \<open>t\<close>: at some
  point it handled an ordering entry with this chain, this id and this digest, and replied with its share's signature of the digest.
\<close>

definition signed_entry :: "('sc, 'pt, 'pub) kyber \<Rightarrow> env \<Rightarrow> cfg \<Rightarrow> ((int64 \<times> int64) list \<Rightarrow> (int64 \<times> int64) list) \<Rightarrow> nat \<Rightarrow> 'sc list \<Rightarrow> int
    \<Rightarrow> (string \<Rightarrow> string option) \<Rightarrow> int \<Rightarrow> int64 \<Rightarrow> bytes \<Rightarrow> node \<Rightarrow> bool" where
  "signed_entry ky en c visit fuel coeffs n fs b i h t \<longleftrightarrow> (\<exists>m e s tr.
     (validator_step ky en c visit fuel)\<^sup>*\<^sup>* (init_node\<lparr>files := fs\<rparr>) s
     \<and> opa_BlockchainId m = b \<and> opa_BlockId m = i \<and> opa_Hash m = h
     \<and> sent (final (validatingOAEntry ky en c m e s)) = sent s @ [tr]
     \<and> body tr = OPAReply (opa_reply b i (share_sig ky coeffs n h (ServerID c)))
     \<and> (validator_step ky en c visit fuel)\<^sup>*\<^sup>* (final (validatingOAEntry ky en c m e s)) t)"

lemma validator_process_steps:
  assumes "(validator_step ky en c visit fuel)\<^sup>*\<^sup>* s t"
  shows "(process_step ky en c visit fuel)\<^sup>*\<^sup>* s t"
  using assms
  by (induction rule: rtranclp_induct) (auto elim!: validator_stepE intro: rtranclp.rtrancl_into_rtrancl process_step.act)

text \<open>What a validator registered it keeps while it stores and signs.\<close>

definition ordered_as :: "(int, int64, blockSnapshot) nmap \<Rightarrow> node \<Rightarrow> bool" where
  "ordered_as os s \<longleftrightarrow> ordSnapshot s = os"

lemma ordered_as_update [simp]:
  "ordered_as os (s\<lparr>cmtSnapshot := v1\<rparr>) = ordered_as os s" "ordered_as os (s\<lparr>valiOrdJobStack := v2\<rparr>) = ordered_as os s"
  by (simp_all add: ordered_as_def)

lemma OA_registers:
  assumes "nget (ordSnapshot s) (opa_BlockchainId m) (opa_BlockId m) = None"
  shows "nget (ordSnapshot (final (validatingOAEntry ky en c m e s))) (opa_BlockchainId m) (opa_BlockId m) = Some (OA_snapshot m)"
proof -
  let ?s1 = "s\<lparr>ordSnapshot := nset (ordSnapshot s) (opa_BlockchainId m) (opa_BlockId m) (OA_snapshot m)\<rparr>"
  have "validatingOAEntry ky en c m e s = thenG (OA_store m) (OA_sign ky en c m e) ?s1"
    using assms by (simp add: validatingOAEntry_def OA_register_def)
  moreover have "pres (ordered_as (ordSnapshot ?s1)) (OA_store m)"
    unfolding OA_store_def ord_job_def ord_job_send_def by (intro pres_intros) simp_all
  moreover have "pres (ordered_as (ordSnapshot ?s1)) (OA_sign ky en c m e)"
    by (rule presI) (use OA_sign_sends [of m _ ky en c e] in \<open>auto simp: ordered_as_def sends_one_def\<close>)
  ultimately have "ordered_as (ordSnapshot ?s1) (final (validatingOAEntry ky en c m e s))"
    using presD [OF pres_thenG [of "ordered_as (ordSnapshot ?s1)" "OA_store m" "OA_sign ky en c m e"], of ?s1] by (simp add: ordered_as_def)
  then show ?thesis by (simp add: ordered_as_def)
qed

text \<open>A validator holds the block it signed for ever.\<close>

lemma signed_entry_holds:
  assumes "signed_entry ky en c visit fuel coeffs n fs b i h t" "b \<noteq> ServerID c"
  shows "\<exists>f. nget (ordSnapshot t) b i = Some f \<and> hash f = h"
proof -
  obtain m e s tr where start: "(validator_step ky en c visit fuel)\<^sup>*\<^sup>* (init_node\<lparr>files := fs\<rparr>) s"
    and m: "opa_BlockchainId m = b" "opa_BlockId m = i" "opa_Hash m = h"
    and vote: "sent (final (validatingOAEntry ky en c m e s)) = sent s @ [tr]"
    and rest: "(validator_step ky en c visit fuel)\<^sup>*\<^sup>* (final (validatingOAEntry ky en c m e s)) t"
    using assms(1) unfolding signed_entry_def by blast
  have "nget (ordSnapshot s) b i = None"
  proof (rule ccontr)
    assume "nget (ordSnapshot s) b i \<noteq> None"
    then have "validatingOAEntry ky en c m e s = Done () s" using m by (auto intro: OA_again)
    then show False using vote by simp
  qed
  then have f: "nget (ordSnapshot (final (validatingOAEntry ky en c m e s))) b i = Some (OA_snapshot m)"
    using OA_registers [of s m ky en c e] m by simp
  have "process_step ky en c visit fuel s (final (validatingOAEntry ky en c m e s))"
    by (rule process_step.act [where a = "Goroutine (Validate_OA m e)"]) (simp add: run_activity_def run_job_def)
  then have "well_formed en (final (validatingOAEntry ky en c m e s))"
    using process_steps_inv [OF rtranclp.rtrancl_into_rtrancl [OF validator_process_steps [OF start]] init_well_formed]
    by (simp add: process_inv_def)
  then have "keeps_blocks (ordSnapshot (final (validatingOAEntry ky en c m e s)), cmtSnapshot (final (validatingOAEntry ky en c m e s))) (ServerID c) t"
    using process_steps_inv [OF validator_process_steps [OF rest]] by (simp add: process_inv_def)
  then obtain g where "nget (ordSnapshot t) b i = Some g" "same_block (OA_snapshot m) g"
    using f assms(2) unfolding keeps_blocks_def fst_conv by blast
  then show ?thesis using m(3) by (auto simp: same_block_def OA_snapshot_def)
qed

text \<open>The members of a booth, among them the proposer \<open>p\<close>, and the votes of a quorum besides it.\<close>

definition vote_quorum :: "int list \<Rightarrow> int \<Rightarrow> int list \<Rightarrow> bool" where
  "vote_quorum ms p vs \<longleftrightarrow> distinct vs \<and> set vs \<subseteq> set ms - {p} \<and> int (length vs) = getThreshold (int (length ms))"

lemma vote_quorums_meet:
  assumes "distinct ms" "length ms mod 3 \<noteq> 2" "p \<in> set ms" "vote_quorum ms p vs1" "vote_quorum ms p vs2"
    and "finite F" "p \<in> F" "card F \<le> (length ms - 1) div 3"
  shows "\<exists>v. v \<in> set vs1 \<inter> set vs2 - F"
proof -
  let ?n = "length ms" and ?Q1 = "insert p (set vs1)" and ?Q2 = "insert p (set vs2)"
  have "0 < ?n" using assms(3) by (cases ms) auto
  have card: "card (insert p (set vs)) = quorum_size ?n" if "vote_quorum ms p vs" for vs
  proof -
    have "length vs = 2 * (?n div 3)" using that by (simp add: vote_quorum_def)
    moreover have "p \<notin> set vs" "distinct vs" using that by (auto simp: vote_quorum_def)
    ultimately show ?thesis by (simp add: quorum_size_eq distinct_card)
  qed
  have "card ?Q1 + card ?Q2 \<le> card (?Q1 \<inter> ?Q2) + card (set ms)"
    by (rule quorum_overlap) (use assms(3-5) in \<open>auto simp: vote_quorum_def\<close>)
  then have "2 * quorum_size ?n \<le> card (?Q1 \<inter> ?Q2) + ?n"
    using card assms(1,4,5) by (simp add: distinct_card)
  then have "card F < card (?Q1 \<inter> ?Q2)"
    using quorum_size_overlap [OF assms(2) \<open>0 < ?n\<close>] assms(8) by linarith
  then have "\<not> ?Q1 \<inter> ?Q2 \<subseteq> F" using card_mono [OF assms(6), of "?Q1 \<inter> ?Q2"] by linarith
  then show ?thesis using assms(7) by auto
qed

text \<open>Any voting scheme in which two quorums share a correct voter, and a correct voter votes for one value, agrees.\<close>

locale voting =
  fixes quorum :: "'v set \<Rightarrow> bool" and correct :: "'v \<Rightarrow> bool" and vote :: "'v \<Rightarrow> 'h \<Rightarrow> bool"
  assumes meet: "quorum Q \<Longrightarrow> quorum Q' \<Longrightarrow> \<exists>v \<in> Q \<inter> Q'. correct v"
    and once: "correct v \<Longrightarrow> vote v h \<Longrightarrow> vote v h' \<Longrightarrow> h = h'"
begin

lemma agreement:
  assumes "quorum Q" "quorum Q'" "\<And>v. v \<in> Q \<Longrightarrow> correct v \<Longrightarrow> vote v h" "\<And>v. v \<in> Q' \<Longrightarrow> correct v \<Longrightarrow> vote v h'"
  shows "h = h'"
  using meet [OF assms(1,2)] assms(3,4) once by blast

end

text \<open>The quorums of a booth with few faulty members, and the votes of the others in their runs.\<close>

definition booth_quorums :: "int list \<Rightarrow> int \<Rightarrow> int set \<Rightarrow> int set \<Rightarrow> bool" where
  "booth_quorums ms p F Q \<longleftrightarrow> distinct ms \<and> length ms mod 3 \<noteq> 2 \<and> p \<in> set ms \<and> finite F \<and> p \<in> F \<and> card F \<le> (length ms - 1) div 3
     \<and> (\<exists>vs. vote_quorum ms p vs \<and> Q = set vs)"

definition run_vote :: "('sc, 'pt, 'pub) kyber \<Rightarrow> env \<Rightarrow> (int \<Rightarrow> cfg) \<Rightarrow> ((int64 \<times> int64) list \<Rightarrow> (int64 \<times> int64) list) \<Rightarrow> nat \<Rightarrow> 'sc list \<Rightarrow> int
    \<Rightarrow> (int \<Rightarrow> string \<Rightarrow> string option) \<Rightarrow> int \<Rightarrow> int64 \<Rightarrow> (int \<Rightarrow> node) \<Rightarrow> int \<Rightarrow> bytes \<Rightarrow> bool" where
  "run_vote ky en cv visit fuel coeffs n fs p i st v h \<longleftrightarrow>
     ServerID (cv v) \<noteq> p \<and> signed_entry ky en (cv v) visit fuel coeffs n (fs v) p i h (st v)"

interpretation booth: voting "booth_quorums ms p F" "\<lambda>v. v \<notin> F" "run_vote ky en cv visit fuel coeffs n fs p i st"
  for ms p F ky en cv visit fuel coeffs n fs i st
proof
  show "\<exists>v \<in> Q \<inter> Q'. v \<notin> F" if "booth_quorums ms p F Q" "booth_quorums ms p F Q'" for Q Q'
    using that vote_quorums_meet [of ms p _ _ F] unfolding booth_quorums_def by blast
  show "h = h'" if "run_vote ky en cv visit fuel coeffs n fs p i st v h" "run_vote ky en cv visit fuel coeffs n fs p i st v h'" for v h h'
    using that signed_entry_holds unfolding run_vote_def by (metis option.inject)
qed

text \<open>C4: Agreement: two quorums of a booth do not vote for different blocks under one block id of the proposer \<open>p\<close>. This holds when the booth has \<open>n\<close> members,
  \<open>n mod 3\<close> not 2, and at most \<open>(n - 1) div 3\<close> of them are faulty, the proposer among them; every other member \<open>v\<close>, with its own server number, runs the code of a
  validator from the very start, with any messages in any order. The votes of a quorum are those of \<open>getThreshold n\<close> members besides the
  proposer; a correct member's vote for a digest is an ordering entry with this digest that it handled at some point of its run and answered with its signature of the digest.
  Nothing is assumed of the signatures: faulty members may send anything, and a correct one is bound by the digest it signed.\<close>

theorem quorums_agree:
  assumes "distinct (Indices boo)" "length (Indices boo) mod 3 \<noteq> 2" "p \<in> set (Indices boo)"
    and "vote_quorum (Indices boo) p vs1" "vote_quorum (Indices boo) p vs2"
    and "finite F" "p \<in> F" "card F \<le> (length (Indices boo) - 1) div 3"
    and "\<forall>v \<in> set (Indices boo) - F. ServerID (cv v) = v"
    and "\<forall>v \<in> set vs1 - F. signed_entry ky en (cv v) visit fuel coeffs n (fs v) p i h1 (st v)"
    and "\<forall>v \<in> set vs2 - F. signed_entry ky en (cv v) visit fuel coeffs n (fs v) p i h2 (st v)"
  shows "h1 = h2"
proof (rule booth.agreement)
  show "booth_quorums (Indices boo) p F (set vs1)" "booth_quorums (Indices boo) p F (set vs2)"
    using assms(1-8) by (auto simp: booth_quorums_def)
  show "run_vote ky en cv visit fuel coeffs n fs p i st v h1" if "v \<in> set vs1" "v \<notin> F" for v
    using that assms(4,7,9,10) by (auto simp: run_vote_def vote_quorum_def)
  show "run_vote ky en cv visit fuel coeffs n fs p i st v h2" if "v \<in> set vs2" "v \<notin> F" for v
    using that assms(5,7,9,11) by (auto simp: run_vote_def vote_quorum_def)
qed

section \<open>Witnesses\<close>

definition voter_cfg :: "int \<Rightarrow> cfg" where
  "voter_cfg v = demo_cfg\<lparr>ServerID := v\<rparr>"

lemma vote_run:
  "validator_step demo_kyber demo_env (voter_cfg v) visit fuel (init_node\<lparr>files := fs\<rparr>)
     (final (validatingOAEntry demo_kyber demo_env (voter_cfg v) vali_OA (Some (Dialog OPA 10)) (init_node\<lparr>files := fs\<rparr>)))"
  by (rule validator_step.act [where a = "Goroutine (Validate_OA vali_OA (Some (Dialog OPA 10)))"]) (simp_all add: as_validator_def run_activity_def run_job_def)

theorem one_vote_per_block_witness:
  "length (filter (\<lambda>tr. \<exists>x. body tr = OPAReply (opa_reply 10 7 x)) (sent (final (validatingOAEntry demo_kyber demo_env (voter_cfg 12) vali_OA
     (Some (Dialog OPA 10)) (init_node\<lparr>files := Map.empty\<rparr>))))) \<le> 1"
  by (rule one_vote_per_block, rule r_into_rtranclp, rule vote_run [of 12 "\<lambda>m. m" 1])

theorem quorums_agree_witness:
  "\<exists>(fs :: string \<Rightarrow> string option) st. (\<forall>v \<in> {11, 12, 13}. signed_entry demo_kyber demo_env (voter_cfg v) (\<lambda>m. m) 1 [7, 9] 14 fs 10 7 [1, 2] (st v))
     \<and> [1, 2] = ([1, 2] :: bytes)"
proof -
  obtain fs where fs: "booth_keys demo_kyber [7, 9] 14 vali_booth 10 fs" using round_keys by blast
  let ?s = "init_node\<lparr>files := fs\<rparr>"
  let ?st = "\<lambda>v. final (validatingOAEntry demo_kyber demo_env (voter_cfg v) vali_OA (Some (Dialog OPA 10)) ?s)"
  have voted: "signed_entry demo_kyber demo_env (voter_cfg v) (\<lambda>m. m) 1 [7, 9] 14 fs 10 7 [1, 2] (?st v)" if "0 \<le> v" "v < 14" for v
  proof -
    have ids: "opa_Booth vali_OA = vali_booth" "opa_BlockchainId vali_OA = 10" "opa_BlockId vali_OA = 7" "opa_Hash vali_OA = [1, 2]"
      by (simp_all add: vali_OA_def)
    have "member_ready demo_env voter_cfg (\<lambda>_. ?s) fs 10 7 v"
      by (simp add: member_ready_def answers_def voter_cfg_def demo_cfg_def init_node_def)
    from member_replies [of demo_kyber "[7, 9]" 14 vali_OA fs demo_env voter_cfg "\<lambda>_. ?s" v "Dialog OPA 10", unfolded ids, OF fs this that]
    have "\<exists>tr. sent (?st v) = sent ?s @ [tr] \<and> body tr = OPAReply (opa_reply 10 7 (share_sig demo_kyber [7, 9] 14 [1, 2] (ServerID (voter_cfg v))))"
      by (simp add: OA_replied_def replied_def look_def OA_stored_def Let_def opa_reply_def ids voter_cfg_def)
    then show ?thesis unfolding signed_entry_def using ids by blast
  qed
  have eq: "[1, 2] = ([1, 2] :: bytes)"
  proof (rule quorums_agree [of vali_booth 10 "[11, 12]" "[12, 13]" "{10}" voter_cfg demo_kyber demo_env "\<lambda>m. m" 1 "[7, 9]" 14 "\<lambda>_. fs" 7 "[1, 2]" ?st "[1, 2]"])
    show "\<forall>v \<in> set [11, 12] - {10}. signed_entry demo_kyber demo_env (voter_cfg v) (\<lambda>m. m) 1 [7, 9] 14 fs 10 7 [1, 2] (?st v)" by (intro ballI voted) auto
    show "\<forall>v \<in> set [12, 13] - {10}. signed_entry demo_kyber demo_env (voter_cfg v) (\<lambda>m. m) 1 [7, 9] 14 fs 10 7 [1, 2] (?st v)" by (intro ballI voted) auto
  qed (simp_all add: vali_booth_def vote_quorum_def getThreshold_def go_div_def voter_cfg_def)
  have "\<forall>v \<in> {11, 12, 13}. signed_entry demo_kyber demo_env (voter_cfg v) (\<lambda>m. m) 1 [7, 9] 14 fs 10 7 [1, 2] (?st v)"
    by (intro ballI voted) auto
  then show ?thesis using eq by (intro exI [of _ fs] exI [of _ ?st] conjI)
qed

end
