(* ===== verification/Commits.thy ===== *)
theory Commits
  imports Rounds
begin

text \<open>
  A whole commit instance across processes, from the ordered blocks at the proposer to the certificate at the
  validators, with the keys and quorums of Rounds.
\<close>

section \<open>A commit instance\<close>

lemma handle_CPA_below:
  assumes "cpa_open b j h boo s" "Suc (length (cpa_votes b j s)) < booth_quorum boo"
  shows "asyncHandleCPAReply ky en c visit (cpa_reply b j x) sid s
    = Done () ((look s)\<lparr>vgTxMeta_sigs := nset (vgTxMeta_sigs (look s)) b j (cpa_votes b j s @ [x])\<rparr>)"
proof -
  have "cpa_vote en (cpa_reply b j x) s = Done None ((look s)\<lparr>vgTxMeta_sigs := nset (vgTxMeta_sigs (look s)) b j (cpa_votes b j s @ [x])\<rparr>)"
    using assms(2) by (simp add: cpa_vote_run [OF assms(1)] Let_def)
  then show ?thesis unfolding asyncHandleCPAReply_vote by (subst bindG_Done) (assumption, simp)
qed

text \<open>What the votes change.\<close>

definition vote_frame :: "node \<Rightarrow> node \<Rightarrow> bool" where
  "vote_frame s t \<longleftrightarrow> (\<exists>x n. t = s\<lparr>vgTxMeta_sigs := x, clock_reads := n\<rparr>)"

lemma vote_frame_refl [simp]: "vote_frame s s"
  unfolding vote_frame_def by (intro exI [of _ "vgTxMeta_sigs s"] exI [of _ "clock_reads s"]) simp

lemma vote_frame_trans: "vote_frame s t \<Longrightarrow> vote_frame t u \<Longrightarrow> vote_frame s u"
  unfolding vote_frame_def by clarsimp blast

lemma vote_frame_vote: "vote_frame s ((look s)\<lparr>vgTxMeta_sigs := x\<rparr>)"
  unfolding vote_frame_def look_def by (intro exI [of _ x] exI [of _ "Suc (clock_reads s)"]) simp

lemma vote_frame_fields:
  assumes "vote_frame s t"
  shows "files t = files s" "booMgr_b t = booMgr_b s" "concierge t = concierge s" "broadcastError t = broadcastError s" "sent t = sent s"
    "same_links s t"
  using assms unfolding vote_frame_def by (auto simp: same_links_def)

lemma handle_CPAs_below:
  assumes "cpa_open b j h boo s" "length (cpa_votes b j s) + length vs < booth_quorum boo"
  shows "\<exists>t. forG vs (\<lambda>v. asyncHandleCPAReply ky en c visit (cpa_reply b j (sig v)) v) s = Done () t
    \<and> cpa_open b j h boo t \<and> cpa_votes b j t = cpa_votes b j s @ map sig vs \<and> vote_frame s t"
  using assms
proof (induction vs arbitrary: s)
  case (Cons v vs)
  let ?s = "(look s)\<lparr>vgTxMeta_sigs := nset (vgTxMeta_sigs (look s)) b j (cpa_votes b j s @ [sig v])\<rparr>"
  have step: "asyncHandleCPAReply ky en c visit (cpa_reply b j (sig v)) v s = Done () ?s"
    by (rule handle_CPA_below [OF Cons.prems(1)]) (use Cons.prems(2) in simp)
  have op: "cpa_open b j h boo ?s" by (rule cpa_open_write [OF cpa_open_look [OF Cons.prems(1)]])
  have vt: "cpa_votes b j ?s = cpa_votes b j s @ [sig v]" by simp
  have "\<exists>t. forG vs (\<lambda>v. asyncHandleCPAReply ky en c visit (cpa_reply b j (sig v)) v) ?s = Done () t
    \<and> cpa_open b j h boo t \<and> cpa_votes b j t = cpa_votes b j ?s @ map sig vs \<and> vote_frame ?s t"
    by (rule Cons.IH [OF op]) (use Cons.prems(2) in \<open>simp add: vt\<close>)
  then obtain t where t: "forG vs (\<lambda>v. asyncHandleCPAReply ky en c visit (cpa_reply b j (sig v)) v) ?s = Done () t"
    "cpa_open b j h boo t" "cpa_votes b j t = (cpa_votes b j s @ [sig v]) @ map sig vs" "vote_frame ?s t" unfolding vt by blast
  have "vote_frame s t" by (rule vote_frame_trans [OF vote_frame_vote t(4)])
  then show ?case using t step by (intro exI [of _ t]) simp
qed simp

text \<open>A proposer that has stored the digest of commit instance \<open>j\<close> and can broadcast its certificate.\<close>

definition awaits_commits :: "env \<Rightarrow> cfg \<Rightarrow> node \<Rightarrow> int \<Rightarrow> bytes \<Rightarrow> Booth \<Rightarrow> bool" where
  "awaits_commits en c p j h boo \<longleftrightarrow> cpa_open (ServerID c) j h boo p \<and> cpa_votes (ServerID c) j p = []
     \<and> 0 \<le> ID boo \<and> ID boo < int (length (booMgr_b p)) \<and> booMgr_b p ! nat (ID boo) = boo
     \<and> \<not> broadcastError p \<and> members_in_range c p CPB (Indices boo) \<and> audible en c p (Indices boo)"

definition commit_cert :: "cfg \<Rightarrow> int \<Rightarrow> bytes \<Rightarrow> Booth \<Rightarrow> bytes \<Rightarrow> ProposerCPBEntry" where
  "commit_cert c j h boo sg = \<lparr>cpb_Booth = boo, cpb_BlockchainId = ServerID c, cpb_ConsInstID = j, cpb_ComSig = sg, cpb_Hash = h\<rparr>"

lemma cpa_finish_quorum:
  assumes "length l = booth_quorum boo"
    and keys: "\<And>t. files t = files s \<Longrightarrow> fetchKeysByBoothId ky (getThreshold (int (length (Indices boo)))) (ServerID c) (ID boo) (ServerID c) t = Done (pub, pri) t"
    and "PenRecovery ky l h pub (int (length (Indices boo))) = Some sg"
    and boo: "0 \<le> ID boo" "ID boo < int (length (booMgr_b s))" "booMgr_b s ! nat (ID boo) = boo" "\<not> broadcastError s"
      "members_in_range c s CPB (Indices boo)" "audible en c s (Indices boo)"
  shows "\<exists>t. cpa_finish ky en c visit (cpa_reply (ServerID c) j x) \<lparr>cw_sigs = l, cw_hash = h, cw_booth = boo\<rparr> s = Done () t
    \<and> outbox t = outbox s @ map (\<lambda>v. (Concierge CPB v, CPBEntry (commit_cert c j h boo sg))) (members_to_send c s CPB (Indices boo))"
proof -
  let ?s1 = "s\<lparr>clock_reads := Suc (clock_reads s)\<rparr>" and ?s = "s\<lparr>clock_reads := Suc (Suc (Suc (clock_reads s)))\<rparr>"
  let ?e = "CPBEntry (commit_cert c j h boo sg)"
  have links: "same_links s ?s" by (simp add: same_links_def)
  have "\<exists>u. broadcast_booth en c ?e CPB (ID boo) ?s = Done () u
      \<and> log_step en (\<lambda>_. True) (map (\<lambda>i. (Concierge CPB i, ?e)) (members_to_send c ?s CPB (Indices (booMgr_b ?s ! nat (ID boo))))) ?s u"
    by (rule broadcast_booth_sends) (use boo in \<open>simp_all add: members_in_range_def audible_links [OF links]\<close>)
  then obtain u where u: "broadcast_booth en c ?e CPB (ID boo) ?s = Done () u"
      "log_step en (\<lambda>_. True) (map (\<lambda>i. (Concierge CPB i, ?e)) (members_to_send c s CPB (Indices boo))) ?s u"
    using boo(3) by (auto simp: members_to_send_def)
  let ?rest = "thenG (bindG (nowG en) (\<lambda>_. ret ()))
    (if PerfMetres c then bindG (getG (\<lambda>s. rec_GetLastIdx (vgrec s))) (\<lambda>l. bindG (printConsensusLatency en visit l) (\<lambda>_. ret ())) else ret ())"
  obtain t where t: "?rest u = Done () t" "sent t = sent u"
  proof (cases "PerfMetres c")
    case True
    obtain r t where "printConsensusLatency en visit (rec_GetLastIdx (vgrec u)) (u\<lparr>clock_reads := Suc (clock_reads u)\<rparr>) = Done r t" "sent t = sent u"
      using printConsensusLatency_sends [of en visit "rec_GetLastIdx (vgrec u)" "u\<lparr>clock_reads := Suc (clock_reads u)\<rparr>"] by auto
    then show thesis using True that [of t] by simp
  next
    case False
    then show thesis using that [of "u\<lparr>clock_reads := Suc (clock_reads u)\<rparr>"] by simp
  qed
  have k: "fetchKeysByBoothId ky (int (booth_quorum boo)) (ServerID c) (ID boo) (ServerID c) ?s1 = Done (pub, pri) ?s1"
    using keys [of ?s1] unfolding getThreshold_booth by simp
  have "cpa_finish ky en c visit (cpa_reply (ServerID c) j x) \<lparr>cw_sigs = l, cw_hash = h, cw_booth = boo\<rparr> s
      = thenG (broadcast_booth en c ?e CPB (ID boo)) ?rest ?s"
    using assms(1,3) k by (simp add: cpa_finish_def Let_def getThreshold_booth cpa_reply_def commit_cert_def del: getThreshold_nat)
  also have "\<dots> = Done () t" using u(1) t(1) by simp
  finally show ?thesis using log_step_outbox [OF u(2)] t(2) by (auto simp: outbox_def)
qed

lemma quorum_commits:
  assumes "booth_keys ky coeffs n boo (ServerID c) (files p)" "quorum coeffs n vs" "ServerID c < n" "awaits_commits en c p j h boo"
  shows "\<exists>sg p'. forG vs (\<lambda>v. asyncHandleCPAReply ky en c visit (cpa_reply (ServerID c) j (share_sig ky coeffs n h v)) v) p = Done () p'
    \<and> PenVerify ky h sg (key_pub ky coeffs)
    \<and> outbox p' = outbox p @ map (\<lambda>v. (Concierge CPB v, CPBEntry (commit_cert c j h boo sg))) (members_to_send c p CPB (Indices boo))"
proof -
  let ?b = "ServerID c" and ?sig = "share_sig ky coeffs n h"
  let ?h = "\<lambda>v. asyncHandleCPAReply ky en c visit (cpa_reply ?b j (?sig v)) v"
  have len: "length vs = booth_quorum boo" "length coeffs = booth_quorum boo"
    using assms(1,2) by (simp_all add: booth_keys_def quorum_def booth_quorum_def)
  then have "vs \<noteq> []" using assms(1) by (auto simp: booth_keys_def)
  then obtain us v where vs: "vs = us @ [v]" by (cases vs rule: rev_cases) auto
  have p: "cpa_open ?b j h boo p" "cpa_votes ?b j p = []" using assms(4) by (simp_all add: awaits_commits_def)
  obtain q where q: "forG us ?h p = Done () q" "cpa_open ?b j h boo q" "cpa_votes ?b j q = map ?sig us" "vote_frame p q"
    using handle_CPAs_below [OF p(1), of us ky en c visit ?sig] p(2) len(1) vs by auto
  obtain sg where sg: "PenRecovery ky (map ?sig vs) h (key_pub ky coeffs) (int (length (Indices boo))) = Some sg" "PenVerify ky h sg (key_pub ky coeffs)"
    using quorum_recovers [OF assms(1,2)] by blast
  let ?q = "(look q)\<lparr>vgTxMeta_sigs := nset (vgTxMeta_sigs (look q)) ?b j (map ?sig vs)\<rparr>"
  have "vote_frame p ?q" by (rule vote_frame_trans [OF q(4) vote_frame_vote])
  note F = vote_frame_fields [OF this]
  have "cpa_vote en (cpa_reply ?b j (?sig v)) q = Done (Some \<lparr>cw_sigs = map ?sig vs, cw_hash = h, cw_booth = boo\<rparr>) ?q"
    using len(1) vs by (simp add: cpa_vote_run [OF q(2)] q(3) Let_def)
  then have "?h v q = cpa_finish ky en c visit (cpa_reply ?b j (?sig v)) \<lparr>cw_sigs = map ?sig vs, cw_hash = h, cw_booth = boo\<rparr> ?q"
    unfolding asyncHandleCPAReply_vote by (subst bindG_Done) (assumption, simp)
  moreover have "\<exists>t. cpa_finish ky en c visit (cpa_reply ?b j (?sig v)) \<lparr>cw_sigs = map ?sig vs, cw_hash = h, cw_booth = boo\<rparr> ?q = Done () t
    \<and> outbox t = outbox ?q @ map (\<lambda>v. (Concierge CPB v, CPBEntry (commit_cert c j h boo sg))) (members_to_send c ?q CPB (Indices boo))"
  proof (rule cpa_finish_quorum)
    show "fetchKeysByBoothId ky (getThreshold (int (length (Indices boo)))) ?b (ID boo) ?b t = Done (key_pub ky coeffs, evalShares ky coeffs n ! nat ?b) t"
      if "files t = files ?q" for t
      using booth_keys_fetch [OF assms(1), of ?b t] assms(1,3) that F(1) by (simp add: booth_keys_def)
  qed (use assms(4) sg(1) len(1) F(1-5) in \<open>simp_all add: awaits_commits_def members_in_range_def audible_links [OF F(6)]\<close>)
  ultimately obtain t where t: "?h v q = Done () t"
    "outbox t = outbox ?q @ map (\<lambda>v. (Concierge CPB v, CPBEntry (commit_cert c j h boo sg))) (members_to_send c ?q CPB (Indices boo))" by auto
  have "members_to_send c ?q CPB (Indices boo) = members_to_send c p CPB (Indices boo)" "outbox ?q = outbox p"
    using F by (simp_all add: members_to_send_def outbox_def)
  moreover have "forG vs ?h p = Done () t" using q(1) t(1) by (simp add: vs forG_append)
  ultimately show ?thesis using t(2) sg(2) by auto
qed

text \<open>The public key of a booth that every participant reads, and the certificates every participant can verify.\<close>

definition readable :: "('sc, 'pt, 'pub) kyber \<Rightarrow> int \<Rightarrow> Booth \<Rightarrow> int \<Rightarrow> 'pub \<Rightarrow> fs \<Rightarrow> bool" where
  "readable ky n boo b pub fs \<longleftrightarrow> (\<forall>v s. 0 \<le> v \<longrightarrow> v < n \<longrightarrow> files s = fs \<longrightarrow>
     (\<exists>pri. fetchKeysByBoothId ky (getThreshold (int (length (Indices boo)))) v (ID boo) b s = Done (pub, pri) s))"

lemma booth_keys_readable: "booth_keys ky coeffs n boo b fs \<Longrightarrow> readable ky n boo b (key_pub ky coeffs) fs"
  unfolding readable_def using booth_keys_fetch by blast

definition certificates :: "('sc, 'pt, 'pub) kyber \<Rightarrow> int \<Rightarrow> fs \<Rightarrow> ProposerCPAEntry \<Rightarrow> bool" where
  "certificates ky n fs m \<longleftrightarrow> (\<forall>e \<in> set (cpa_PrevOPBEntries m). opb_BlockchainId e = cpa_BlockchainId m \<and> opb_BlockId e \<in> set (cpa_BIDs m)
     \<and> Indices (opb_Booth e) \<noteq> [] \<and> opb_Hash e = range_hash m (opb_BlockId e)
     \<and> (\<exists>pub. readable ky n (opb_Booth e) (cpa_BlockchainId m) pub fs \<and> PenVerify ky (opb_Hash e) (opb_CombSig e) pub))"

text \<open>
  A member that stored no block of the range with another hash than the entry gives, is not half way through an ordering entry
  that the entry certifies, replies directly, and has not signed the instance.
\<close>

definition member_agrees :: "env \<Rightarrow> (int \<Rightarrow> cfg) \<Rightarrow> (int \<Rightarrow> node) \<Rightarrow> fs \<Rightarrow> ProposerCPAEntry \<Rightarrow> int \<Rightarrow> bool" where
  "member_agrees en cv st fs m v \<longleftrightarrow> ServerID (cv v) = v \<and> answers en (cv v) (st v) (cpa_BlockchainId m) CPA \<and> files (st v) = fs
     \<and> (\<forall>i \<in> set (cpa_BIDs m). agreed m (cmtSnapshot (st v)) i)
     \<and> (\<forall>e \<in> set (cpa_PrevOPBEntries m). nget (ordSnapshot (st v)) (cpa_BlockchainId m) (opb_BlockId e) \<noteq> None
          \<longrightarrow> nget (cmtSnapshot (st v)) (cpa_BlockchainId m) (opb_BlockId e) \<noteq> None)
     \<and> nget (valiConsJobStack (st v)) (cpa_BlockchainId m) (cpa_ConsInstID m) \<in> {None, Some 0}"

lemma member_signs:
  assumes "booth_keys ky coeffs n (cpa_Booth m) (cpa_BlockchainId m) fs" "member_agrees en cv st fs m v" "0 \<le> v" "v < n"
    and "certificates ky n fs m" "cpa_BIDs m \<noteq> []"
  shows "\<exists>t. validatingCAEntry ky en (cv v) m (Some d) (st v) = Done () t
    \<and> outbox t = outbox (st v) @ [(d, CPAReply (cpa_reply (cpa_BlockchainId m) (cpa_ConsInstID m) (share_sig ky coeffs n (cpa_TotalHash m) v)))]
    \<and> nget (valiConsJobStack t) (cpa_BlockchainId m) (cpa_ConsInstID m) = Some 1 \<and> files t = fs \<and> ordSnapshot t = ordSnapshot (st v) \<and> synced m (st v) t
    \<and> same_links (st v) t"
proof -
  note A = assms(2) [unfolded member_agrees_def]
  have k: "fetchKeysByBoothId ky (getThreshold (int (length (Indices (cpa_Booth m))))) (ServerID (cv v)) (ID (cpa_Booth m)) (cpa_BlockchainId m) (st v)
      = Done (key_pub ky coeffs, evalShares ky coeffs n ! nat v) (st v)"
    using booth_keys_fetch [OF assms(1,3,4), of "st v"] A by simp
  have "carried ky (cv v) m (st v) e \<and> opb_BlockId e \<in> set (cpa_BIDs m)" if e: "e \<in> set (cpa_PrevOPBEntries m)" for e
  proof -
    have C: "opb_BlockchainId e = cpa_BlockchainId m" "opb_BlockId e \<in> set (cpa_BIDs m)" "Indices (opb_Booth e) \<noteq> []" "opb_Hash e = range_hash m (opb_BlockId e)"
      using assms(5) e by (simp_all add: certificates_def)
    obtain pub where pub: "readable ky n (opb_Booth e) (cpa_BlockchainId m) pub fs" "PenVerify ky (opb_Hash e) (opb_CombSig e) pub"
      using assms(5) e unfolding certificates_def by blast
    obtain pri where "fetchKeysByBoothId ky (getThreshold (int (length (Indices (opb_Booth e))))) v (ID (opb_Booth e)) (cpa_BlockchainId m) (st v) = Done (pub, pri) (st v)"
      using pub(1) assms(3,4) A unfolding readable_def by blast
    then show ?thesis using C pub(2) A e unfolding carried_def C(1) by metis
  qed
  then have prev: "\<forall>e \<in> set (cpa_PrevOPBEntries m). carried ky (cv v) m (st v) e \<and> opb_BlockId e \<in> set (cpa_BIDs m)" by blast
  obtain t where "validatingCAEntry ky en (cv v) m (Some d) (st v) = Done () t"
    "outbox t = outbox (st v) @ [(d, CPAReply \<lparr>cpar_BlockchainId = cpa_BlockchainId m, cpar_ConsInstID = cpa_ConsInstID m,
        cpar_ParSig = share_sig ky coeffs n (cpa_TotalHash m) v\<rparr>)]"
    "nget (valiConsJobStack t) (cpa_BlockchainId m) (cpa_ConsInstID m) = Some 1" "files t = files (st v)" "ordSnapshot t = ordSnapshot (st v)" "synced m (st v) t"
    "same_links (st v) t"
    using CA_run [OF prev assms(6) _ k booth_keys_sign [OF assms(1)], of en d] A by blast
  then show ?thesis using A unfolding cpa_reply_def by blast
qed

text \<open>A member that signed the instance accepts a certificate that verifies, once.\<close>

lemma member_accepts:
  assumes "booth_keys ky coeffs n (cpb_Booth e) (cpb_BlockchainId e) (files s)" "0 \<le> ServerID c" "ServerID c < n"
    and "PenVerify ky (cpb_Hash e) (cpb_ComSig e) (key_pub ky coeffs)" "nget (valiConsJobStack s) (cpb_BlockchainId e) (cpb_ConsInstID e) = Some 1"
  shows "validatingCBEntry ky c e s = Done True (s\<lparr>valiConsJobStack := nset (valiConsJobStack s) (cpb_BlockchainId e) (cpb_ConsInstID e) 0\<rparr>)"
  using CB_run [OF booth_keys_fetch [OF assms(1-3) refl] assms(5)] assms(4) by simp

text \<open>The members of a quorum answer entries of one instance that differ in the certificates they carry only.\<close>

lemma commit_from_entry:
  assumes "booth_keys ky coeffs n boo (ServerID c) fs" "quorum coeffs n vs" "ServerID c < n" "files p = fs"
    and "awaits_commits en c p j h boo"
    and "\<forall>v \<in> set vs. member_agrees en cv st fs (M v) v \<and> certificates ky n fs (M v)"
    and M: "\<And>v. cpa_Booth (M v) = boo" "\<And>v. cpa_BlockchainId (M v) = ServerID c" "\<And>v. cpa_BIDs (M v) \<noteq> []"
      "\<And>v. cpa_ConsInstID (M v) = j" "\<And>v. cpa_TotalHash (M v) = h"
  shows "\<exists>sig st1 sg p' st2.
      (\<forall>v \<in> set vs. validatingCAEntry ky en (cv v) (M v) (Some d) (st v) = Done () (st1 v)
        \<and> outbox (st1 v) = outbox (st v) @ [(d, CPAReply (cpa_reply (ServerID c) j (sig v)))] \<and> synced (M v) (st v) (st1 v))
    \<and> forG vs (\<lambda>v. asyncHandleCPAReply ky en c visit (cpa_reply (ServerID c) j (sig v)) v) p = Done () p'
    \<and> PenVerify ky h sg (key_pub ky coeffs)
    \<and> outbox p' = outbox p @ map (\<lambda>v. (Concierge CPB v, CPBEntry (commit_cert c j h boo sg))) (members_to_send c p CPB (Indices boo))
    \<and> (\<forall>v \<in> set vs. validatingCBEntry ky (cv v) (commit_cert c j h boo sg) (st1 v) = Done True (st2 v)
        \<and> cmtSnapshot (st2 v) = cmtSnapshot (st1 v) \<and> ordSnapshot (st2 v) = ordSnapshot (st v) \<and> files (st2 v) = fs
        \<and> nget (valiConsJobStack (st2 v)) (ServerID c) j = Some 0)"
proof -
  let ?b = "ServerID c" and ?sig = "share_sig ky coeffs n h"
  have "\<exists>t. validatingCAEntry ky en (cv v) (M v) (Some d) (st v) = Done () t
    \<and> outbox t = outbox (st v) @ [(d, CPAReply (cpa_reply ?b j (?sig v)))]
    \<and> nget (valiConsJobStack t) ?b j = Some 1 \<and> files t = fs \<and> ordSnapshot t = ordSnapshot (st v) \<and> synced (M v) (st v) t" if "v \<in> set vs" for v
    using member_signs [of ky coeffs n "M v" fs en cv st v d] assms(1,2,6) that by (simp add: quorum_def M) blast
  then obtain st1 where st1: "\<forall>v \<in> set vs. validatingCAEntry ky en (cv v) (M v) (Some d) (st v) = Done () (st1 v)
    \<and> outbox (st1 v) = outbox (st v) @ [(d, CPAReply (cpa_reply ?b j (?sig v)))]
    \<and> nget (valiConsJobStack (st1 v)) ?b j = Some 1 \<and> files (st1 v) = fs \<and> ordSnapshot (st1 v) = ordSnapshot (st v) \<and> synced (M v) (st v) (st1 v)"
    by metis
  obtain sg p' where p': "forG vs (\<lambda>v. asyncHandleCPAReply ky en c visit (cpa_reply ?b j (?sig v)) v) p = Done () p'"
    "PenVerify ky h sg (key_pub ky coeffs)"
    "outbox p' = outbox p @ map (\<lambda>v. (Concierge CPB v, CPBEntry (commit_cert c j h boo sg))) (members_to_send c p CPB (Indices boo))"
    using quorum_commits [OF _ assms(2,3,5), of ky visit] assms(1,4) by blast
  let ?e = "commit_cert c j h boo sg"
  let ?st2 = "\<lambda>v. (st1 v)\<lparr>valiConsJobStack := nset (valiConsJobStack (st1 v)) ?b j 0\<rparr>"
  have e: "cpb_Booth ?e = boo" "cpb_BlockchainId ?e = ?b" "cpb_ConsInstID ?e = j" "cpb_Hash ?e = h" "cpb_ComSig ?e = sg"
    by (simp_all add: commit_cert_def)
  have CB: "validatingCBEntry ky (cv v) ?e (st1 v) = Done True (?st2 v)" if "v \<in> set vs" for v
    using member_accepts [of ky coeffs n ?e "st1 v" "cv v"] assms(1,2,6) st1 p'(2) that unfolding e by (simp add: quorum_def member_agrees_def)
  have after: "cmtSnapshot (?st2 v) = cmtSnapshot (st1 v) \<and> ordSnapshot (?st2 v) = ordSnapshot (st v) \<and> files (?st2 v) = fs
      \<and> nget (valiConsJobStack (?st2 v)) ?b j = Some 0" if "v \<in> set vs" for v
    using st1 that by simp
  show ?thesis
    by (rule exI [of _ ?sig], rule exI [of _ st1], rule exI [of _ sg], rule exI [of _ p'], rule exI [of _ ?st2])
      (use st1 p' CB after in blast)
qed

section \<open>From the ordered blocks to the commit certificate\<close>

text \<open>Every pending block is stored with a certificate that every participant can verify.\<close>

definition range_certified :: "('sc, 'pt, 'pub) kyber \<Rightarrow> cfg \<Rightarrow> int \<Rightarrow> fs \<Rightarrow> node \<Rightarrow> bool" where
  "range_certified ky c n fs p \<longleftrightarrow> pending_ids p \<noteq> [] \<and> (\<forall>i \<in> set (pending_ids p). \<exists>f pub. nget (cmtSnapshot p) (ServerID c) i = Some f
     \<and> Indices (booth f) \<noteq> [] \<and> readable ky n (booth f) (ServerID c) pub fs \<and> PenVerify ky (hash f) (tSig f) pub)"

definition range_hashes :: "cfg \<Rightarrow> node \<Rightarrow> (int64 \<times> bytes) list" where
  "range_hashes c p = fold (\<lambda>(i, f). alput i (hash f)) (found_blocks c p (pending_ids p)) []"

definition turn_entry :: "env \<Rightarrow> cfg \<Rightarrow> int \<Rightarrow> Booth \<Rightarrow> node \<Rightarrow> ProposerCPAEntry" where
  "turn_entry en c j boo p = entry_CA (ServerID c) boo (pending_ids p) j (range_hashes c p) (getDigest en (the (serialization_hashes (range_hashes c p))))"

text \<open>The blocks of the range that a member of the booth did not see, and what a member gets: the members that did not see one
  of the blocks get the certificates of all these blocks.\<close>

definition unseen :: "cfg \<Rightarrow> Booth \<Rightarrow> node \<Rightarrow> (int64 \<times> blockSnapshot) list" where
  "unseen c boo p = filter (\<lambda>(i, f). lacking boo f) (found_blocks c p (pending_ids p))"

definition new_member :: "cfg \<Rightarrow> Booth \<Rightarrow> node \<Rightarrow> int \<Rightarrow> bool" where
  "new_member c boo p v \<longleftrightarrow> v \<in> set (Indices boo) \<and> (\<exists>(i, f) \<in> set (found_blocks c p (pending_ids p)). v \<notin> set (Indices (booth f)))"

definition member_entry :: "env \<Rightarrow> cfg \<Rightarrow> int \<Rightarrow> Booth \<Rightarrow> node \<Rightarrow> int \<Rightarrow> ProposerCPAEntry" where
  "member_entry en c j boo p v = (if new_member c boo p v
     then SetPrevOPBEntries (turn_entry en c j boo p) (map (\<lambda>(i, f). resent_entry (ServerID c) i f) (unseen c boo p)) else turn_entry en c j boo p)"

lemma member_entry_fields:
  "cpa_Booth (member_entry en c j boo p v) = boo" "cpa_BlockchainId (member_entry en c j boo p v) = ServerID c"
  "cpa_BIDs (member_entry en c j boo p v) = pending_ids p" "cpa_ConsInstID (member_entry en c j boo p v) = j"
  "cpa_TotalHash (member_entry en c j boo p v) = cpa_TotalHash (turn_entry en c j boo p)"
  "cpa_RangeHash (member_entry en c j boo p v) = range_hashes c p"
  "cpa_PrevOPBEntries (member_entry en c j boo p v)
     = (if new_member c boo p v then map (\<lambda>(i, f). resent_entry (ServerID c) i f) (unseen c boo p) else [])"
  by (simp_all add: member_entry_def turn_entry_def entry_CA_def SetPrevOPBEntries_def)

lemma found_blocks_mem: "(i, f) \<in> set (found_blocks c p ids) \<longleftrightarrow> i \<in> set ids \<and> nget (cmtSnapshot p) (ServerID c) i = Some f"
  by (force simp: found_blocks_def split: option.splits)

text \<open>The turn finds a block in its range, and every block it finds has a booth.\<close>

definition range_found :: "cfg \<Rightarrow> node \<Rightarrow> bool" where
  "range_found c p \<longleftrightarrow> pending_ids p \<noteq> [] \<and> found_blocks c p (pending_ids p) \<noteq> []
     \<and> (\<forall>(i, f) \<in> set (found_blocks c p (pending_ids p)). Indices (booth f) \<noteq> [])"

lemma certified_found:
  assumes "range_certified ky c n fs p"
  shows "range_found c p"
proof -
  have ids: "pending_ids p \<noteq> []" using assms by (simp add: range_certified_def)
  then obtain i where "i \<in> set (pending_ids p)" by (cases "pending_ids p") auto
  then obtain f where "(i, f) \<in> set (found_blocks c p (pending_ids p))" using assms unfolding range_certified_def found_blocks_mem by blast
  moreover have "\<forall>(i, f) \<in> set (found_blocks c p (pending_ids p)). Indices (booth f) \<noteq> []"
    using assms unfolding range_certified_def by (fastforce simp: found_blocks_mem)
  ultimately show ?thesis using ids unfolding range_found_def by auto
qed

lemma map_of_fold_alput:
  assumes "\<forall>(k, x) \<in> set xs. g x = h k" "\<forall>k v. map_of l k = Some v \<longrightarrow> v = h k"
  shows "map_of (fold (\<lambda>(k, x). alput k (g x)) xs l) k = (if k \<in> fst ` set xs \<or> map_of l k \<noteq> None then Some (h k) else None)"
  using assms
proof (induction xs arbitrary: l)
  case Nil
  then show ?case by auto
next
  case (Cons a xs)
  obtain k' x where a: "a = (k', x)" by (cases a)
  have "map_of (alput k' (g x) l) i = Some v \<longrightarrow> v = h i" for i v using Cons.prems by (simp add: a update_conv)
  then show ?case using Cons.IH [of "alput k' (g x) l"] Cons.prems by (auto simp: a update_conv)
qed

lemma range_hash_found:
  assumes "nget (cmtSnapshot p) (ServerID c) i = Some f" "i \<in> set (pending_ids p)" "cpa_RangeHash m = range_hashes c p"
  shows "range_hash m i = hash f"
proof -
  let ?h = "\<lambda>i. hash (the (nget (cmtSnapshot p) (ServerID c) i))"
  have "(i, f) \<in> set (found_blocks c p (pending_ids p))" using assms(1,2) by (simp add: found_blocks_mem)
  then have "i \<in> fst ` set (found_blocks c p (pending_ids p))" by force
  then have "map_of (range_hashes c p) i = Some (?h i)"
    unfolding range_hashes_def by (subst map_of_fold_alput [where h = ?h]) (auto simp: found_blocks_mem)
  then show ?thesis using assms(1,3) by (simp add: range_hash_def)
qed

lemma certified_entry:
  assumes "range_certified ky c n fs p"
  shows "certificates ky n fs (member_entry en c j boo p v)"
  unfolding certificates_def member_entry_fields
proof
  fix e assume "e \<in> set (if new_member c boo p v then map (\<lambda>(i, f). resent_entry (ServerID c) i f) (unseen c boo p) else [])"
  then obtain i f where e: "e = resent_entry (ServerID c) i f" "(i, f) \<in> set (found_blocks c p (pending_ids p))"
    by (auto simp: unseen_def split: if_splits)
  then have f: "nget (cmtSnapshot p) (ServerID c) i = Some f" "i \<in> set (pending_ids p)" by (simp_all add: found_blocks_mem)
  obtain pub where "Indices (booth f) \<noteq> []" "readable ky n (booth f) (ServerID c) pub fs" "PenVerify ky (hash f) (tSig f) pub"
    using assms f unfolding range_certified_def by fastforce
  moreover have "range_hash (member_entry en c j boo p v) i = hash f" by (rule range_hash_found [OF f member_entry_fields(6)])
  ultimately show "opb_BlockchainId e = ServerID c \<and> opb_BlockId e \<in> set (pending_ids p) \<and> Indices (opb_Booth e) \<noteq> []
    \<and> opb_Hash e = range_hash (member_entry en c j boo p v) (opb_BlockId e)
    \<and> (\<exists>pub. readable ky n (opb_Booth e) (ServerID c) pub fs \<and> PenVerify ky (opb_Hash e) (opb_CombSig e) pub)"
    using f(2) by (auto simp: e(1) resent_entry_def)
qed

lemma turn_entries:
  assumes "acc_ok c boo (found_blocks c p (pending_ids p)) init_acc acc" "serialization_hashes (acc_hashes acc) = Some ser"
  shows "entry_for (entry_CA (ServerID c) boo (pending_ids p) j (acc_hashes acc) (getDigest en ser)) acc = member_entry en c j boo p"
    and "getDigest en ser = cpa_TotalHash (turn_entry en c j boo p)" and "distinct (acc_new acc)"
proof -
  have h: "acc_hashes acc = range_hashes c p" using assms(1) by (simp add: acc_ok_def init_acc_def range_hashes_def)
  have m: "entry_CA (ServerID c) boo (pending_ids p) j (acc_hashes acc) (getDigest en ser) = turn_entry en c j boo p"
    using assms(2) by (simp add: turn_entry_def h)
  have "v \<in> set (acc_new acc) \<longleftrightarrow> new_member c boo p v" for v
    using assms(1) by (auto simp: acc_ok_def init_acc_def new_member_def)
  moreover have "acc_resent acc = map (\<lambda>(i, f). resent_entry (ServerID c) i f) (unseen c boo p)"
    using assms(1) by (simp add: acc_ok_def init_acc_def unseen_def)
  ultimately show "entry_for (entry_CA (ServerID c) boo (pending_ids p) j (acc_hashes acc) (getDigest en ser)) acc = member_entry en c j boo p"
    unfolding m by (simp add: entry_for_def member_entry_def fun_eq_iff)
  show "getDigest en ser = cpa_TotalHash (turn_entry en c j boo p)" using assms(2) by (simp add: turn_entry_def h entry_CA_def)
  show "distinct (acc_new acc)" using assms(1) by (simp add: acc_ok_def init_acc_def)
qed

lemma made_commit:
  assumes "booth_reachable en c p boo" "getBoothID ky en c fuel p = Done bid s1" "boo = booMgr_b s1 ! nat bid"
    and "range_found c p" "nget (vgTxMeta_sigs p) (ServerID c) j = None"
  shows "\<exists>p1. consensus_step ky en c fuel j waited p = Done (Again (j + 1) waited) p1
    \<and> awaits_commits en c p1 j (cpa_TotalHash (turn_entry en c j boo p)) boo \<and> files p1 = files s1 \<and> concierge p1 = concierge p
    \<and> cmtSnapshot p1 = cmtSnapshot p \<and> pending_ids p1 = []
    \<and> outbox p1 = outbox p @ map (\<lambda>v. (Concierge CPA v, CPAEntry (member_entry en c j boo p v))) (members_to_send c p CPA (Indices boo))"
proof -
  note R = assms(1) [unfolded booth_reachable_def]
  note F = getBoothID_frame [OF assms(2), unfolded booth_frame_def]
  have b: "0 \<le> bid" "bid < int (length (booMgr_b s1))" "registry_inv en s1"
    using getBoothID_registry [OF _ assms(2)] R by blast+
  then have id: "ID boo = bid" using assms(3) by (auto simp: registry_inv_def)
  have pend: "pending_ids s1 = pending_ids p" "found_blocks c s1 ids = found_blocks c p ids" for ids
    using F by (simp_all add: pending_ids_def found_blocks_def chain_def)
  let ?ids = "pending_ids p" and ?h = "cpa_TotalHash (turn_entry en c j boo p)"
  note found = assms(4) [unfolded range_found_def]
  from consensus_turn [OF assms(2) b(1,2), unfolded pend, of j waited] found
  obtain acc ser t where acc: "acc_ok c boo (found_blocks c p ?ids) init_acc acc" "serialization_hashes (acc_hashes acc) = Some ser"
    and step: "consensus_step ky en c fuel j waited p = thenG (broadcast_CA en c bid (entry_CA (ServerID c) boo ?ids j (acc_hashes acc) (getDigest en ser)) acc)
        (ret (Again (j + 1) waited)) (meta_stored c j ?ids (getDigest en ser) t)"
    and fr: "data_frame (range_taken c j s1) t" and boo: "nget (vgTxData_boo t) (ServerID c) j = Some boo"
    unfolding assms(3) [symmetric] by blast
  let ?e = "entry_CA (ServerID c) boo ?ids j (acc_hashes acc) (getDigest en ser)"
  note M = turn_entries(1,2) [OF acc, where en = en and j = j] turn_entries(3) [OF acc]
  let ?s2 = "meta_stored c j ?ids (getDigest en ser) t"
  note D = data_frame_fields [OF fr]
  have v: "concierge ?s2 = concierge p" "broadcastError ?s2 = broadcastError p" "booMgr_b ?s2 = booMgr_b s1" "sent ?s2 = sent p" "files ?s2 = files s1"
      "cmtSnapshot ?s2 = cmtSnapshot p" "pending_ids ?s2 = []"
    using F by (simp_all add: meta_stored_def D range_taken_def pending_ids_def chain_def)
  have opened: "cpa_open (ServerID c) j ?h boo ?s2" "cpa_votes (ServerID c) j ?s2 = []"
    using boo F assms(5) M(2) by (simp_all add: cpa_open_def cpa_votes_def meta_stored_def D range_taken_def del: not_None_eq)
  have up: "\<not> broadcastError ?s2" "bid < int (length (booMgr_b ?s2))" using R b(2) by (simp_all add: v)
  have range: "members_in_range c ?s2 CPA (Indices (booMgr_b ?s2 ! nat bid))"
      "members_to_send c ?s2 CPA (Indices (booMgr_b ?s2 ! nat bid)) = members_to_send c p CPA (Indices boo)"
    using R by (simp_all add: v assms(3) [symmetric] members_in_range_def members_to_send_def)
  have "same_links p s1" "same_links s1 ?s2" using F D(15) by (simp_all add: meta_stored_def range_taken_def same_links_def)
  from same_links_trans [OF this] have links: "same_links p ?s2" .
  have aud: "audible en c ?s2 (Indices (booMgr_b ?s2 ! nat bid))" using R by (simp add: v assms(3) [symmetric] audible_links [OF links])
  obtain u W where u: "broadcast_CA en c bid ?e acc ?s2 = Done () u"
      "log_step en W (map (\<lambda>v. (Concierge CPA v, CPAEntry (member_entry en c j boo p v))) (members_to_send c p CPA (Indices boo))) ?s2 u"
    using broadcast_CA_sends [OF M(3) aud up(1) b(1) up(2) range(1), of ?e] unfolding range(2) M(1) by blast
  note N = net_frame_fields [OF log_step_frame [OF u(2)]]
  note links' = same_links_trans [OF links net_frame_links [OF log_step_frame [OF u(2)]]]
  have "consensus_step ky en c fuel j waited p = Done (Again (j + 1) waited) u" using u(1) unfolding step by simp
  moreover have "\<not> broadcastError u" using logged_no_error [OF _ u(2)] R by (simp add: v)
  then have "awaits_commits en c u j ?h boo"
    using R b(1,2) opened unfolding awaits_commits_def
    by (simp add: v N id assms(3) [symmetric] cpa_open_def cpa_votes_def members_in_range_def audible_links [OF links'] del: not_None_eq)
  moreover have "outbox u = outbox p @ map (\<lambda>v. (Concierge CPA v, CPAEntry (member_entry en c j boo p v))) (members_to_send c p CPA (Indices boo))"
    using log_step_outbox [OF u(2)] by (simp add: outbox_def v)
  moreover have "pending_ids u = []" using v(7) by (simp add: pending_ids_def N)
  ultimately show ?thesis by (intro exI [of _ u]) (simp add: N v)
qed

text \<open>What a member has after its entry: of every block of the range that it did not see when it was ordered,
  a stored block with the hash and the certificate of the proposer's.\<close>

definition caught_up :: "cfg \<Rightarrow> Booth \<Rightarrow> node \<Rightarrow> int \<Rightarrow> node \<Rightarrow> bool" where
  "caught_up c boo p v t \<longleftrightarrow> (\<forall>(i, f) \<in> set (found_blocks c p (pending_ids p)). v \<in> set (Indices boo) \<longrightarrow> v \<notin> set (Indices (booth f)) \<longrightarrow>
     (\<exists>g. nget (cmtSnapshot t) (ServerID c) i = Some g \<and> hash g = hash f \<and> tSig g = tSig f))"

lemma synced_caught_up:
  assumes "synced (member_entry en c j boo p v) s t"
  shows "caught_up c boo p v t"
  unfolding caught_up_def
proof (intro ballI, clarify)
  fix i f assume f: "(i, f) \<in> set (found_blocks c p (pending_ids p))" "v \<in> set (Indices boo)" "v \<notin> set (Indices (booth f))"
  let ?m = "member_entry en c j boo p v"
  have new: "new_member c boo p v" using f by (auto simp: new_member_def)
  have blk: "nget (cmtSnapshot p) (ServerID c) i = Some f" "i \<in> set (pending_ids p)" using f(1) by (simp_all add: found_blocks_mem)
  have "lacking boo f" using f(2,3) by (auto simp: lacking_def)
  then have "resent_entry (ServerID c) i f \<in> set (cpa_PrevOPBEntries ?m)"
    using f(1) new unfolding member_entry_fields by (force simp: unseen_def)
  then obtain e' g where e': "e' \<in> set (cpa_PrevOPBEntries ?m)" "opb_BlockId e' = i" and g: "nget (cmtSnapshot t) (ServerID c) i = Some g" "tSig g = opb_CombSig e'"
    using assms unfolding synced_def member_entry_fields(2) by (fastforce simp: resent_entry_def)
  obtain f' where "e' = resent_entry (ServerID c) i f'" "(i, f') \<in> set (found_blocks c p (pending_ids p))"
    using e' new unfolding member_entry_fields by (auto simp: unseen_def resent_entry_def)
  then have "tSig g = tSig f" using g(2) blk by (simp add: found_blocks_mem resent_entry_def)
  moreover have "hash g = range_hash ?m i" using assms blk(2) g(1) unfolding synced_def agreed_def member_entry_fields(2,3) by blast
  then have "hash g = hash f" using range_hash_found [OF blk member_entry_fields(6)] by simp
  ultimately show "\<exists>g. nget (cmtSnapshot t) (ServerID c) i = Some g \<and> hash g = hash f \<and> tSig g = tSig f" using g(1) by blast
qed

lemma commit_run:
  assumes "booth_reachable en c p boo" "getBoothID ky en c fuel p = Done bid s1" "boo = booMgr_b s1 ! nat bid"
    and "range_certified ky c n (files s1) p" "nget (vgTxMeta_sigs p) (ServerID c) j = None" "h = cpa_TotalHash (turn_entry en c j boo p)"
    and "booth_keys ky coeffs n boo (ServerID c) (files s1)" "quorum coeffs n vs" "ServerID c < n"
    and "\<forall>v \<in> set vs. member_agrees en cv st (files s1) (member_entry en c j boo p v) v"
  shows "\<exists>p1 sig st1 sg p' st2.
      consensus_step ky en c fuel j waited p = Done (Again (j + 1) waited) p1
    \<and> outbox p1 = outbox p @ map (\<lambda>v. (Concierge CPA v, CPAEntry (member_entry en c j boo p v))) (members_to_send c p CPA (Indices boo))
    \<and> (\<forall>v \<in> set vs. validatingCAEntry ky en (cv v) (member_entry en c j boo p v) (Some d) (st v) = Done () (st1 v)
        \<and> outbox (st1 v) = outbox (st v) @ [(d, CPAReply (cpa_reply (ServerID c) j (sig v)))] \<and> synced (member_entry en c j boo p v) (st v) (st1 v))
    \<and> forG vs (\<lambda>v. asyncHandleCPAReply ky en c visit (cpa_reply (ServerID c) j (sig v)) v) p1 = Done () p'
    \<and> PenVerify ky h sg (key_pub ky coeffs)
    \<and> outbox p' = outbox p1 @ map (\<lambda>v. (Concierge CPB v, CPBEntry (commit_cert c j h boo sg))) (members_to_send c p CPB (Indices boo))
    \<and> (\<forall>v \<in> set vs. validatingCBEntry ky (cv v) (commit_cert c j h boo sg) (st1 v) = Done True (st2 v))"
proof -
  let ?M = "member_entry en c j boo p"
  obtain p1 where p1: "consensus_step ky en c fuel j waited p = Done (Again (j + 1) waited) p1" "awaits_commits en c p1 j h boo"
      "files p1 = files s1" "concierge p1 = concierge p"
      "outbox p1 = outbox p @ map (\<lambda>v. (Concierge CPA v, CPAEntry (?M v))) (members_to_send c p CPA (Indices boo))"
    using made_commit [OF assms(1-3) certified_found [OF assms(4)] assms(5)] unfolding assms(6) by blast
  have to: "members_to_send c p1 CPB (Indices boo) = members_to_send c p CPB (Indices boo)" by (simp add: members_to_send_def p1(4))
  have ag: "\<forall>v \<in> set vs. member_agrees en cv st (files s1) (?M v) v \<and> certificates ky n (files s1) (?M v)"
    using assms(10) certified_entry [OF assms(4)] by blast
  have ne: "cpa_BIDs (?M v) \<noteq> []" for v using certified_found [OF assms(4)] by (simp add: member_entry_fields range_found_def)
  note F = member_entry_fields [where en = en and c = c and j = j and boo = boo and p = p, folded assms(6)]
  have "\<exists>sig st1 sg p' st2.
      (\<forall>v \<in> set vs. validatingCAEntry ky en (cv v) (?M v) (Some d) (st v) = Done () (st1 v)
        \<and> outbox (st1 v) = outbox (st v) @ [(d, CPAReply (cpa_reply (ServerID c) j (sig v)))] \<and> synced (?M v) (st v) (st1 v))
    \<and> forG vs (\<lambda>v. asyncHandleCPAReply ky en c visit (cpa_reply (ServerID c) j (sig v)) v) p1 = Done () p'
    \<and> PenVerify ky h sg (key_pub ky coeffs)
    \<and> outbox p' = outbox p1 @ map (\<lambda>v. (Concierge CPB v, CPBEntry (commit_cert c j h boo sg))) (members_to_send c p1 CPB (Indices boo))
    \<and> (\<forall>v \<in> set vs. validatingCBEntry ky (cv v) (commit_cert c j h boo sg) (st1 v) = Done True (st2 v)
        \<and> cmtSnapshot (st2 v) = cmtSnapshot (st1 v) \<and> ordSnapshot (st2 v) = ordSnapshot (st v) \<and> files (st2 v) = files s1
        \<and> nget (valiConsJobStack (st2 v)) (ServerID c) j = Some 0)"
    by (rule commit_from_entry [OF assms(7-9) p1(3,2) ag F(1,2) ne F(4,5)])
  then show ?thesis using p1(1,5) unfolding to by blast
qed

text \<open>C3: A commit instance from the ordered blocks to the certificate, with a booth that need not be the one that ordered the blocks.
  When every pending block is stored with a certificate, a turn of the consensus loop sends the ids, hashes and
  digest of exactly these blocks to the connected members, and with it, to the members that did not see one of them, the
  certificates of the blocks that some member did not see; every member of a quorum that stored none of these blocks with another hash
  answers with one signature of the digest, and then has every block it did not see, with its certificate; the
  proposer, handling these replies in any order, combines them to a signature of the digest that verifies
  and sends it to the connected members; and every member of the quorum that gets this certificate accepts it.\<close>

theorem commit_round:
  assumes "booth_reachable en c p boo" "getBoothID ky en c fuel p = Done bid s1" "boo = booMgr_b s1 ! nat bid"
    and "range_certified ky c n (files s1) p" "nget (vgTxMeta_sigs p) (ServerID c) j = None" "h = cpa_TotalHash (turn_entry en c j boo p)"
    and "booth_keys ky coeffs n boo (ServerID c) (files s1)" "quorum coeffs n vs" "ServerID c < n"
    and "\<forall>v \<in> set vs. member_agrees en cv st (files s1) (member_entry en c j boo p v) v"
  shows "\<exists>p1 sig st1 sg p' st2.
      consensus_step ky en c fuel j waited p = Done (Again (j + 1) waited) p1
    \<and> outbox p1 = outbox p @ map (\<lambda>v. (Concierge CPA v, CPAEntry (member_entry en c j boo p v))) (members_to_send c p CPA (Indices boo))
    \<and> (\<forall>v \<in> set vs. validatingCAEntry ky en (cv v) (member_entry en c j boo p v) (Some d) (st v) = Done () (st1 v)
        \<and> outbox (st1 v) = outbox (st v) @ [(d, CPAReply (cpa_reply (ServerID c) j (sig v)))] \<and> caught_up c boo p v (st1 v))
    \<and> forG vs (\<lambda>v. asyncHandleCPAReply ky en c visit (cpa_reply (ServerID c) j (sig v)) v) p1 = Done () p'
    \<and> PenVerify ky h sg (key_pub ky coeffs)
    \<and> outbox p' = outbox p1 @ map (\<lambda>v. (Concierge CPB v, CPBEntry (commit_cert c j h boo sg))) (members_to_send c p CPB (Indices boo))
    \<and> (\<forall>v \<in> set vs. validatingCBEntry ky (cv v) (commit_cert c j h boo sg) (st1 v) = Done True (st2 v))"
  using commit_run [OF assms, of waited d visit] synced_caught_up by blast

section \<open>Two certificates for one instance\<close>

definition cert_of :: "ProposerCPAEntry \<Rightarrow> bytes \<Rightarrow> ProposerCPBEntry" where
  "cert_of m sg = \<lparr>cpb_Booth = cpa_Booth m, cpb_BlockchainId = cpa_BlockchainId m, cpb_ConsInstID = cpa_ConsInstID m, cpb_ComSig = sg, cpb_Hash = cpa_TotalHash m\<rparr>"

text \<open>A member's answer to an entry and its acceptance of the certificate.\<close>

definition signs_and_accepts :: "('sc, 'pt, 'pub) kyber \<Rightarrow> env \<Rightarrow> cfg \<Rightarrow> ProposerCPAEntry \<Rightarrow> dest \<Rightarrow> bytes \<Rightarrow> bytes \<Rightarrow> node \<Rightarrow> node \<Rightarrow> bool" where
  "signs_and_accepts ky en c m d sig sg s u \<longleftrightarrow> (\<exists>t. validatingCAEntry ky en c m (Some d) s = Done () t
     \<and> outbox t = outbox s @ [(d, CPAReply (cpa_reply (cpa_BlockchainId m) (cpa_ConsInstID m) sig))]
     \<and> validatingCBEntry ky c (cert_of m sg) t = Done True u)"

lemma member_signs_and_accepts:
  assumes "booth_keys ky coeffs n (cpa_Booth m) (cpa_BlockchainId m) fs" "member_agrees en cv st fs m v" "0 \<le> v" "v < n"
    and "cpa_PrevOPBEntries m = []" "cpa_BIDs m \<noteq> []" "PenVerify ky (cpa_TotalHash m) sg (key_pub ky coeffs)"
  shows "\<exists>u. signs_and_accepts ky en (cv v) m d (share_sig ky coeffs n (cpa_TotalHash m) v) sg (st v) u \<and> files u = fs
    \<and> nget (valiConsJobStack u) (cpa_BlockchainId m) (cpa_ConsInstID m) = Some 0
    \<and> (\<forall>i. nget (cmtSnapshot u) (cpa_BlockchainId m) i = nget (cmtSnapshot (st v)) (cpa_BlockchainId m) i)
    \<and> same_links (st v) u"
proof -
  have "certificates ky n fs m" by (simp add: certificates_def assms(5))
  from member_signs [OF assms(1-4) this assms(6), of d] obtain t where t: "validatingCAEntry ky en (cv v) m (Some d) (st v) = Done () t"
    "outbox t = outbox (st v) @ [(d, CPAReply (cpa_reply (cpa_BlockchainId m) (cpa_ConsInstID m) (share_sig ky coeffs n (cpa_TotalHash m) v)))]"
    "nget (valiConsJobStack t) (cpa_BlockchainId m) (cpa_ConsInstID m) = Some 1" "files t = fs" "synced m (st v) t" "same_links (st v) t" by blast
  let ?e = "cert_of m sg"
  have e: "cpb_Booth ?e = cpa_Booth m" "cpb_BlockchainId ?e = cpa_BlockchainId m" "cpb_ConsInstID ?e = cpa_ConsInstID m" "cpb_ComSig ?e = sg"
    "cpb_Hash ?e = cpa_TotalHash m" by (simp_all add: cert_of_def)
  let ?u = "t\<lparr>valiConsJobStack := nset (valiConsJobStack t) (cpa_BlockchainId m) (cpa_ConsInstID m) 0\<rparr>"
  have "validatingCBEntry ky (cv v) ?e t = Done True ?u"
    using member_accepts [of ky coeffs n ?e t "cv v"] assms(1-4,7) t(3,4) unfolding e by (simp add: member_agrees_def)
  moreover have "nget (cmtSnapshot ?u) (cpa_BlockchainId m) i = nget (cmtSnapshot (st v)) (cpa_BlockchainId m) i" for i
    using t(5) by (simp add: synced_def assms(5))
  moreover have "same_links (st v) ?u" using t(6) by (simp add: same_links_def)
  ultimately show ?thesis using t(1,2,4) unfolding signs_and_accepts_def by (intro exI [of _ ?u]) auto
qed

text \<open>C34: A commit instance can have two certificates. Nothing in \<open>validatingCAEntry\<close> looks at whether the instance was signed
  before: once its certificate is handled, a validator signs another digest under the same instance number. A proposer that sends two
  entries of one instance, one after the other, to the same honest quorum gets two certificates with the digests of both, and every member of
  the quorum accepts both.\<close>

theorem commit_equivocation:
  assumes "booth_keys ky coeffs n boo b fs" "quorum coeffs n vs" "\<forall>v \<in> set vs. member_agrees en cv st fs m v \<and> member_agrees en cv st fs m' v"
    and "cpa_Booth m = boo" "cpa_BlockchainId m = b" "cpa_PrevOPBEntries m = []" "cpa_BIDs m \<noteq> []"
    and "cpa_Booth m' = boo" "cpa_BlockchainId m' = b" "cpa_PrevOPBEntries m' = []" "cpa_BIDs m' \<noteq> []"
    and "cpa_ConsInstID m' = cpa_ConsInstID m"
  shows "\<exists>sig sig' sg sg' st1 st2.
      PenRecovery ky (map sig vs) (cpa_TotalHash m) (key_pub ky coeffs) (int (length (Indices boo))) = Some sg
    \<and> PenVerify ky (cpa_TotalHash m) sg (key_pub ky coeffs)
    \<and> PenRecovery ky (map sig' vs) (cpa_TotalHash m') (key_pub ky coeffs) (int (length (Indices boo))) = Some sg'
    \<and> PenVerify ky (cpa_TotalHash m') sg' (key_pub ky coeffs)
    \<and> (\<forall>v \<in> set vs. signs_and_accepts ky en (cv v) m d (sig v) sg (st v) (st1 v)
        \<and> signs_and_accepts ky en (cv v) m' d (sig' v) sg' (st1 v) (st2 v))"
proof -
  let ?sig = "\<lambda>m. share_sig ky coeffs n (cpa_TotalHash m)"
  obtain sg where sg: "PenRecovery ky (map (?sig m) vs) (cpa_TotalHash m) (key_pub ky coeffs) (int (length (Indices boo))) = Some sg"
    "PenVerify ky (cpa_TotalHash m) sg (key_pub ky coeffs)" using quorum_recovers [OF assms(1,2)] by blast
  obtain sg' where sg': "PenRecovery ky (map (?sig m') vs) (cpa_TotalHash m') (key_pub ky coeffs) (int (length (Indices boo))) = Some sg'"
    "PenVerify ky (cpa_TotalHash m') sg' (key_pub ky coeffs)" using quorum_recovers [OF assms(1,2)] by blast
  have "\<exists>u w. signs_and_accepts ky en (cv v) m d (?sig m v) sg (st v) u \<and> signs_and_accepts ky en (cv v) m' d (?sig m' v) sg' u w"
    if v: "v \<in> set vs" for v
  proof -
    have r: "0 \<le> v" "v < n" using assms(2) v by (simp_all add: quorum_def)
    have A: "member_agrees en cv st fs m v" "member_agrees en cv st fs m' v" using assms(3) v by blast+
    obtain u where u: "signs_and_accepts ky en (cv v) m d (?sig m v) sg (st v) u" "files u = fs"
      "nget (valiConsJobStack u) b (cpa_ConsInstID m) = Some 0" "\<forall>i. nget (cmtSnapshot u) b i = nget (cmtSnapshot (st v)) b i" "same_links (st v) u"
      using member_signs_and_accepts [of ky coeffs n m fs en cv st v sg d] assms(1,4-7) A(1) r sg(2) by auto
    have "member_agrees en cv (\<lambda>_. u) fs m' v"
      using A(2) u(2-4) by (simp add: member_agrees_def agreed_def answers_links [OF u(5)] assms(9,10,12))
    then obtain w where "signs_and_accepts ky en (cv v) m' d (?sig m' v) sg' u w"
      using member_signs_and_accepts [of ky coeffs n m' fs en cv "\<lambda>_. u" v sg' d] assms(1,8-11) r sg'(2) by auto
    then show ?thesis using u(1) by blast
  qed
  then obtain st1 st2 where "\<forall>v \<in> set vs. signs_and_accepts ky en (cv v) m d (?sig m v) sg (st v) (st1 v)
      \<and> signs_and_accepts ky en (cv v) m' d (?sig m' v) sg' (st1 v) (st2 v)" by metis
  then show ?thesis using sg sg' by blast
qed

section \<open>Witnesses\<close>

text \<open>
  The proposer with one block that booth 0 ordered, when the vehicles 9, 11 and 12 participate: 9 is new and 13 has left.
  Member 12 stored the block, member 9 has seen nothing.
\<close>

definition ordered_block :: "bytes \<Rightarrow> blockSnapshot" where
  "ordered_block sg = (block_of demo_env [fresh_entry] fresh_booth)\<lparr>tSig := sg\<rparr>"

definition ordered_node :: "fs \<Rightarrow> bytes \<Rightarrow> node" where
  "ordered_node fs sg = fresh_node\<lparr>participantVehicleTimeData := [''100.00'' \<mapsto> [9, 11, 12]], booMgr_b := [fresh_booth],
     booMgr_index := [generateBoothHash demo_env [10, 11, 12, 13] \<mapsto> 0], files := fs, vgrec := \<lparr>blockIDs = [0], lastIdx = 0\<rparr>,
     cmtSnapshot := nset Map.empty 10 0 (ordered_block sg)\<rparr>"

definition second_booth :: Booth where
  "second_booth = \<lparr>ID = 1, Indices = [9, 10, 11, 12]\<rparr>"

definition ordered_member :: "fs \<Rightarrow> int \<Rightarrow> node" where
  "ordered_member fs v = (if v = 9 then fresh_member fs v
     else (fresh_member fs v)\<lparr>cmtSnapshot := nset Map.empty 10 0 (ordered_block [])\<rparr>)"

lemma ordered_member_answers: "answers demo_env (round_cfg v) (ordered_member fs v) 10 ph"
  using answers_links [of "fresh_member fs v" "ordered_member fs v"] fresh_member_answers by (simp add: ordered_member_def same_links_def)

lemma second_hash: "generateBoothHash demo_env [9, 10, 11, 12] \<noteq> generateBoothHash demo_env [10, 11, 12, 13]"
  by code_simp

lemma second_booth_made:
  assumes "booth_keys demo_kyber [0, 0] 14 fresh_booth 10 fs"
  shows "\<exists>s1. getBoothID demo_kyber demo_env fresh_cfg 1 (ordered_node fs sg) = Done 1 s1 \<and> booMgr_b s1 ! 1 = second_booth
    \<and> booth_keys demo_kyber [1, 1] 14 second_booth 10 (files s1) \<and> booth_keys demo_kyber [0, 0] 14 fresh_booth 10 (files s1)"
proof -
  let ?s = "ordered_node fs sg"
  obtain fs' where fs': "generator_main demo_kyber [1, 1] 14 1 10 fs = Inr fs'"
    using generator_main_total [OF demo_kyber_encodes] by (metis list.distinct(1))
  have pat: "participants_at demo_env ?s (clock_reads ?s) = [9, 11, 12]"
    by (simp add: participants_at_def demo_env_def ordered_node_def)
  have poly: "newPriPoly demo_kyber 1 (go_div 4 3 * 2) = [1, 1]" by (simp add: demo_kyber_def go_div_def numeral_2_eq_2)
  have "getBoothID demo_kyber demo_env fresh_cfg 1 ?s = Done 1 ((look ?s)\<lparr>booMgr_b := [fresh_booth, second_booth],
      booMgr_index := [generateBoothHash demo_env [10, 11, 12, 13] \<mapsto> 0, generateBoothHash demo_env [9, 10, 11, 12] \<mapsto> 1], files := fs'\<rparr>)"
    using fs' second_hash unfolding One_nat_def getBoothID_step pat
    by (simp add: checkExactMatchInBooMgr_def generateBoothKey_def Let_def look_def ordered_node_def second_booth_def fresh_cfg_def demo_cfg_def poly
        del: getBoothID.simps)
  moreover have "booth_keys demo_kyber [1, 1] 14 second_booth 10 fs'"
    using fs' by (auto intro!: generated_booth_keys simp: demo_kyber_encodes demo_recovers second_booth_def)
  moreover have "booth_keys demo_kyber [0, 0] 14 fresh_booth 10 fs'"
    by (rule booth_keys_kept [OF assms fs']) (simp_all add: fresh_booth_def)
  ultimately show ?thesis by (intro exI conjI) (assumption, simp_all)
qed

lemma ordered_reachable: "booth_reachable demo_env fresh_cfg (ordered_node fs sg) second_booth"
  using fresh_audible [of "ordered_node fs sg" "Indices second_booth"]
  by (simp add: booth_reachable_def registry_inv_def ordered_node_def fresh_node_def init_node_def demo_env_def fresh_cfg_def demo_cfg_def
      members_in_range_def second_booth_def fresh_booth_def same_links_def)

theorem commit_round_witness:
  "\<exists>s p1 sig st1 sg p'. consensus_step demo_kyber demo_env fresh_cfg 1 0 0 s = Done (Again 1 0) p1
    \<and> outbox p1 = map (\<lambda>v. (Concierge CPA v, CPAEntry (member_entry demo_env fresh_cfg 0 second_booth s v))) [9, 11, 12]
    \<and> length (cpa_PrevOPBEntries (member_entry demo_env fresh_cfg 0 second_booth s 9)) = 1 \<and> caught_up fresh_cfg second_booth s 9 (st1 (9 :: int))
    \<and> forG [9, 12] (\<lambda>v. asyncHandleCPAReply demo_kyber demo_env fresh_cfg (\<lambda>m. m) (cpa_reply 10 0 (sig v)) v) p1 = Done () p'
    \<and> outbox p' = outbox p1 @ map (\<lambda>v. (Concierge CPB v, CPBEntry (commit_cert fresh_cfg 0 (cpa_TotalHash (turn_entry demo_env fresh_cfg 0 second_booth s))
        second_booth sg))) [9, 11, 12]"
proof -
  obtain s0 :: node where k: "booth_keys demo_kyber [0, 0] 14 fresh_booth 10 (files s0)" using fresh_booth_made [OF fresh_fields(1-3)] by blast
  obtain sg where sg: "PenVerify demo_kyber (hash (ordered_block [])) sg (key_pub demo_kyber [0, 0])"
    using quorum_recovers [OF k fresh_quorum] by blast
  let ?s = "ordered_node (files s0) sg"
  obtain s1 where s1: "getBoothID demo_kyber demo_env fresh_cfg 1 ?s = Done 1 s1" "booMgr_b s1 ! 1 = second_booth"
    and k1: "booth_keys demo_kyber [1, 1] 14 second_booth 10 (files s1)" and k0: "booth_keys demo_kyber [0, 0] 14 fresh_booth 10 (files s1)"
    using second_booth_made [OF k] by blast
  have id: "ServerID fresh_cfg = 10" by (rule fresh_fields)
  have s: "pending_ids ?s = [0]" "cmtSnapshot ?s = nset Map.empty 10 0 (ordered_block sg)" "outbox ?s = []"
      "nget (vgTxMeta_sigs ?s) (ServerID fresh_cfg) 0 = None" "members_to_send fresh_cfg ?s ph (Indices second_booth) = [9, 11, 12]" for ph
    by (simp_all add: pending_ids_def ordered_node_def fresh_fields outbox_def nget_def members_to_send_def second_booth_def fresh_node_def init_node_def)
  have f: "booth (ordered_block x) = fresh_booth" "Indices fresh_booth = [10, 11, 12, 13]" "hash (ordered_block sg) = hash (ordered_block [])"
      "tSig (ordered_block x) = x" for x
    by (simp_all add: ordered_block_def block_of_def snapshot_of_def fresh_booth_def)
  have found: "found_blocks fresh_cfg ?s [0] = [(0, ordered_block sg)]" by (simp add: found_blocks_def s(2) id)
  have cert: "range_certified demo_kyber fresh_cfg 14 (files s1) ?s"
    using sg booth_keys_readable [OF k0] by (auto simp: range_certified_def s(1,2) id f intro!: exI [of _ "key_pub demo_kyber [0, 0]"])
  have new: "new_member fresh_cfg second_booth ?s v \<longleftrightarrow> v = 9" if "v \<in> {9, 12}" for v
    using that by (auto simp: new_member_def s(1) found f second_booth_def)
  have lack: "unseen fresh_cfg second_booth ?s = [(0, ordered_block sg)]" by (simp add: unseen_def s(1) found lacking_def f second_booth_def)
  have rh: "range_hash (member_entry demo_env fresh_cfg 0 second_booth ?s v) 0 = hash (ordered_block [])" for v
    using range_hash_found [of ?s fresh_cfg 0 "ordered_block sg" "member_entry demo_env fresh_cfg 0 second_booth ?s v"] s(1,2)
    by (simp add: member_entry_fields id f(3))
  have prev: "cpa_PrevOPBEntries (member_entry demo_env fresh_cfg 0 second_booth ?s 9) = [resent_entry 10 0 (ordered_block sg)]"
    "cpa_PrevOPBEntries (member_entry demo_env fresh_cfg 0 second_booth ?s 12) = []"
    using new by (simp_all add: member_entry_fields lack id)
  have agrees: "\<forall>v \<in> set [9, 12]. member_agrees demo_env round_cfg (ordered_member (files s1)) (files s1) (member_entry demo_env fresh_cfg 0 second_booth ?s v) v"
    using prev rh ordered_member_answers
    by (simp add: member_agrees_def member_entry_fields(2-4) s(1) agreed_def id)
      (simp add: round_cfg_def demo_cfg_def ordered_member_def fresh_member_def init_node_def f)
  have quorum: "quorum [1 :: byte, 1] 14 [9, 12]" "ServerID fresh_cfg < 14" by (simp_all add: quorum_def id)
  have boo: "second_booth = booMgr_b s1 ! nat 1" using s1(2) by simp
  let ?h = "cpa_TotalHash (turn_entry demo_env fresh_cfg 0 second_booth ?s)"
  obtain p1 sig st1 sg' p' where R: "consensus_step demo_kyber demo_env fresh_cfg 1 0 0 ?s = Done (Again 1 0) p1"
      "outbox p1 = map (\<lambda>v. (Concierge CPA v, CPAEntry (member_entry demo_env fresh_cfg 0 second_booth ?s v))) [9, 11, 12]"
      "\<forall>v \<in> set [9, 12]. caught_up fresh_cfg second_booth ?s v (st1 v)"
      "forG [9, 12] (\<lambda>v. asyncHandleCPAReply demo_kyber demo_env fresh_cfg (\<lambda>m. m) (cpa_reply 10 0 (sig v)) v) p1 = Done () p'"
      "outbox p' = outbox p1 @ map (\<lambda>v. (Concierge CPB v, CPBEntry (commit_cert fresh_cfg 0 ?h second_booth sg'))) [9, 11, 12]"
    using commit_round [OF ordered_reachable s1(1) boo cert s(4) refl k1 [folded id] quorum agrees, of 0 "Dialog CPA 10" "\<lambda>m. m"]
    unfolding s(3,5) id append_Nil add_0 by blast
  have "caught_up fresh_cfg second_booth ?s 9 (st1 9)" "length (cpa_PrevOPBEntries (member_entry demo_env fresh_cfg 0 second_booth ?s 9)) = 1"
    using R(3) prev(1) by simp_all
  with R(1,2,4,5) show ?thesis by blast
qed

definition double_CA :: "bytes \<Rightarrow> ProposerCPAEntry" where
  "double_CA h = \<lparr>cpa_PrevOPBEntries = [], cpa_Booth = fresh_booth, cpa_BlockchainId = 10, cpa_BIDs = [7], cpa_ConsInstID = 0,
     cpa_RangeHash = [(7, h)], cpa_TotalHash = h\<rparr>"

theorem commit_equivocation_witness:
  "\<exists>st st1 st2 sig sig' sg sg'. PenVerify demo_kyber [1] sg (key_pub demo_kyber [0, 0]) \<and> PenVerify demo_kyber [2] sg' (key_pub demo_kyber [0, 0])
    \<and> signs_and_accepts demo_kyber demo_env (round_cfg 11) (double_CA [1]) (Dialog CPA 10) sig sg st st1
    \<and> signs_and_accepts demo_kyber demo_env (round_cfg 11) (double_CA [2]) (Dialog CPA 10) sig' sg' st1 st2"
proof -
  obtain s0 :: node where k: "booth_keys demo_kyber [0, 0] 14 fresh_booth 10 (files s0)" using fresh_booth_made [OF fresh_fields(1-3)] by blast
  let ?st = "fresh_member (files s0)"
  have ag: "\<forall>v \<in> set [11, 13]. member_agrees demo_env round_cfg ?st (files s0) (double_CA [1]) v \<and> member_agrees demo_env round_cfg ?st (files s0) (double_CA [2]) v"
    using fresh_member_answers [of _ "files s0" CPA] by (simp add: member_agrees_def double_CA_def agreed_def)
      (simp add: fresh_member_def round_cfg_def demo_cfg_def init_node_def)
  have m: "cpa_Booth (double_CA h) = fresh_booth" "cpa_BlockchainId (double_CA h) = 10" "cpa_PrevOPBEntries (double_CA h) = []" "cpa_BIDs (double_CA h) \<noteq> []"
    "cpa_ConsInstID (double_CA h) = 0" "cpa_TotalHash (double_CA h) = h" for h by (simp_all add: double_CA_def)
  have one: "cpa_ConsInstID (double_CA [2]) = cpa_ConsInstID (double_CA [1])" by (simp add: m)
  have mem: "(11 :: int) \<in> set [11, 13]" by simp
  from commit_equivocation [OF k fresh_quorum ag m(1-4) m(1-4) one, of "Dialog CPA 10"] mem show ?thesis unfolding m by blast
qed

end
