(* ===== verification/Lifecycle.thy ===== *)
theory Lifecycle
  imports Commits
begin

text \<open>
  The life of a batch of entries, across both phases: ordered by one booth, committed by the booth of a later moment,
  whose members need not be the same.
\<close>

section \<open>The keys of earlier booths\<close>

text \<open>A later request for a booth leaves the keys of the registered booths in place.\<close>

lemma checkExactMatch_keys:
  assumes "registry_inv en s" "checkExactMatchInBooMgr ky en c pattern s = Done b t" "ID boo < int (length (booMgr_b s))"
    and "booth_keys ky coeffs n boo (ServerID c) (files s)"
  shows "booth_keys ky coeffs n boo (ServerID c) (files t)"
proof (cases "booMgr_index s (generateBoothHash en (sort pattern))")
  case (Some i)
  then show ?thesis using assms(2,4) by (simp add: checkExactMatchInBooMgr_def Let_def)
next
  case None
  have ky: "kyber_encodes ky" "0 \<le> ServerID c" using assms(4) by (simp_all add: booth_keys_def)
  let ?coeffs = "newPriPoly ky (int (length (booMgr_b s))) (go_div (int (length pattern)) 3 * 2)"
  show ?thesis
  proof (cases "?coeffs = []")
    case True
    then have "files t = files s" using assms(2) None by (auto simp: checkExactMatchInBooMgr_def generateBoothKey_def Let_def)
    then show ?thesis using assms(4) by simp
  next
    case False
    obtain fs where fs: "generator_main ky ?coeffs (NumOfConn c) (int (length (booMgr_b s))) (ServerID c) (files s) = Inr fs"
      using generator_main_total [OF ky(1) False] by blast
    then have "files t = fs" using assms(2) None by (auto simp: checkExactMatchInBooMgr_def generateBoothKey_def Let_def)
    moreover have "booth_keys ky coeffs n boo (ServerID c) fs"
      by (rule booth_keys_kept [OF assms(4) fs ky(2)]) (use assms(3) in auto)
    ultimately show ?thesis by simp
  qed
qed

lemma getBoothID_keys:
  assumes "registry_inv en s" "getBoothID ky en c fuel s = Done b t" "ID boo < int (length (booMgr_b s))"
    and "booth_keys ky coeffs n boo (ServerID c) (files s)"
  shows "booth_keys ky coeffs n boo (ServerID c) (files t)"
  using assms
proof (induction fuel arbitrary: s)
  case (Suc fuel)
  have look: "registry_inv en (look s)" "booMgr_b (look s) = booMgr_b s" "files (look s) = files s"
    using Suc.prems(1) by (simp_all add: look_def registry_inv_def)
  show ?case
  proof (cases "length (participants_at en s (clock_reads s)) \<le> 2")
    case True
    then show ?thesis using Suc.IH [OF look(1)] Suc.prems(2-4) look(2,3) by (simp add: getBoothID_step del: getBoothID.simps)
  next
    case False
    then have "checkExactMatchInBooMgr ky en c (ServerID c # participants_at en s (clock_reads s)) (look s) = Done b t"
      using Suc.prems(2) by (simp add: getBoothID_step del: getBoothID.simps)
    from checkExactMatch_keys [OF look(1) this] show ?thesis using Suc.prems(3,4) look(2,3) by simp
  qed
qed simp

section \<open>From the buffer to the accepted commit\<close>

text \<open>The booth of a moment: the one the proposer is answered, with keys, within reach and earshot, and a quorum of it.\<close>

definition moment :: "('sc, 'pt, 'pub) kyber \<Rightarrow> env \<Rightarrow> cfg \<Rightarrow> nat \<Rightarrow> int \<Rightarrow> node \<Rightarrow> node \<Rightarrow> Booth \<Rightarrow> 'sc list \<Rightarrow> int list \<Rightarrow> bool" where
  "moment ky en c fuel n p s boo coeffs vs \<longleftrightarrow> (\<exists>bid. getBoothID ky en c fuel p = Done bid s \<and> boo = booMgr_b s ! nat bid)
     \<and> (\<forall>ph. members_in_range c p ph (Indices boo)) \<and> audible en c p (Indices boo) \<and> booth_keys ky coeffs n boo (ServerID c) (files s) \<and> quorum coeffs n vs"

text \<open>A member that has not heard of block \<open>i\<close> and has not signed commit instance \<open>j\<close>, and replies directly.\<close>

definition newcomer :: "env \<Rightarrow> (int \<Rightarrow> cfg) \<Rightarrow> (int \<Rightarrow> node) \<Rightarrow> int \<Rightarrow> int64 \<Rightarrow> int \<Rightarrow> int \<Rightarrow> bool" where
  "newcomer en cv st b i j v \<longleftrightarrow> ServerID (cv v) = v \<and> (\<forall>ph. answers en (cv v) (st v) b ph)
     \<and> nget (ordSnapshot (st v)) b i = None \<and> nget (cmtSnapshot (st v)) b i = None \<and> nget (valiOrdJobStack (st v)) b i = None
     \<and> nget (valiConsJobStack (st v)) b j \<in> {None, Some 0}"

text \<open>One commit instance of the blocks pending at \<open>p\<close>: the turn of the proposer, the answers of the quorum, and the certificate
  that every member of the quorum accepts.\<close>

definition commits :: "('sc, 'pt, 'pub) kyber \<Rightarrow> env \<Rightarrow> cfg \<Rightarrow> (int \<Rightarrow> cfg) \<Rightarrow> nat \<Rightarrow> int \<Rightarrow> int \<Rightarrow> Booth \<Rightarrow> int list \<Rightarrow> dest
    \<Rightarrow> node \<Rightarrow> (int \<Rightarrow> node) \<Rightarrow> (int \<Rightarrow> node) \<Rightarrow> bool" where
  "commits ky en c cv fuel j waited boo vs d p st st' \<longleftrightarrow> (\<exists>p1 sig p2 sg st2.
      consensus_step ky en c fuel j waited p = Done (Again (j + 1) waited) p1
    \<and> outbox p1 = outbox p @ map (\<lambda>v. (Concierge CPA v, CPAEntry (member_entry en c j boo p v))) (members_to_send c p CPA (Indices boo))
    \<and> (\<forall>v \<in> set vs. validatingCAEntry ky en (cv v) (member_entry en c j boo p v) (Some d) (st v) = Done () (st' v)
        \<and> outbox (st' v) = outbox (st v) @ [(d, CPAReply (cpa_reply (ServerID c) j (sig v)))])
    \<and> forG vs (\<lambda>v. asyncHandleCPAReply ky en c (\<lambda>m. m) (cpa_reply (ServerID c) j (sig v)) v) p1 = Done () p2
    \<and> outbox p2 = outbox p1 @ map (\<lambda>v. (Concierge CPB v, CPBEntry (commit_cert c j (cpa_TotalHash (turn_entry en c j boo p)) boo sg)))
        (members_to_send c p CPB (Indices boo))
    \<and> (\<forall>v \<in> set vs. validatingCBEntry ky (cv v) (commit_cert c j (cpa_TotalHash (turn_entry en c j boo p)) boo sg) (st' v) = Done True (st2 v)))"

text \<open>What the members know of the block when the commit begins: those of the ordering quorum have it with its certificate.\<close>

lemma carried_member_agrees:
  assumes "v \<in> set ws" "\<forall>v \<in> set ws. newcomer en cv st b i j v"
    and "v \<in> set vs \<Longrightarrow> certified_member b i g (st v) (st2 v)" "hash g = range_hash m i" "Indices (booth g) \<noteq> []"
    and "cpa_BlockchainId m = b" "cpa_BIDs m = [i]" "cpa_ConsInstID m = j" "\<forall>e \<in> set (cpa_PrevOPBEntries m). opb_BlockId e = i"
  shows "member_agrees en cv (\<lambda>v. (if v \<in> set vs then st2 v else st v)\<lparr>files := fs\<rparr>) fs m v"
proof -
  have N: "newcomer en cv st b i j v" using assms(1,2) by blast
  show ?thesis
  proof (cases "v \<in> set vs")
    case True
    then have C: "certified_member b i g (st v) (st2 v)" by (rule assms(3))
    then have "same_links (st v) ((st2 v)\<lparr>files := fs\<rparr>)" by (simp add: certified_member_def same_links_def)
    from answers_links [OF this] C show ?thesis using N assms(4-9) True by (auto simp: member_agrees_def agreed_def certified_member_def newcomer_def)
  next
    case False
    have "same_links (st v) ((st v)\<lparr>files := fs\<rparr>)" by (simp add: same_links_def)
    from answers_links [OF this] False show ?thesis using N assms(4-9) by (auto simp: member_agrees_def agreed_def newcomer_def)
  qed
qed

text \<open>A member that has the block keeps it through the commit entry.\<close>

lemma synced_keeps:
  assumes "synced (member_entry en c j boo p v) s t" "nget (cmtSnapshot s) (ServerID c) i = Some g" "i \<in> set (pending_ids p)"
    and "nget (cmtSnapshot p) (ServerID c) i = Some f" "tSig g = tSig f"
  shows "\<exists>g. nget (cmtSnapshot t) (ServerID c) i = Some g \<and> hash g = hash f \<and> tSig g = tSig f"
proof -
  let ?m = "member_entry en c j boo p v"
  have "nget (cmtSnapshot t) (ServerID c) i = nget (cmtSnapshot s) (ServerID c) i
     \<or> (\<exists>e \<in> set (cpa_PrevOPBEntries ?m). opb_BlockId e = i \<and> (\<exists>f. nget (cmtSnapshot t) (ServerID c) i = Some f \<and> tSig f = opb_CombSig e))"
    using assms(1) unfolding synced_def member_entry_fields(2) by blast
  moreover have "opb_CombSig e = tSig f" if "e \<in> set (cpa_PrevOPBEntries ?m)" "opb_BlockId e = i" for e
    using that assms(4) by (auto simp: member_entry_fields unseen_def found_blocks_mem resent_entry_def split: if_splits)
  ultimately obtain g' where g': "nget (cmtSnapshot t) (ServerID c) i = Some g'" "tSig g' = tSig f" using assms(2,5) by auto
  have "hash g' = range_hash ?m i" using assms(1,3) g'(1) unfolding synced_def agreed_def member_entry_fields(2,3) by blast
  then show ?thesis using g' range_hash_found [OF assms(4,3) member_entry_fields(6)] by simp
qed

lemma committable:
  assumes "nget (cmtSnapshot p) (ServerID c) i = Some f" "pending_ids p = [i]" "moment ky en c fuel n p s boo' coeffs' ws"
    and "registry_inv en p" "ID (booth f) < int (length (booMgr_b p))" "booth_keys ky coeffs n (booth f) (ServerID c) (files p)"
    and "PenVerify ky (hash f) (tSig f) (key_pub ky coeffs)"
  shows "range_certified ky c n (files s) p"
proof -
  obtain bid where "getBoothID ky en c fuel p = Done bid s" using assms(3) by (auto simp: moment_def)
  from getBoothID_keys [OF assms(4) this assms(5,6)] have "readable ky n (booth f) (ServerID c) (key_pub ky coeffs) (files s)"
    by (rule booth_keys_readable)
  moreover have "Indices (booth f) \<noteq> []" using assms(6) by (auto simp: booth_keys_def)
  ultimately show ?thesis using assms(1,2,7) unfolding range_certified_def by auto
qed

lemma committed_later:
  assumes "nget (cmtSnapshot p) (ServerID c) i = Some f" "pending_ids p = [i]" "moment ky en c fuel n p s boo' coeffs' ws"
    and "registry_inv en p" "ID (booth f) < int (length (booMgr_b p))" "booth_keys ky coeffs n (booth f) (ServerID c) (files p)"
    and "PenVerify ky (hash f) (tSig f) (key_pub ky coeffs)"
    and flags: "\<not> broadcastError p" "\<forall>k. \<not> encErr en k" "PerfMetres c \<longrightarrow> LatMetreInterval c \<noteq> 0"
    and "nget (vgTxMeta_sigs p) (ServerID c) j = None" "ServerID c < n" "\<forall>v \<in> set ws. newcomer en cv st (ServerID c) i j v"
    and cert: "\<forall>v \<in> set vs. certified_member (ServerID c) i g (st v) (st2 v)" "hash g = hash f" "tSig g = tSig f" "booth g = booth f"
  shows "\<exists>st3. commits ky en c cv fuel j waited boo' ws d p (\<lambda>v. (if v \<in> set vs then st2 v else st v)\<lparr>files := files s\<rparr>) st3
    \<and> (\<forall>v \<in> set ws. v \<in> set vs \<or> v \<in> set (Indices boo') - set (Indices (booth f)) \<longrightarrow>
        (\<exists>g. nget (cmtSnapshot (st3 v)) (ServerID c) i = Some g \<and> hash g = hash f \<and> tSig g = tSig f))"
proof -
  let ?st = "\<lambda>v. (if v \<in> set vs then st2 v else st v)\<lparr>files := files s\<rparr>" and ?M = "member_entry en c j boo' p"
  obtain bid where b: "getBoothID ky en c fuel p = Done bid s" "boo' = booMgr_b s ! nat bid" using assms(3) by (auto simp: moment_def)
  have R: "booth_reachable en c p boo'" using assms(3,4) flags by (simp add: booth_reachable_def moment_def)
  have k: "booth_keys ky coeffs' n boo' (ServerID c) (files s)" "quorum coeffs' n ws" using assms(3) by (simp_all add: moment_def)
  note C = committable [OF assms(1-7)]
  have ne: "Indices (booth g) \<noteq> []" using assms(6) cert(4) by (auto simp: booth_keys_def)
  have agrees: "\<forall>v \<in> set ws. member_agrees en cv ?st (files s) (?M v) v"
  proof
    fix v assume v: "v \<in> set ws"
    have "range_hash (?M v) i = hash f" by (rule range_hash_found [OF assms(1) _ member_entry_fields(6)]) (simp add: assms(2))
    moreover have "\<forall>e \<in> set (cpa_PrevOPBEntries (?M v)). opb_BlockId e = i"
      using assms(2) by (auto simp: member_entry_fields unseen_def found_blocks_mem resent_entry_def)
    ultimately show "member_agrees en cv ?st (files s) (?M v) v"
      using cert by (intro carried_member_agrees [OF v assms(13) _ _ ne]) (simp_all add: member_entry_fields assms(2))
  qed
  obtain p1 sig st1 sg p2 st3 where run: "consensus_step ky en c fuel j waited p = Done (Again (j + 1) waited) p1"
      "outbox p1 = outbox p @ map (\<lambda>v. (Concierge CPA v, CPAEntry (?M v))) (members_to_send c p CPA (Indices boo'))"
      "\<forall>v \<in> set ws. validatingCAEntry ky en (cv v) (?M v) (Some d) (?st v) = Done () (st1 v)
        \<and> outbox (st1 v) = outbox (?st v) @ [(d, CPAReply (cpa_reply (ServerID c) j (sig v)))] \<and> synced (?M v) (?st v) (st1 v)"
      "forG ws (\<lambda>v. asyncHandleCPAReply ky en c (\<lambda>m. m) (cpa_reply (ServerID c) j (sig v)) v) p1 = Done () p2"
      "outbox p2 = outbox p1 @ map (\<lambda>v. (Concierge CPB v, CPBEntry (commit_cert c j (cpa_TotalHash (turn_entry en c j boo' p)) boo' sg)))
        (members_to_send c p CPB (Indices boo'))"
      "\<forall>v \<in> set ws. validatingCBEntry ky (cv v) (commit_cert c j (cpa_TotalHash (turn_entry en c j boo' p)) boo' sg) (st1 v) = Done True (st3 v)"
    using commit_run [OF R b C assms(11) refl k assms(12) agrees, of waited d "\<lambda>m. m"] by blast
  have "\<exists>g. nget (cmtSnapshot (st1 v)) (ServerID c) i = Some g \<and> hash g = hash f \<and> tSig g = tSig f"
    if v: "v \<in> set ws" and has: "v \<in> set vs \<or> v \<in> set (Indices boo') - set (Indices (booth f))" for v
  proof -
    have sy: "synced (?M v) (?st v) (st1 v)" using run(3) v by blast
    have i: "i \<in> set (pending_ids p)" by (simp add: assms(2))
    show ?thesis
    proof (cases "v \<in> set vs")
      case True
      then have "nget (cmtSnapshot (?st v)) (ServerID c) i = Some g" using certified_member_block cert(1) by auto
      from synced_keeps [OF sy this i assms(1) cert(3)] show ?thesis .
    next
      case False
      moreover have "(i, f) \<in> set (found_blocks c p (pending_ids p))" using assms(1) i by (simp add: found_blocks_mem)
      ultimately show ?thesis using synced_caught_up [OF sy] has unfolding caught_up_def by blast
    qed
  qed
  then show ?thesis using run unfolding commits_def by blast
qed

text \<open>C1: A batch of entries is ordered and committed. From the buffer of a worker, with nothing else pending, the
  proposer makes one block; the quorum of its booth answers, the votes order it, and the members of the quorum attach the certificate. Whatever
  booth the proposer is answered at a later moment, the next turn of the consensus loop commits exactly this block with it: the
  quorum of the new booth answers, whether its members took part in the ordering, were in the ordering booth and missed it, or are new;
  the votes give a commit certificate that every one of them accepts; and each of them that took part in the ordering or
  is new to the block then has it with its hash and a certificate that verifies.\<close>

theorem batch_committed:
  assumes "booth_reachable en c p boo" "moment ky en c fuel n p s1 boo coeffs vs" "es \<noteq> []" "ServerID c < n"
    and "\<forall>v \<in> set vs \<union> set ws. newcomer en cv st (ServerID c) (logIndex p) j v" "\<forall>v \<in> set vs. files (st v) = files s1"
    and "lastIdx (vgrec p) = length (blockIDs (vgrec p))" "nget (vgTxMeta_sigs p) (ServerID c) j = None"
    and "m = made_entry en c boo (logIndex p) es" "f = block_of en es boo"
  shows "\<exists>p1 sig st1 p' sg st2.
      makeAndBroadcast ky en c fuel (sh_of es) p = Done (sh_of []) p1
    \<and> (\<forall>v \<in> set vs. validatingOAEntry ky en (cv v) m (Some d) (st v) = Done () (st1 v)
        \<and> outbox (st1 v) = outbox (st v) @ [(d, OPAReply (opa_reply (ServerID c) (logIndex p) (sig v)))])
    \<and> forG vs (\<lambda>v. asyncHandleOBReply ky en c (opa_reply (ServerID c) (logIndex p) (sig v)) v) p1 = Done () p'
    \<and> PenVerify ky (hash f) sg (key_pub ky coeffs)
    \<and> (\<forall>v \<in> set vs. validatingOBEntry ky (cv v) (order_entry (opa_reply (ServerID c) (logIndex p) []) f sg) enc (st1 v) = Done () (st2 v))
    \<and> (\<forall>fuel' s2 boo' coeffs' waited. moment ky en c fuel' n p' s2 boo' coeffs' ws \<longrightarrow>
        (\<exists>st3. commits ky en c cv fuel' j waited boo' ws d' p' (\<lambda>v. (if v \<in> set vs then st2 v else st v)\<lparr>files := files s2\<rparr>) st3
          \<and> (\<forall>v \<in> set ws. v \<in> set vs \<or> v \<in> set (Indices boo') - set (Indices boo) \<longrightarrow>
              (\<exists>g. nget (cmtSnapshot (st3 v)) (ServerID c) (logIndex p) = Some g \<and> hash g = hash f \<and> tSig g = sg))))
    \<and> booMgr_b p' = booMgr_b s1 \<and> booMgr_index p' = booMgr_index s1 \<and> files p' = files s1
    \<and> participantVehicleTimeData p' = participantVehicleTimeData p \<and> concierge p' = concierge p \<and> same_links p p'"
proof -
  let ?b = "ServerID c" and ?i = "logIndex p"
  obtain bid where b: "getBoothID ky en c fuel p = Done bid s1" "boo = booMgr_b s1 ! nat bid" using assms(2) by (auto simp: moment_def)
  have k: "booth_keys ky coeffs n boo ?b (files s1)" "quorum coeffs n vs" using assms(2) by (simp_all add: moment_def)
  have ready: "\<forall>v \<in> set vs. member_ready en cv st (files s1) ?b ?i v" using assms(5,6) by (simp add: member_ready_def newcomer_def)
  have R: "\<forall>k. \<not> encErr en k" "PerfMetres c \<longrightarrow> LatMetreInterval c \<noteq> 0"
    using assms(1) by (simp_all add: booth_reachable_def)
  obtain p1 sig st1 sg p' st2 where run: "makeAndBroadcast ky en c fuel (sh_of es) p = Done (sh_of []) p1"
      "\<forall>v \<in> set vs. validatingOAEntry ky en (cv v) m (Some d) (st v) = Done () (st1 v)
        \<and> outbox (st1 v) = outbox (st v) @ [(d, OPAReply (opa_reply ?b ?i (sig v)))]"
      "forG vs (\<lambda>v. asyncHandleOBReply ky en c (opa_reply ?b ?i (sig v)) v) p1 = Done () p'"
      "blockIDs (vgrec p') = blockIDs (vgrec p) @ [?i]" "nget (cmtSnapshot p') ?b ?i = Some (f\<lparr>tSig := sg\<rparr>)"
      "PenVerify ky (hash f) sg (key_pub ky coeffs)"
      "\<forall>v \<in> set vs. validatingOBEntry ky (cv v) (order_entry (opa_reply ?b ?i []) f sg) enc (st1 v) = Done () (st2 v)
        \<and> certified_member ?b ?i ((OA_snapshot m)\<lparr>tSig := sg\<rparr>) (st v) (st2 v)"
      and fr: "order_frame p1 p'" "\<not> broadcastError p'" "registry_inv en p1" "concierge p1 = concierge p" "vgrec p1 = vgrec p"
        "vgTxMeta_sigs p1 = vgTxMeta_sigs p" "files p1 = files s1" "ID boo < int (length (booMgr_b p1))"
        "booMgr_b p1 = booMgr_b s1" "booMgr_index p1 = booMgr_index s1" "participantVehicleTimeData p1 = participantVehicleTimeData p"
        "same_links p p1"
    using ordering_run [OF assms(1) b assms(3) k assms(4) ready assms(9,10), of d enc] by blast
  note O = fr(1) [unfolded order_frame_def]
  have later: "registry_inv en p'" "pending_ids p' = [?i]" "files p' = files s1" "nget (vgTxMeta_sigs p') ?b j = None" "ID boo < int (length (booMgr_b p'))"
    using O fr assms(7,8) run(4) by (simp_all add: registry_inv_def pending_ids_def)
  have f: "booth f = boo" "hash (OA_snapshot m) = hash f" "booth (OA_snapshot m) = booth f"
    by (simp_all add: assms(9,10) made_entry_def block_of_def snapshot_of_def OA_snapshot_def)
  have "\<exists>st3. commits ky en c cv fuel' j waited boo' ws d' p' (\<lambda>v. (if v \<in> set vs then st2 v else st v)\<lparr>files := files s2\<rparr>) st3
      \<and> (\<forall>v \<in> set ws. v \<in> set vs \<or> v \<in> set (Indices boo') - set (Indices boo) \<longrightarrow>
          (\<exists>g. nget (cmtSnapshot (st3 v)) ?b ?i = Some g \<and> hash g = hash f \<and> tSig g = sg))"
    if at: "moment ky en c fuel' n p' s2 boo' coeffs' ws" for fuel' s2 boo' coeffs' waited
    using committed_later [OF run(5) later(2) at later(1) _ _ _ fr(2) R later(4) assms(4), of coeffs cv st vs "(OA_snapshot m)\<lparr>tSig := sg\<rparr>" st2 waited d']
      later(3,5) k(1) run(6,7) assms(5) f by simp
  moreover have "booMgr_b p' = booMgr_b s1 \<and> booMgr_index p' = booMgr_index s1 \<and> files p' = files s1
    \<and> participantVehicleTimeData p' = participantVehicleTimeData p \<and> concierge p' = concierge p \<and> same_links p p'"
    using O fr by (simp add: same_links_def)
  ultimately show ?thesis using run(1-3,6,7) by blast
qed

section \<open>Witness\<close>

text \<open>The booth of 11, 12 and 13 orders and, the same vehicles being present, commits; 11 and 13 are the ordering quorum, 12 and 13 the
  quorum of the commit.\<close>

lemma fresh_moment:
  "\<exists>s1. moment demo_kyber demo_env fresh_cfg 1 14 fresh_node s1 fresh_booth [0, 0] [11, 13] \<and> booMgr_b s1 = [fresh_booth]
    \<and> booMgr_index s1 = [generateBoothHash demo_env [10, 11, 12, 13] \<mapsto> 0]"
proof -
  obtain s1 where s1: "getBoothID demo_kyber demo_env fresh_cfg 1 fresh_node = Done 0 s1" "booMgr_b s1 = [fresh_booth]"
      "booMgr_index s1 = [generateBoothHash demo_env [10, 11, 12, 13] \<mapsto> 0]"
    and k: "booth_keys demo_kyber [0, 0] 14 fresh_booth 10 (files s1)" using fresh_booth_made [OF fresh_fields(1-3)] by blast
  have "\<forall>ph. members_in_range fresh_cfg fresh_node ph (Indices fresh_booth)"
    using fresh_reachable [OF fresh_fields(2-4) refl same_links_refl] by (simp add: booth_reachable_def)
  then have "moment demo_kyber demo_env fresh_cfg 1 14 fresh_node s1 fresh_booth [0, 0] [11, 13]"
    using s1(1,2) k fresh_quorum fresh_audible [of fresh_node "Indices fresh_booth"] unfolding moment_def fresh_fields
    by (intro conjI exI [of _ 0]) (simp_all add: fresh_booth_def)
  then show ?thesis using s1(2,3) by blast
qed

lemma fresh_moment_again:
  assumes "booth_keys demo_kyber [0, 0] 14 fresh_booth 10 (files p)" "participantVehicleTimeData p = [''100.00'' \<mapsto> [11, 12, 13]]"
    and "booMgr_b p = [fresh_booth]" "booMgr_index p = [generateBoothHash demo_env [10, 11, 12, 13] \<mapsto> 0]" "concierge p = concierge fresh_node"
    and "same_links fresh_node p"
  shows "\<exists>s. moment demo_kyber demo_env fresh_cfg 1 14 p s fresh_booth [0, 0] [12, 13]"
proof -
  have pat: "participants_at demo_env p (clock_reads p) = [11, 12, 13]" using assms(2) by (simp add: participants_at_def demo_env_def)
  have run: "getBoothID demo_kyber demo_env fresh_cfg 1 p = Done 0 (look p)"
    unfolding One_nat_def getBoothID_step pat using assms(4)
    by (simp add: checkExactMatchInBooMgr_def Let_def look_def fresh_cfg_def demo_cfg_def del: getBoothID.simps)
  have look: "booMgr_b (look p) = [fresh_booth]" "files (look p) = files p" using assms(3) by (simp_all add: look_def)
  have "\<forall>ph. members_in_range fresh_cfg fresh_node ph (Indices fresh_booth)"
    using fresh_reachable [OF fresh_fields(2-4) refl same_links_refl] by (simp add: booth_reachable_def)
  then have "members_in_range fresh_cfg p ph (Indices fresh_booth)" for ph using assms(5) by (simp add: members_in_range_def)
  moreover have "quorum [0 :: byte, 0] 14 [12, 13]" by (simp add: quorum_def)
  ultimately have "moment demo_kyber demo_env fresh_cfg 1 14 p (look p) fresh_booth [0, 0] [12, 13]"
    unfolding moment_def look(2) fresh_fields using assms(1) run look(1) fresh_audible [OF assms(6), of "Indices fresh_booth"]
    by (intro conjI exI [of _ 0]) (simp_all add: fresh_booth_def)
  then show ?thesis by blast
qed

theorem batch_committed_witness:
  "\<exists>p1 p' s2 st st3 g. makeAndBroadcast demo_kyber demo_env fresh_cfg 1 (sh_of [fresh_entry]) fresh_node = Done (sh_of []) p1
    \<and> moment demo_kyber demo_env fresh_cfg 1 14 p' s2 fresh_booth [0, 0] [12, 13]
    \<and> commits demo_kyber demo_env fresh_cfg round_cfg 1 0 0 fresh_booth [12, 13] (Dialog CPA 10) p' st st3
    \<and> nget (cmtSnapshot (st3 13)) 10 0 = Some g \<and> hash g = hash (block_of demo_env [fresh_entry] fresh_booth)"
proof -
  obtain s1 where s1: "moment demo_kyber demo_env fresh_cfg 1 14 fresh_node s1 fresh_booth [0, 0] [11, 13]" "booMgr_b s1 = [fresh_booth]"
      "booMgr_index s1 = [generateBoothHash demo_env [10, 11, 12, 13] \<mapsto> 0]" using fresh_moment by blast
  let ?st = "fresh_member (files s1)"
  have new: "\<forall>v \<in> set [11, 13] \<union> set [12, 13]. newcomer demo_env round_cfg ?st (ServerID fresh_cfg) (logIndex fresh_node) 0 v"
    using fresh_member_answers [of _ "files s1"] by (simp add: newcomer_def fresh_fields)
      (simp add: fresh_member_def round_cfg_def demo_cfg_def init_node_def)
  have small: "[fresh_entry] \<noteq> []" "ServerID fresh_cfg < 14" "\<forall>v \<in> set [11, 13]. files (?st v) = files s1"
    by (simp_all add: fresh_fields fresh_member_def)
  have idle: "lastIdx (vgrec fresh_node) = length (blockIDs (vgrec fresh_node))" "nget (vgTxMeta_sigs fresh_node) (ServerID fresh_cfg) 0 = None"
    by (simp_all add: fresh_node_def init_node_def nget_def)
  obtain p1 p' sg st2 where run: "makeAndBroadcast demo_kyber demo_env fresh_cfg 1 (sh_of [fresh_entry]) fresh_node = Done (sh_of []) p1"
      "\<forall>fuel' s2 boo' coeffs' waited. moment demo_kyber demo_env fresh_cfg fuel' 14 p' s2 boo' coeffs' [12, 13] \<longrightarrow>
        (\<exists>st3. commits demo_kyber demo_env fresh_cfg round_cfg fuel' 0 waited boo' [12, 13] (Dialog CPA 10) p'
            (\<lambda>v. (if v \<in> set [11, 13] then st2 v else ?st v)\<lparr>files := files s2\<rparr>) st3
          \<and> (\<forall>v \<in> set [12, 13]. v \<in> set [11, 13] \<or> v \<in> set (Indices boo') - set (Indices fresh_booth) \<longrightarrow>
              (\<exists>g. nget (cmtSnapshot (st3 v)) (ServerID fresh_cfg) (logIndex fresh_node) = Some g
                \<and> hash g = hash (block_of demo_env [fresh_entry] fresh_booth) \<and> tSig g = sg)))"
      and at: "booMgr_b p' = booMgr_b s1" "booMgr_index p' = booMgr_index s1" "files p' = files s1"
        "participantVehicleTimeData p' = participantVehicleTimeData fresh_node" "concierge p' = concierge fresh_node" "same_links fresh_node p'"
    using batch_committed [OF fresh_reachable [OF fresh_fields(2-4) refl same_links_refl] s1(1) small(1,2) new small(3) idle refl refl,
        of "Dialog OPA 10" None "Dialog CPA 10"] by blast
  have "booth_keys demo_kyber [0, 0] 14 fresh_booth 10 (files p')" using s1(1) unfolding at(3) by (simp add: moment_def fresh_fields)
  then obtain s2 where s2: "moment demo_kyber demo_env fresh_cfg 1 14 p' s2 fresh_booth [0, 0] [12, 13]"
    using fresh_moment_again [of p'] s1(2,3) at(6) unfolding at(1-5) fresh_fields by blast
  from run(2) [rule_format, OF s2, of 0] obtain st3 g where
    "commits demo_kyber demo_env fresh_cfg round_cfg 1 0 0 fresh_booth [12, 13] (Dialog CPA 10) p'
        (\<lambda>v. (if v \<in> set [11, 13] then st2 v else ?st v)\<lparr>files := files s2\<rparr>) st3"
    "nget (cmtSnapshot (st3 13)) 10 0 = Some g" "hash g = hash (block_of demo_env [fresh_entry] fresh_booth)"
    unfolding fresh_fields by auto
  then show ?thesis using run(1) s2 by blast
qed

end
