(* ===== verification/Detours.thy ===== *)
theory Detours
  imports Rounds
begin

text \<open>
  Taking part by detour: a member of a booth that the proposer does not hear gets its messages from another proposer, which
  relays them, and its votes and certificates go the same way. Four processes' handlers follow one another here: the
  broadcast of \<open>mmu.go\<close>, the relay of \<open>connsprop.go\<close>, the receive loops and the validation of \<open>connsvldr.go\<close> and
  \<open>comply.go\<close>, and the forwarding of \<open>connsprop.go\<close> on the way back.
\<close>

section \<open>To the member\<close>

text \<open>A member whose messages the proposer always hands to \<open>q\<close>.\<close>

definition detoured_member :: "env \<Rightarrow> cfg \<Rightarrow> node \<Rightarrow> phase \<Rightarrow> int \<Rightarrow> int \<Rightarrow> int \<Rightarrow> bool" where
  "detoured_member en c p ph b q v \<longleftrightarrow> \<not> broadcastError p \<and> 0 \<le> b \<and> b < int (length (booMgr_b p))
     \<and> v \<in> set (Indices (booMgr_b p ! nat b)) \<and> v \<noteq> ServerID c \<and> registered_at p ph q
     \<and> (\<exists>R. steady_routes en c p ph R (Indices (booMgr_b p ! nat b)) \<and> R v = (True, q))"

lemma detoured_broadcast:
  assumes "detoured_member en c p ph b q v"
  shows "\<exists>p'. broadcastToBoothWithComCheck en c e ph b p = Done () p' \<and> net_frame p p'
    \<and> (\<exists>g. outbox p' = outbox p @ g \<and> (Concierge ph q, Between e (ServerID c) v ph) \<in> set g)"
proof -
  obtain R where R: "steady_routes en c p ph R (Indices (booMgr_b p ! nat b))" "R v = (True, q)"
    using assms by (auto simp: detoured_member_def)
  let ?g = "concat (map (sent_over c p ph e R) (Indices (booMgr_b p ! nat b)))"
  obtain p' where p': "broadcastToBoothWithComCheck en c e ph b p = Done () p'" "log_step en (\<lambda>_. True) ?g p p'"
    using broadcastToBoothWithComCheck_steady [OF _ _ _ R(1)] assms by (auto simp: detoured_member_def)
  have "sent_over c p ph e R v = [(Concierge ph q, Between e (ServerID c) v ph)]"
    using assms R(2) by (auto simp: sent_over_def detoured_member_def registered_at_def)
  then have "(Concierge ph q, Between e (ServerID c) v ph) \<in> set ?g" using assms by (force simp: detoured_member_def)
  then show ?thesis using p' log_step_frame [OF p'(2)] log_step_outbox [OF p'(2)] by blast
qed

text \<open>A proposer that hears the member passes the message on as it was.\<close>

definition passes_to :: "env \<Rightarrow> cfg \<Rightarrow> node \<Rightarrow> phase \<Rightarrow> int \<Rightarrow> bool" where
  "passes_to en c q ph v \<longleftrightarrow> v \<in> set (heard_by q (ServerID c) (key_at en q (clock_reads q))) \<and> registered_at q ph v"

lemma relay_passes:
  assumes "passes_to en c q ph v"
  shows "\<exists>q'. relayBetweenProposerMessage en c ph [Received (e, sender, v, ph')] q = Blocked q' \<and> net_frame q q'
    \<and> outbox q' = outbox q @ [(Concierge ph v, e)]"
proof -
  obtain q' where "relay_one en c ph (Message (Between e sender v ph')) (Sender (Between e sender v ph')) (Recipient (Between e sender v ph')) (Phase (Between e sender v ph')) q = Done () q'"
    "log_step en (\<lambda>_. True) [(Concierge ph v, e)] q q'"
    using relay_unwraps [of v q c en ph "Between e sender v ph'" e sender ph'] assms by (auto simp: passes_to_def registered_at_def)
  then show ?thesis using log_step_frame log_step_outbox by fastforce
qed

section \<open>At the member\<close>

lemma OA_received:
  assumes "dialogMgr s OPA q \<noteq> None" "dialogMgr s OPB q \<noteq> None"
  shows "receivingOADialMessages en q [Received m] s = Done \<lparr>running = True, jobs = [Validate_OA m (Some (Dialog OPB q))], held = 0\<rparr> (look s)"
  using assms by (auto simp: receivingOADialMessages_def dialog_encoder_def dialog_dec_def look_def)

lemma OB_received:
  assumes "dialogMgr s OPB q \<noteq> None"
  shows "receivingOBDialMessages en q [Received m] s
    = Done \<lparr>running = True, jobs = [Validate_OB m (map_option (\<lambda>_. Dialog CPA q) (dialogMgr s CPA q))], held = 0\<rparr> s"
  using assms by (auto simp: receivingOBDialMessages_def dialog_encoder_def dialog_dec_def)

text \<open>A member that has not seen the block, and answers through \<open>q\<close>.\<close>

definition member_over :: "env \<Rightarrow> cfg \<Rightarrow> node \<Rightarrow> fs \<Rightarrow> int \<Rightarrow> int64 \<Rightarrow> int \<Rightarrow> bool" where
  "member_over en c s fs b i q \<longleftrightarrow> answers_over en c s b OPA q \<and> dialogMgr s OPA q \<noteq> None \<and> dialogMgr s OPB q \<noteq> None \<and> files s = fs
     \<and> nget (ordSnapshot s) b i = None \<and> nget (valiOrdJobStack s) b i = None"

lemma member_answers_over:
  assumes "booth_keys ky coeffs n (opa_Booth m) (opa_BlockchainId m) (files s)" "0 \<le> ServerID c" "ServerID c < n"
    and "member_over en c s (files s) (opa_BlockchainId m) (opa_BlockId m) q"
  shows "validatingOAEntry ky en c m e s = Done () (OA_replied en c m (Dialog OPB q) (share_sig ky coeffs n (opa_Hash m) (ServerID c)) s)"
proof (rule OA_run_reply)
  show "fetchKeysByBoothId ky (getThreshold (int (length (Indices (opa_Booth m))))) (ServerID c) (ID (opa_Booth m)) (opa_BlockchainId m) s
      = Done (key_pub ky coeffs, evalShares ky coeffs n ! nat (ServerID c)) s"
    by (rule booth_keys_fetch [OF assms(1-3)]) simp
  show "reply_to en c r e (opa_BlockchainId m) OPA OPB (OA_stored m s) = Done () (replied en c (Dialog OPB q) r (OA_stored m s))" for r
    by (rule reply_to_over) (use assms(4) in \<open>simp_all add: member_over_def answers_over_links [OF OA_stored_links(1)] OA_stored_links(2)\<close>)
qed (use assms(4) booth_keys_sign [OF assms(1)] in \<open>simp_all add: member_over_def\<close>)

lemma member_over_look: "member_over en c (look s) fs b i q \<longleftrightarrow> member_over en c s fs b i q"
  by (simp add: member_over_def answers_over_def look_def hears_def key_at_def)

section \<open>There and back\<close>

lemma registered_at_frame: "net_frame s t \<Longrightarrow> registered_at t ph v \<longleftrightarrow> registered_at s ph v"
  by (simp add: registered_at_def net_frame_fields)

lemma net_frame_owner: "net_frame s t \<Longrightarrow> blockchainInfo t = blockchainInfo s"
  unfolding net_frame_ex by auto

text \<open>A proposer that can forward the votes of \<open>v\<close> for chain \<open>b\<close> to its owner \<open>p\<close>.\<close>

definition forwards :: "cfg \<Rightarrow> node \<Rightarrow> int \<Rightarrow> int \<Rightarrow> int \<Rightarrow> bool" where
  "forwards c q b v p \<longleftrightarrow> registered_at q OPB v \<and> nget (blockchainInfo q) b OPB = Some p \<and> p \<noteq> ServerID c \<and> dialogMgr q OPB p \<noteq> None"

lemma vote_forwarded:
  assumes "forwards c q (opar_BlockchainId r) v p" "net_frame q q1"
  shows "\<exists>q2. handleOPBConns en c v [Received r] q1 = Done \<lparr>running = True, jobs = [], held = 1\<rparr> q2
    \<and> outbox q2 = outbox q1 @ [(Dialog OPB p, Between (OPAReply r) v p OPB)]"
  by (rule handleOPBConns_forward)
    (use assms(1) in \<open>simp_all add: forwards_def registered_at_frame [OF assms(2)] net_frame_owner [OF assms(2)] net_frame_fields(3) [OF assms(2)]\<close>)

lemma detoured_vote_run:
  assumes p: "detoured_member en cp p OPA b (ServerID cq) (ServerID cv)" "registered_at p OPB (ServerID cq)"
    and q: "passes_to en cq q OPA (ServerID cv)" "forwards cq q (opa_BlockchainId m) (ServerID cv) (ServerID cp)"
    and v: "booth_keys ky coeffs n (opa_Booth m) (opa_BlockchainId m) (files v)" "0 \<le> ServerID cv" "ServerID cv < n"
      "member_over en cv v (files v) (opa_BlockchainId m) (opa_BlockId m) (ServerID cq)"
    and r: "r = opa_reply (opa_BlockchainId m) (opa_BlockId m) (share_sig ky coeffs n (opa_Hash m) (ServerID cv))"
  shows "\<exists>p1 g q1 v1 v2 q2 p2.
      broadcastToBoothWithComCheck en cp (OPAEntry m) OPA b p = Done () p1
    \<and> outbox p1 = outbox p @ g \<and> (Concierge OPA (ServerID cq), Between (OPAEntry m) (ServerID cp) (ServerID cv) OPA) \<in> set g
    \<and> relayBetweenProposerMessage en cq OPA [Received (OPAEntry m, ServerID cp, ServerID cv, OPA)] q = Blocked q1
    \<and> outbox q1 = outbox q @ [(Concierge OPA (ServerID cv), OPAEntry m)]
    \<and> receivingOADialMessages en (ServerID cq) [Received m] v
        = Done \<lparr>running = True, jobs = [Validate_OA m (Some (Dialog OPB (ServerID cq)))], held = 0\<rparr> v1
    \<and> run_job ky en cv visit (Validate_OA m (Some (Dialog OPB (ServerID cq)))) v1 = Done () v2
    \<and> outbox v2 = outbox v @ [(Dialog OPB (ServerID cq), OPAReply r)]
    \<and> nget (cmtSnapshot v2) (opa_BlockchainId m) (opa_BlockId m) = Some (OA_snapshot m)
    \<and> handleOPBConns en cq (ServerID cv) [Received r] q1 = Done \<lparr>running = True, jobs = [], held = 1\<rparr> q2
    \<and> outbox q2 = outbox q1 @ [(Dialog OPB (ServerID cp), Between (OPAReply r) (ServerID cv) (ServerID cp) OPB)]
    \<and> handleProposerOPBConns en (ServerID cq) [Received (OPAReply r, ServerID cv, ServerID cp, OPB)] p1
        = Done \<lparr>running = True, jobs = [Async_OBReply r (ServerID cv)], held = 0\<rparr> p2"
proof -
  let ?d = "Dialog OPB (ServerID cq)" and ?sig = "share_sig ky coeffs n (opa_Hash m) (ServerID cv)"
  obtain p1 g where P: "broadcastToBoothWithComCheck en cp (OPAEntry m) OPA b p = Done () p1" "net_frame p p1"
      "outbox p1 = outbox p @ g" "(Concierge OPA (ServerID cq), Between (OPAEntry m) (ServerID cp) (ServerID cv) OPA) \<in> set g"
    using detoured_broadcast [OF p(1), of "OPAEntry m"] by blast
  obtain q1 where Q: "relayBetweenProposerMessage en cq OPA [Received (OPAEntry m, ServerID cp, ServerID cv, OPA)] q = Blocked q1"
      "net_frame q q1" "outbox q1 = outbox q @ [(Concierge OPA (ServerID cv), OPAEntry m)]"
    using relay_passes [OF q(1), of "OPAEntry m" "ServerID cp" OPA] by blast
  have V: "receivingOADialMessages en (ServerID cq) [Received m] v = Done \<lparr>running = True, jobs = [Validate_OA m (Some ?d)], held = 0\<rparr> (look v)"
    by (rule OA_received) (use v(4) in \<open>simp_all add: member_over_def\<close>)
  have vote: "run_job ky en cv visit (Validate_OA m (Some ?d)) (look v) = Done () (OA_replied en cv m ?d ?sig (look v))"
    using member_answers_over [where s = "look v" and e = "Some ?d", OF _ v(2,3)] v(1,4) by (simp add: run_job_def member_over_look) (simp add: look_def)
  have reply: "outbox (OA_replied en cv m ?d ?sig (look v)) = outbox v @ [(?d, OPAReply r)]"
    unfolding OA_replied_fields(3) by (simp add: r opa_reply_def outbox_def look_fields)
  have "forwards cq q (opar_BlockchainId r) (ServerID cv) (ServerID cp)" using q(2) by (simp add: r opa_reply_def)
  from vote_forwarded [OF this Q(2)] obtain q2 where Q2:
      "handleOPBConns en cq (ServerID cv) [Received r] q1 = Done \<lparr>running = True, jobs = [], held = 1\<rparr> q2"
      "outbox q2 = outbox q1 @ [(Dialog OPB (ServerID cp), Between (OPAReply r) (ServerID cv) (ServerID cp) OPB)]" by blast
  obtain p2 where "handleProposerOPBConns en (ServerID cq) [Received (OPAReply r, ServerID cv, ServerID cp, OPB)] p1
      = Done \<lparr>running = True, jobs = [Async_OBReply r (ServerID cv)], held = 0\<rparr> p2"
    using handleProposerOPBConns_run [of p1 "ServerID cq"] p(2) by (simp add: registered_at_frame [OF P(2)]) blast
  then show ?thesis
    using P(1,3,4) Q(1,3) V vote reply OA_replied_fields(2) [of en cv m ?d ?sig "look v"] Q2 by (intro exI conjI)
qed

text \<open>C17: A member of the booth that the proposer does not hear takes part in an ordering instance through another proposer. The
  proposer's broadcast hands the entry, wrapped, to the first proposer the member can talk to; that
  proposer hears the member and passes the entry on as it was; the member starts one handler for it,
  which keeps the block and sends one signature, under its own share, to the proposer in between;
  this wraps it for the owner of the chain and starts no handler itself; and the owner starts the
  handler of a vote of the member, as if the vote had come from it. The proposer in between ends with a read
  lock of \<open>dialogMgr\<close> that is not released.\<close>

theorem detoured_vote:
  assumes p: "detoured_member en cp p OPA b (ServerID cq) (ServerID cv)" "registered_at p OPB (ServerID cq)"
    and q: "passes_to en cq q OPA (ServerID cv)" "forwards cq q (opa_BlockchainId m) (ServerID cv) (ServerID cp)"
    and v: "booth_keys ky coeffs n (opa_Booth m) (opa_BlockchainId m) (files v)" "0 \<le> ServerID cv" "ServerID cv < n"
      "member_over en cv v (files v) (opa_BlockchainId m) (opa_BlockId m) (ServerID cq)"
    and r: "r = opa_reply (opa_BlockchainId m) (opa_BlockId m) (share_sig ky coeffs n (opa_Hash m) (ServerID cv))"
  shows "\<exists>p1 g q1 v1 v2 q2 p2.
      broadcastToBoothWithComCheck en cp (OPAEntry m) OPA b p = Done () p1
    \<and> outbox p1 = outbox p @ g \<and> (Concierge OPA (ServerID cq), Between (OPAEntry m) (ServerID cp) (ServerID cv) OPA) \<in> set g
    \<and> relayBetweenProposerMessage en cq OPA [Received (OPAEntry m, ServerID cp, ServerID cv, OPA)] q = Blocked q1
    \<and> outbox q1 = outbox q @ [(Concierge OPA (ServerID cv), OPAEntry m)]
    \<and> receivingOADialMessages en (ServerID cq) [Received m] v
        = Done \<lparr>running = True, jobs = [Validate_OA m (Some (Dialog OPB (ServerID cq)))], held = 0\<rparr> v1
    \<and> run_job ky en cv visit (Validate_OA m (Some (Dialog OPB (ServerID cq)))) v1 = Done () v2
    \<and> outbox v2 = outbox v @ [(Dialog OPB (ServerID cq), OPAReply r)]
    \<and> nget (cmtSnapshot v2) (opa_BlockchainId m) (opa_BlockId m) = Some (OA_snapshot m)
    \<and> handleOPBConns en cq (ServerID cv) [Received r] q1 = Done \<lparr>running = True, jobs = [], held = 1\<rparr> q2
    \<and> outbox q2 = outbox q1 @ [(Dialog OPB (ServerID cp), Between (OPAReply r) (ServerID cv) (ServerID cp) OPB)]
    \<and> handleProposerOPBConns en (ServerID cq) [Received (OPAReply r, ServerID cv, ServerID cp, OPB)] p1
        = Done \<lparr>running = True, jobs = [Async_OBReply r (ServerID cv)], held = 0\<rparr> p2"
  by (rule detoured_vote_run [OF p q v r])

text \<open>The certificate comes the same way, and the member attaches it to the block it kept.\<close>

theorem detoured_certificate:
  assumes p: "detoured_member en cp p OPB b (ServerID cq) (ServerID cv)" and q: "passes_to en cq q OPB (ServerID cv)"
    and v: "booth_keys ky coeffs n (opb_Booth e) (opb_BlockchainId e) (files v)" "0 \<le> ServerID cv" "ServerID cv < n" "dialogMgr v OPB (ServerID cq) \<noteq> None"
    and block: "nget (ordSnapshot v) (opb_BlockchainId e) (opb_BlockId e) = Some f" "nget (cmtSnapshot v) (opb_BlockchainId e) (opb_BlockId e) = Some g"
    and cert: "PenVerify ky (opb_Hash e) (opb_CombSig e) (key_pub ky coeffs)"
  shows "\<exists>p1 h q1 j v1.
      broadcastToBoothWithComCheck en cp (OPBEntry e) OPB b p = Done () p1
    \<and> outbox p1 = outbox p @ h \<and> (Concierge OPB (ServerID cq), Between (OPBEntry e) (ServerID cp) (ServerID cv) OPB) \<in> set h
    \<and> relayBetweenProposerMessage en cq OPB [Received (OPBEntry e, ServerID cp, ServerID cv, OPB)] q = Blocked q1
    \<and> outbox q1 = outbox q @ [(Concierge OPB (ServerID cv), OPBEntry e)]
    \<and> receivingOBDialMessages en (ServerID cq) [Received e] v = Done \<lparr>running = True, jobs = [j], held = 0\<rparr> v
    \<and> run_job ky en cv visit j v = Done () v1
    \<and> nget (cmtSnapshot v1) (opb_BlockchainId e) (opb_BlockId e) = Some (g\<lparr>tSig := opb_CombSig e\<rparr>)"
proof -
  let ?j = "Validate_OB e (map_option (\<lambda>_. Dialog CPA (ServerID cq)) (dialogMgr v CPA (ServerID cq)))"
  let ?v1 = "v\<lparr>cmtSnapshot := nset (cmtSnapshot v) (opb_BlockchainId e) (opb_BlockId e) (g\<lparr>tSig := opb_CombSig e\<rparr>)\<rparr>"
  have "fetchKeysByBoothId ky (getThreshold (int (length (Indices (opb_Booth e))))) (ServerID cv) (ID (opb_Booth e)) (opb_BlockchainId e) v
      = Done (key_pub ky coeffs, evalShares ky coeffs n ! nat (ServerID cv)) v"
    by (rule booth_keys_fetch [OF v(1-3)]) simp
  from OB_run [OF this cert block] have "run_job ky en cv visit ?j v = Done () ?v1" by (simp add: run_job_def)
  moreover have "nget (cmtSnapshot ?v1) (opb_BlockchainId e) (opb_BlockId e) = Some (g\<lparr>tSig := opb_CombSig e\<rparr>)" by simp
  ultimately show ?thesis
    using detoured_broadcast [OF p, of "OPBEntry e"] relay_passes [OF q, of "OPBEntry e" "ServerID cp" OPB] OB_received [OF v(4), of en e] by blast
qed

section \<open>Witnesses\<close>

text \<open>Proposer 10 does not hear vehicle 13, which can talk to proposer 9 only; proposer 9 hears it.\<close>

definition via_cfg :: "int \<Rightarrow> cfg" where
  "via_cfg i = demo_cfg\<lparr>ServerID := i, EvaluateComPossibilityFlag := True, AllowBypassRoute := True\<rparr>"

definition via_node :: "fs \<Rightarrow> node" where
  "via_node fs = init_node\<lparr>files := fs, booMgr_b := [\<lparr>ID = 3, Indices = [10, 11, 13]\<rparr>],
     blockchainInfo := [10 \<mapsto> (\<lambda>_. Some 10)], dialogMgr := (\<lambda>ph p. Some \<lparr>SID = p, remote = []\<rparr>),
     concierge := (\<lambda>_. replicate 14 (Some \<lparr>SID = 0, remote = []\<rparr>)),
     proToValComTimeMap := [10 \<mapsto> [''100.00'' \<mapsto> [11]], 9 \<mapsto> [''100.00'' \<mapsto> [13]]], valToProComTimeMap := [13 \<mapsto> [''100.00'' \<mapsto> [9]]]\<rparr>"

lemmas via_defs = via_cfg_def via_node_def demo_cfg_def demo_env_def init_node_def heard_by_def hears_def key_at_def nget_def registered_at_def

lemma via_detoured: "detoured_member demo_env (via_cfg 10) (via_node fs) ph 0 9 13"
proof -
  have "steady_routes demo_env (via_cfg 10) (via_node fs) ph (\<lambda>i. if i = 13 then (True, 9) else (False, i)) [10, 11, 13]"
    by (simp add: steady_routes_def route_def via_defs)
  then show ?thesis unfolding detoured_member_def
    by (intro conjI exI [of _ "\<lambda>i. if i = 13 then (True, 9) else (False, i)"]) (simp_all add: via_defs)
qed

lemma via_member: "member_over demo_env (via_cfg 13) (via_node fs) fs 10 i 9"
  by (simp add: member_over_def answers_over_def via_defs)

lemma via_passes: "passes_to demo_env (via_cfg 9) (via_node fs) ph 13" "forwards (via_cfg 9) (via_node fs) 10 13 10" "registered_at (via_node fs) ph 9"
  by (simp_all add: passes_to_def forwards_def via_defs)

theorem detoured_vote_witness:
  "\<exists>fs p1 g q1 v1 v2 q2 p2 r. broadcastToBoothWithComCheck demo_env (via_cfg 10) (OPAEntry vali_OA) OPA 0 (via_node fs) = Done () p1
    \<and> outbox p1 = outbox (via_node fs) @ g \<and> (Concierge OPA 9, Between (OPAEntry vali_OA) 10 13 OPA) \<in> set g
    \<and> relayBetweenProposerMessage demo_env (via_cfg 9) OPA [Received (OPAEntry vali_OA, 10, 13, OPA)] (via_node fs) = Blocked q1
    \<and> receivingOADialMessages demo_env 9 [Received vali_OA] (via_node fs) = Done \<lparr>running = True, jobs = [Validate_OA vali_OA (Some (Dialog OPB 9))], held = 0\<rparr> v1
    \<and> validatingOAEntry demo_kyber demo_env (via_cfg 13) vali_OA (Some (Dialog OPB 9)) v1 = Done () v2
    \<and> outbox v2 = outbox (via_node fs) @ [(Dialog OPB 9, OPAReply r)]
    \<and> handleOPBConns demo_env (via_cfg 9) 13 [Received r] q1 = Done \<lparr>running = True, jobs = [], held = 1\<rparr> q2
    \<and> handleProposerOPBConns demo_env 9 [Received (OPAReply r, 13, 10, OPB)] p1 = Done \<lparr>running = True, jobs = [Async_OBReply r 13], held = 0\<rparr> p2"
proof -
  obtain fs where k: "booth_keys demo_kyber [7, 9] 14 vali_booth 10 fs" using round_keys by blast
  have id: "ServerID (via_cfg i) = i" for i by (simp add: via_cfg_def)
  have m: "opa_Booth vali_OA = vali_booth" "opa_BlockchainId vali_OA = 10" by (simp_all add: vali_OA_def)
  have fs: "files (via_node fs) = fs" by (simp add: via_node_def)
  have job: "run_job demo_kyber demo_env (via_cfg 13) id (Validate_OA vali_OA d) = validatingOAEntry demo_kyber demo_env (via_cfg 13) vali_OA d" for d
    by (simp add: run_job_def)
  have p: "detoured_member demo_env (via_cfg 10) (via_node fs) OPA 0 (ServerID (via_cfg 9)) (ServerID (via_cfg 13))" "registered_at (via_node fs) OPB (ServerID (via_cfg 9))"
    and q: "passes_to demo_env (via_cfg 9) (via_node fs) OPA (ServerID (via_cfg 13))"
      "forwards (via_cfg 9) (via_node fs) (opa_BlockchainId vali_OA) (ServerID (via_cfg 13)) (ServerID (via_cfg 10))"
    and v: "booth_keys demo_kyber [7, 9] 14 (opa_Booth vali_OA) (opa_BlockchainId vali_OA) (files (via_node fs))"
      "0 \<le> ServerID (via_cfg 13)" "ServerID (via_cfg 13) < 14"
      "member_over demo_env (via_cfg 13) (via_node fs) (files (via_node fs)) (opa_BlockchainId vali_OA) (opa_BlockId vali_OA) (ServerID (via_cfg 9))"
    using via_detoured via_passes via_member k by (simp_all only: id m fs)
  from detoured_vote [OF p q v refl, of id] show ?thesis unfolding id m job by blast
qed

end
