(* ===== verification/Races.thy ===== *)
theory Races
  imports Commits
begin

text \<open>
  A race between the two phases at the proposer: \<open>asyncHandleOBReply\<close> of \<open>vordering.go\<close> records a block as ordered before it
  stores the certificate of the block, under another lock, and the consensus loop may take its turn in between.
\<close>

section \<open>A commit entry with certificates that do not verify\<close>

lemma unverified_skipped:
  assumes "\<forall>e \<in> set es. \<exists>pub pri. fetchKeysByBoothId ky (getThreshold (int (length (Indices (opb_Booth e))))) (ServerID c) (ID (opb_Booth e)) (opb_BlockchainId e) s
      = Done (pub, pri) s \<and> \<not> PenVerify ky (opb_Hash e) (opb_CombSig e) pub"
  shows "forG es (\<lambda>e. validatingOBEntry ky c e None) s = Done () s"
  using assms
proof (induction es)
  case (Cons e es)
  then have "validatingOBEntry ky c e None s = Done () s" by (auto simp: validatingOBEntry_def)
  then show ?case using Cons by simp
qed simp

text \<open>A validator that has none of the blocks of a range, and can use none of the certificates, signs the range.\<close>

lemma CA_blind:
  assumes prev: "\<forall>e \<in> set (cpa_PrevOPBEntries m). \<exists>pub pri. fetchKeysByBoothId ky (getThreshold (int (length (Indices (opb_Booth e))))) (ServerID c) (ID (opb_Booth e)) (opb_BlockchainId e) s
      = Done (pub, pri) s \<and> \<not> PenVerify ky (opb_Hash e) (opb_CombSig e) pub"
    and ids: "cpa_BIDs m \<noteq> []" and none: "\<forall>i \<in> set (cpa_BIDs m). nget (cmtSnapshot s) (cpa_BlockchainId m) i = None"
    and keys: "fetchKeysByBoothId ky (getThreshold (int (length (Indices (cpa_Booth m))))) (ServerID c) (ID (cpa_Booth m)) (cpa_BlockchainId m) s = Done (pub, pri) s"
    and sig: "PenSign ky (cpa_TotalHash m) pri = Some sig" and direct: "answers en c s (cpa_BlockchainId m) CPA"
    and job: "nget (valiConsJobStack s) (cpa_BlockchainId m) (cpa_ConsInstID m) \<in> {None, Some 0}"
  shows "\<exists>t. validatingCAEntry ky en c m (Some d) s = Done () t
    \<and> outbox t = outbox s @ [(d, CPAReply \<lparr>cpar_BlockchainId = cpa_BlockchainId m, cpar_ConsInstID = cpa_ConsInstID m, cpar_ParSig = sig\<rparr>)]
    \<and> cmtSnapshot t = cmtSnapshot s"
proof -
  let ?b = "cpa_BlockchainId m" and ?i = "cpa_ConsInstID m" and ?s = "tx_reset m s"
  have "\<forall>e \<in> set (cpa_PrevOPBEntries m). \<exists>pub pri. fetchKeysByBoothId ky (getThreshold (int (length (Indices (opb_Booth e))))) (ServerID c) (ID (opb_Booth e)) (opb_BlockchainId e) ?s
      = Done (pub, pri) ?s \<and> \<not> PenVerify ky (opb_Hash e) (opb_CombSig e) pub"
    using prev fetchKeys_files [where s' = ?s] by (fastforce simp: tx_reset_def)
  from unverified_skipped [OF this] have skip: "forG (cpa_PrevOPBEntries m) (\<lambda>e. validatingOBEntry ky c e None) ?s = Done () ?s" .
  have "nget (vgTxData_tx ?s) ?b ?i \<noteq> None" by (simp add: tx_reset_def)
  moreover have "\<forall>j \<in> set (cpa_BIDs m). range_matches m ?s j \<and> (\<forall>f. nget (cmtSnapshot ?s) ?b j = Some f \<longrightarrow> Indices (booth f) \<noteq> [])"
    using none by (simp add: range_matches_def tx_reset_def)
  ultimately obtain u where u: "whileG (cpa_BIDs m) (CA_block en m) () ?s = Done (Some ()) u" "data_frame ?s u"
    using CA_loop_run [of ?s m "cpa_BIDs m" en] by metis
  note F = data_frame_fields [OF u(2)]
  have k: "fetchKeysByBoothId ky (getThreshold (int (length (Indices (cpa_Booth m))))) (ServerID c) (ID (cpa_Booth m)) ?b u = Done (pub, pri) u"
    by (rule fetchKeys_files [OF keys]) (simp add: F tx_reset_def)
  have "same_links s ?s" by (simp add: same_links_def tx_reset_def)
  from same_links_trans [OF this F(15)] have dir: "answers en c u ?b CPA" using direct by (simp add: answers_links)
  have "validatingCAEntry ky en c m (Some d) s = CA_sign ky en c m (Some d) u"
    using skip ids u(1) by (simp add: validatingCAEntry_def tx_reset_def)
  moreover have "outbox u = outbox s" "cmtSnapshot u = cmtSnapshot s" by (simp_all add: outbox_def F tx_reset_def)
  ultimately show ?thesis using CA_sign_run [OF k sig dir] job by (fastforce simp: F tx_reset_def)
qed

section \<open>The turn between the record and the certificate\<close>

lemma recorded:
  assumes "ob_record en c r p = Done () p0" "booth_reachable en c p boo" "recorder_inv (vgrec p)" "pending_ids p = []"
  shows "booth_reachable en c p0 boo" "pending_ids p0 = [opar_BlockId r]" "cmtSnapshot p0 = cmtSnapshot p" "vgTxMeta_sigs p0 = vgTxMeta_sigs p"
    "concierge p0 = concierge p" "sent p0 = sent p"
proof -
  have R: "vgrec p0 = rec_Add (opar_BlockId r) (vgrec p)" "cmtSnapshot p0 = cmtSnapshot p" "booth_view p p0"
    using ob_record_run [of c en r p] assms(1,2) by (auto simp: booth_reachable_def)
  then have v: "booMgr_b p0 = booMgr_b p" "concierge p0 = concierge p" "broadcastError p0 = broadcastError p" "sent p0 = sent p"
      "booMgr_index p0 = booMgr_index p" "vgTxMeta_sigs p0 = vgTxMeta_sigs p" "same_links p p0"
    by (simp_all add: booth_view_def)
  show "booth_reachable en c p0 boo"
    using assms(2) by (simp add: booth_reachable_def registry_inv_def members_in_range_def v(1-6) audible_links [OF v(7)])
  show "pending_ids p0 = [opar_BlockId r]"
    using assms(3,4) by (simp add: pending_ids_def R(1) rec_Add_def recorder_inv_def)
  show "cmtSnapshot p0 = cmtSnapshot p" "vgTxMeta_sigs p0 = vgTxMeta_sigs p" "concierge p0 = concierge p" "sent p0 = sent p"
    by (rule R v)+
qed

lemma unseen_block_run:
  assumes turn: "ob_record en c r p = Done () p0" "getBoothID ky en c fuel p0 = Done bid s1" "boo = booMgr_b s1 ! nat bid" "booth_reachable en c p boo"
    and block: "r = opa_reply (ServerID c) i x" "nget (cmtSnapshot p) (ServerID c) i = Some f" "tSig f = []" "Indices (booth f) \<noteq> []"
      "recorder_inv (vgrec p)" "pending_ids p = []" "nget (vgTxMeta_sigs p) (ServerID c) j = None"
    and member: "v \<in> set (members_to_send c p CPA (Indices boo))" "v \<notin> set (Indices (booth f))" "ServerID cv = v" "files st = files s1"
      "nget (cmtSnapshot st) (ServerID c) i = None" "answers en cv st (ServerID c) CPA" "nget (valiConsJobStack st) (ServerID c) j \<in> {None, Some 0}"
    and keys: "booth_keys ky coeffs n boo (ServerID c) (files s1)" "0 \<le> v" "v < n" "readable ky n (booth f) (ServerID c) pub (files s1)"
      "\<not> PenVerify ky (hash f) [] pub"
  shows "\<exists>p1 g m st' sig p2. consensus_step ky en c fuel j waited p0 = Done (Again (j + 1) waited) p1
    \<and> outbox p1 = outbox p @ g \<and> (Concierge CPA v, CPAEntry m) \<in> set g \<and> cpa_BIDs m = [i] \<and> map opb_CombSig (cpa_PrevOPBEntries m) = [[]]
    \<and> validatingCAEntry ky en cv m (Some d) st = Done () st' \<and> outbox st' = outbox st @ [(d, CPAReply (cpa_reply (ServerID c) j sig))]
    \<and> nget (cmtSnapshot st') (ServerID c) i = None
    \<and> ob_store r sg p1 = Done () p2 \<and> nget (cmtSnapshot p2) (ServerID c) i = Some (f\<lparr>tSig := sg\<rparr>) \<and> pending_ids p2 = []"
proof -
  let ?b = "ServerID c" and ?m = "member_entry en c j boo p0 v"
  note P = recorded [OF turn(1,4) block(5,6)]
  have i: "opar_BlockId r = i" "opar_BlockchainId r = ?b" by (simp_all add: block(1) opa_reply_def)
  have found: "found_blocks c p0 (pending_ids p0) = [(i, f)]" using block(2) by (simp add: P(2,3) i found_blocks_def)
  then have "range_found c p0" using block(4) by (simp add: range_found_def P(2))
  from made_commit [OF P(1) turn(2,3) this, of j waited]
  obtain p1 where p1: "consensus_step ky en c fuel j waited p0 = Done (Again (j + 1) waited) p1" "cmtSnapshot p1 = cmtSnapshot p0" "pending_ids p1 = []"
      "outbox p1 = outbox p0 @ map (\<lambda>v. (Concierge CPA v, CPAEntry (member_entry en c j boo p0 v))) (members_to_send c p0 CPA (Indices boo))"
    using block(7) P(4) by auto
  have boo: "v \<in> set (Indices boo)" using member(1) by (simp add: members_to_send_def)
  then have "new_member c boo p0 v" "lacking boo f" using member(2) by (auto simp: new_member_def found lacking_def)
  then have resent: "cpa_PrevOPBEntries ?m = [resent_entry ?b i f]" by (simp add: member_entry_fields unseen_def found)
  have M: "cpa_Booth ?m = boo" "cpa_BlockchainId ?m = ?b" "cpa_BIDs ?m = [i]" "cpa_ConsInstID ?m = j"
    by (simp_all add: member_entry_fields P(2) i)
  obtain pri where pri: "fetchKeysByBoothId ky (getThreshold (int (length (Indices (booth f))))) v (ID (booth f)) ?b st = Done (pub, pri) st"
    using keys(2-4) member(4) unfolding readable_def by blast
  have "\<exists>t. validatingCAEntry ky en cv ?m (Some d) st = Done () t
    \<and> outbox t = outbox st @ [(d, CPAReply \<lparr>cpar_BlockchainId = cpa_BlockchainId ?m, cpar_ConsInstID = cpa_ConsInstID ?m,
        cpar_ParSig = share_sig ky coeffs n (cpa_TotalHash ?m) v\<rparr>)]
    \<and> cmtSnapshot t = cmtSnapshot st"
  proof (rule CA_blind)
    show "\<forall>e \<in> set (cpa_PrevOPBEntries ?m). \<exists>pub pri. fetchKeysByBoothId ky (getThreshold (int (length (Indices (opb_Booth e))))) (ServerID cv) (ID (opb_Booth e)) (opb_BlockchainId e) st
        = Done (pub, pri) st \<and> \<not> PenVerify ky (opb_Hash e) (opb_CombSig e) pub"
      unfolding resent using pri keys(5) block(3) member(3) by (auto simp: resent_entry_def)
    show "fetchKeysByBoothId ky (getThreshold (int (length (Indices (cpa_Booth ?m))))) (ServerID cv) (ID (cpa_Booth ?m)) (cpa_BlockchainId ?m) st
        = Done (key_pub ky coeffs, evalShares ky coeffs n ! nat v) st"
      unfolding M member(3) by (rule booth_keys_fetch [OF keys(1-3) member(4)])
  qed (use member booth_keys_sign [OF keys(1)] in \<open>simp_all add: M\<close>)
  then obtain st' where st': "validatingCAEntry ky en cv ?m (Some d) st = Done () st'"
      "outbox st' = outbox st @ [(d, CPAReply (cpa_reply ?b j (share_sig ky coeffs n (cpa_TotalHash ?m) v)))]" "cmtSnapshot st' = cmtSnapshot st"
    unfolding M cpa_reply_def by blast
  let ?p2 = "p1\<lparr>cmtSnapshot := nset (cmtSnapshot p1) ?b i (f\<lparr>tSig := sg\<rparr>)\<rparr>"
  have store: "ob_store r sg p1 = Done () ?p2" using block(2) by (simp add: ob_store_def i p1(2) P(3))
  have "(Concierge CPA v, CPAEntry ?m) \<in> set (map (\<lambda>v. (Concierge CPA v, CPAEntry (member_entry en c j boo p0 v))) (members_to_send c p0 CPA (Indices boo)))"
    using member(1) P(5) by (auto simp: members_to_send_def)
  moreover have "map opb_CombSig (cpa_PrevOPBEntries ?m) = [[]]" using block(3) by (simp add: resent resent_entry_def)
  moreover have "nget (cmtSnapshot st') ?b i = None" "nget (cmtSnapshot ?p2) ?b i = Some (f\<lparr>tSig := sg\<rparr>)" "pending_ids ?p2 = []" "outbox p0 = outbox p"
    using member(5) p1(3) P(6) by (simp_all add: st'(3) pending_ids_def outbox_def)
  ultimately show ?thesis using p1(1,4) st'(1,2) store M(3) by (intro exI conjI) (assumption | simp)+
qed

text \<open>C37: The window between the record and the certificate loses a block for its new members. When the consensus
  loop takes its turn after a block was recorded as ordered and before its certificate is stored, a
  member of the commit booth that did not see the block gets the commit entry with an empty
  certificate; it drops the certificate, stores nothing, and yet signs the range with the block. The
  proposer then stores the certificate, but the block is never handed out again.\<close>

theorem unseen_block_signed:
  assumes turn: "ob_record en c r p = Done () p0" "getBoothID ky en c fuel p0 = Done bid s1" "boo = booMgr_b s1 ! nat bid" "booth_reachable en c p boo"
    and block: "r = opa_reply (ServerID c) i x" "nget (cmtSnapshot p) (ServerID c) i = Some f" "tSig f = []" "Indices (booth f) \<noteq> []"
      "recorder_inv (vgrec p)" "pending_ids p = []" "nget (vgTxMeta_sigs p) (ServerID c) j = None"
    and member: "v \<in> set (members_to_send c p CPA (Indices boo))" "v \<notin> set (Indices (booth f))" "ServerID cv = v" "files st = files s1"
      "nget (cmtSnapshot st) (ServerID c) i = None" "answers en cv st (ServerID c) CPA" "nget (valiConsJobStack st) (ServerID c) j \<in> {None, Some 0}"
    and keys: "booth_keys ky coeffs n boo (ServerID c) (files s1)" "0 \<le> v" "v < n" "readable ky n (booth f) (ServerID c) pub (files s1)"
      "\<not> PenVerify ky (hash f) [] pub"
  shows "\<exists>p1 g m st' sig p2. consensus_step ky en c fuel j waited p0 = Done (Again (j + 1) waited) p1
    \<and> outbox p1 = outbox p @ g \<and> (Concierge CPA v, CPAEntry m) \<in> set g \<and> cpa_BIDs m = [i] \<and> map opb_CombSig (cpa_PrevOPBEntries m) = [[]]
    \<and> validatingCAEntry ky en cv m (Some d) st = Done () st' \<and> outbox st' = outbox st @ [(d, CPAReply (cpa_reply (ServerID c) j sig))]
    \<and> nget (cmtSnapshot st') (ServerID c) i = None
    \<and> ob_store r sg p1 = Done () p2 \<and> nget (cmtSnapshot p2) (ServerID c) i = Some (f\<lparr>tSig := sg\<rparr>) \<and> pending_ids p2 = []"
  using assms by (rule unseen_block_run)

section \<open>Witness\<close>

text \<open>The block of \<open>ordered_node\<close> before it was recorded, without its certificate.\<close>

definition voted_node :: "fs \<Rightarrow> node" where
  "voted_node fs = (ordered_node fs [])\<lparr>vgrec := \<lparr>blockIDs = [], lastIdx = 0\<rparr>\<rparr>"

lemma voted_recorded: "ob_record demo_env fresh_cfg (opa_reply 10 0 x) (voted_node fs) = Done () (ordered_node fs [])"
  by (simp add: ob_record_def vgrec_Add_def rec_Add_def opa_reply_def voted_node_def ordered_node_def fresh_cfg_def demo_cfg_def)

lemma voted_reachable: "booth_reachable demo_env fresh_cfg (voted_node fs) second_booth"
  using ordered_reachable [of fs "[]"] audible_links [of "ordered_node fs []" "voted_node fs" demo_env fresh_cfg]
  by (simp add: booth_reachable_def registry_inv_def members_in_range_def voted_node_def same_links_def)

theorem unseen_block_signed_witness:
  "\<exists>s s0 s1 u m st st' sig s2 sg. ob_record demo_env fresh_cfg (opa_reply 10 0 [1]) s = Done () s0
    \<and> consensus_step demo_kyber demo_env fresh_cfg 1 0 0 s0 = Done (Again 1 0) s1
    \<and> outbox s1 = outbox s @ u \<and> (Concierge CPA 9, CPAEntry m) \<in> set u \<and> cpa_BIDs m = [0] \<and> map opb_CombSig (cpa_PrevOPBEntries m) = [[]]
    \<and> validatingCAEntry demo_kyber demo_env (round_cfg 9) m (Some (Dialog CPA 10)) st = Done () st'
    \<and> outbox st' = outbox st @ [(Dialog CPA 10, CPAReply (cpa_reply 10 0 sig))] \<and> nget (cmtSnapshot st') 10 0 = None
    \<and> ob_store (opa_reply 10 0 [1]) sg s1 = Done () s2 \<and> nget (cmtSnapshot s2) 10 0 = Some (ordered_block sg) \<and> pending_ids s2 = []"
proof -
  obtain f0 :: node where k: "booth_keys demo_kyber [0, 0] 14 fresh_booth 10 (files f0)" using fresh_booth_made [OF fresh_fields(1-3)] by blast
  let ?s = "voted_node (files f0)"
  obtain b1 where b1: "getBoothID demo_kyber demo_env fresh_cfg 1 (ordered_node (files f0) []) = Done 1 b1" "booMgr_b b1 ! 1 = second_booth"
    and k1: "booth_keys demo_kyber [1, 1] 14 second_booth 10 (files b1)" and k0: "booth_keys demo_kyber [0, 0] 14 fresh_booth 10 (files b1)"
    using second_booth_made [OF k] by blast
  have id: "ServerID fresh_cfg = 10" by (rule fresh_fields)
  let ?f = "ordered_block []" and ?st = "fresh_member (files b1) 9"
  have stored: "nget (cmtSnapshot ?s) (ServerID fresh_cfg) 0 = Some ?f" by (simp add: voted_node_def ordered_node_def id)
  have block: "tSig ?f = []" "Indices (booth ?f) \<noteq> []" "recorder_inv (vgrec ?s)"
      "pending_ids ?s = []" "nget (vgTxMeta_sigs ?s) (ServerID fresh_cfg) 0 = None"
    by (simp_all add: voted_node_def ordered_node_def id ordered_block_def block_of_def snapshot_of_def fresh_booth_def recorder_inv_def pending_ids_def
        fresh_fields nget_def)
  have member: "9 \<in> set (members_to_send fresh_cfg ?s CPA (Indices second_booth))" "9 \<notin> set (Indices (booth ?f))" "ServerID (round_cfg 9) = 9"
      "files ?st = files b1" "nget (cmtSnapshot ?st) (ServerID fresh_cfg) 0 = None" "answers demo_env (round_cfg 9) ?st (ServerID fresh_cfg) CPA"
      "nget (valiConsJobStack ?st) (ServerID fresh_cfg) 0 \<in> {None, Some 0}"
    using fresh_member_answers [of 9 "files b1" CPA]
    by (simp_all add: id members_to_send_def voted_node_def ordered_node_def second_booth_def fresh_node_def ordered_block_def block_of_def snapshot_of_def
        fresh_booth_def round_cfg_def fresh_member_def init_node_def nget_def)
  have keys: "booth_keys demo_kyber [1, 1] 14 second_booth (ServerID fresh_cfg) (files b1)" "(0 :: int) \<le> 9" "(9 :: int) < 14"
      "readable demo_kyber 14 (booth ?f) (ServerID fresh_cfg) (key_pub demo_kyber [0, 0]) (files b1)"
      "\<not> PenVerify demo_kyber (hash ?f) [] (key_pub demo_kyber [0, 0])"
    using k1 booth_keys_readable [OF k0] by (simp_all add: id ordered_block_def block_of_def snapshot_of_def PenVerify_def demo_kyber_def)
  have turn: "ob_record demo_env fresh_cfg (opa_reply 10 0 [1]) ?s = Done () (ordered_node (files f0) [])" "second_booth = booMgr_b b1 ! nat 1"
    using voted_recorded b1(2) by simp_all
  have r: "opa_reply 10 0 [1] = opa_reply (ServerID fresh_cfg) 0 [1]" by (simp add: id)
  have f: "?f\<lparr>tSig := x\<rparr> = ordered_block x" for x by (simp add: ordered_block_def)
  from unseen_block_signed [OF turn(1) b1(1) turn(2) voted_reachable r stored block member keys, of 0 "Dialog CPA 10" "[2]"] turn(1)
  show ?thesis unfolding id f add_0 by (elim exE conjE, intro exI conjI) assumption+
qed

end
