(* ===== verification/Workers.thy ===== *)
theory Workers
  imports Ordering
begin

text \<open>
  The ordering workers as concurrent goroutines: \<open>makeAndBroadcast\<close> cut where it reads the block counter, increments it, and releases
  the locks of the two snapshots, and the interleavings of several workers of one proposer.
\<close>

section \<open>The parts of \<open>makeAndBroadcast\<close>\<close>

text \<open>Up to the entry and the booth; \<open>None\<close> for the early returns.\<close>

definition make_choose :: "('sc, 'pt, 'pub) kyber \<Rightarrow> env \<Rightarrow> cfg \<Rightarrow> nat \<Rightarrow> shuffleBuf \<Rightarrow> (node, (ProposerOPAEntry \<times> int) option) go" where
  "make_choose ky en c fuel sh =
     (if counter sh = 0 then ret None
      else let localEntries = present (buf sh) (upto_int 0 (counter sh)) in
      case serialization_entries localEntries of None \<Rightarrow> ret None | Some serializedEntries \<Rightarrow>
      bindG getLogIndex (\<lambda>newBlockId.
      bindG (getBoothID ky en c fuel) (\<lambda>orderingBoothID.
      bindG (getG booMgr_b) (\<lambda>b. bindG (idxG b orderingBoothID) (\<lambda>boo.
      ret (Some (\<lparr>opa_Booth = boo, opa_BlockId = newBlockId, opa_BlockchainId = ServerID c,
                  opa_Entries = localEntries, opa_Hash = getDigest en serializedEntries\<rparr>, orderingBoothID)))))))"

definition frag_of :: "env \<Rightarrow> ProposerOPAEntry \<Rightarrow> blockSnapshot" where
  "frag_of en e = snapshot_of en (opa_Hash e) (opa_Entries e) (opa_Booth e)"

definition make_count :: "env \<Rightarrow> cfg \<Rightarrow> ProposerOPAEntry \<Rightarrow> (node, unit) go" where
  "make_count en c e = thenG (bindG (nowG en) (\<lambda>_. ret ())) (thenG (record_start en c (opa_BlockId e)) (bindG incrementLogIndex (\<lambda>_. ret ())))"

definition make_order :: "env \<Rightarrow> ProposerOPAEntry \<Rightarrow> (node, unit) go" where
  "make_order en e = modG (\<lambda>s. s\<lparr>ordSnapshot := nset (ordSnapshot s) (opa_BlockchainId e) (opa_BlockId e) (frag_of en e)\<rparr>)"

definition make_store :: "env \<Rightarrow> ProposerOPAEntry \<Rightarrow> (node, unit) go" where
  "make_store en e = modG (\<lambda>s. s\<lparr>cmtSnapshot := nset (cmtSnapshot s) (opa_BlockchainId e) (opa_BlockId e) (frag_of en e)\<rparr>)"

definition make_send :: "env \<Rightarrow> cfg \<Rightarrow> ProposerOPAEntry \<Rightarrow> int \<Rightarrow> (node, shuffleBuf) go" where
  "make_send en c e orderingBoothID =
     thenG (bindG (nowG en) (\<lambda>_. ret ()))
     (thenG (broadcast_booth en c (OPAEntry e) OPA orderingBoothID)
     (thenG (bindG (nowG en) (\<lambda>_. ret ())) (ret empty_shuffle)))"

lemma bindG_assoc: "bindG (bindG m f) g = bindG m (\<lambda>x. bindG (f x) g)"
  by (rule ext) (simp add: bindG_def split: outcome.split)

lemma bindG_ret: "bindG (ret a) f = f a"
  by (rule ext) simp

text \<open>One worker alone runs the parts in a row.\<close>

lemma makeAndBroadcast_parts:
  "makeAndBroadcast ky en c fuel sh = bindG (make_choose ky en c fuel sh) (\<lambda>r. case r of None \<Rightarrow> ret sh
     | Some (e, b) \<Rightarrow> thenG (make_count en c e) (thenG (make_order en e) (thenG (make_store en e) (make_send en c e b))))"
proof (cases "counter sh = 0")
  case False
  show ?thesis
  proof (cases "serialization_entries (present (buf sh) (upto_int 0 (counter sh)))")
    case (Some d)
    show ?thesis
      by (simp only: makeAndBroadcast_def make_choose_def make_count_def make_order_def make_store_def make_send_def frag_of_def register_block_def
          Let_def thenG_def bindG_assoc bindG_ret False Some if_False option.case prod.case ProposerOPAEntry.select_convs)
  qed (simp only: makeAndBroadcast_def make_choose_def Let_def bindG_ret False if_False option.case)
next
  case True
  then have "(counter sh = 0) = True" by simp
  then show ?thesis by (simp only: makeAndBroadcast_def make_choose_def bindG_ret if_True option.case)
qed

section \<open>Interleaved workers\<close>

datatype worker =
    Filling shuffleBuf
  | Chosen ProposerOPAEntry int
  | Counted ProposerOPAEntry int
  | Ordered ProposerOPAEntry int
  | Stored ProposerOPAEntry int

inductive workers_step :: "('sc, 'pt, 'pub) kyber \<Rightarrow> env \<Rightarrow> cfg \<Rightarrow> nat \<Rightarrow> node \<times> worker list \<Rightarrow> node \<times> worker list \<Rightarrow> bool"
  for ky en c fuel where
  take: "k < length ts \<Longrightarrow> ts ! k = Filling sh \<Longrightarrow> workers_step ky en c fuel (s, ts) (s, ts[k := Filling (put_entry sh m)])"
| choose: "k < length ts \<Longrightarrow> ts ! k = Filling sh \<Longrightarrow> make_choose ky en c fuel sh s = Done (Some (e, b)) s'
    \<Longrightarrow> workers_step ky en c fuel (s, ts) (s', ts[k := Chosen e b])"
| count: "k < length ts \<Longrightarrow> ts ! k = Chosen e b \<Longrightarrow> make_count en c e s = Done () s'
    \<Longrightarrow> workers_step ky en c fuel (s, ts) (s', ts[k := Counted e b])"
| order: "k < length ts \<Longrightarrow> ts ! k = Counted e b \<Longrightarrow> make_order en e s = Done () s'
    \<Longrightarrow> workers_step ky en c fuel (s, ts) (s', ts[k := Ordered e b])"
| store: "k < length ts \<Longrightarrow> ts ! k = Ordered e b \<Longrightarrow> make_store en e s = Done () s'
    \<Longrightarrow> workers_step ky en c fuel (s, ts) (s', ts[k := Stored e b])"
| send: "k < length ts \<Longrightarrow> ts ! k = Stored e b \<Longrightarrow> make_send en c e b s = Done sh s'
    \<Longrightarrow> workers_step ky en c fuel (s, ts) (s', ts[k := Filling sh])"

inductive_cases workers_stepE: "workers_step ky en c fuel (s, ts) (s', ts')"

text \<open>How the parts act on the counter and the snapshots.\<close>

lemma make_choose_chain:
  assumes "make_choose ky en c fuel sh s = Done (Some (e, b)) s'"
  shows "chain s' = chain s" and "opa_BlockId e = logIndex s" and "opa_BlockchainId e = ServerID c"
proof -
  obtain d where ser: "serialization_entries (present (buf sh) (upto_int 0 (counter sh))) = Some d" and ne: "counter sh \<noteq> 0"
    using assms by (auto simp: make_choose_def Let_def split: if_splits option.splits)
  obtain b' u where u: "getBoothID ky en c fuel s = Done b' u"
    using assms ne ser by (cases "getBoothID ky en c fuel s") (simp_all add: make_choose_def getLogIndex_def Let_def)
  have "s' = u \<and> opa_BlockId e = logIndex s \<and> opa_BlockchainId e = ServerID c"
    using assms ne ser u by (auto simp: make_choose_def getLogIndex_def Let_def idxG_def split: if_splits)
  moreover have "chain u = chain s" using presD [OF pres_chain_getBoothID [where x = "chain s"] refl] u by (metis final.simps(1))
  ultimately show "chain s' = chain s" and "opa_BlockId e = logIndex s" and "opa_BlockchainId e = ServerID c" by simp_all
qed

lemma make_count_chain:
  assumes "make_count en c e s = Done () s'"
  shows "logIndex s' = logIndex s + 1 \<and> ordSnapshot s' = ordSnapshot s \<and> cmtSnapshot s' = cmtSnapshot s"
  using assms
  by (cases rule: record_start_outcome [of en c "opa_BlockId e" "s\<lparr>clock_reads := Suc (clock_reads s)\<rparr>"])
    (auto simp: make_count_def incrementLogIndex_def chain_def)

lemma make_send_chain: "make_send en c e b s = Done sh s' \<Longrightarrow> chain s' = chain s"
  using net_frame_chain [OF broadcast_frame, of en c "OPAEntry e" OPA b "s\<lparr>clock_reads := Suc (clock_reads s)\<rparr>"]
  by (cases "broadcast_booth en c (OPAEntry e) OPA b (s\<lparr>clock_reads := Suc (clock_reads s)\<rparr>)") (auto simp: make_send_def)

section \<open>Ids stay below the counter\<close>

definition id_below :: "cfg \<Rightarrow> nat \<Rightarrow> nat \<Rightarrow> ProposerOPAEntry \<Rightarrow> bool" where
  "id_below c m d e \<longleftrightarrow> opa_BlockchainId e = ServerID c \<and> unat (opa_BlockId e) + d \<le> m"

definition worker_ok :: "cfg \<Rightarrow> nat \<Rightarrow> worker \<Rightarrow> bool" where
  "worker_ok c m t = (case t of Filling sh \<Rightarrow> True | Chosen e b \<Rightarrow> id_below c m 0 e | Counted e b \<Rightarrow> id_below c m 1 e
     | Ordered e b \<Rightarrow> id_below c m 1 e | Stored e b \<Rightarrow> id_below c m 1 e)"

definition stored_below :: "cfg \<Rightarrow> nat \<Rightarrow> node \<Rightarrow> bool" where
  "stored_below c m s \<longleftrightarrow> (\<forall>i. nget (ordSnapshot s) (ServerID c) i \<noteq> None \<or> nget (cmtSnapshot s) (ServerID c) i \<noteq> None \<longrightarrow> unat i < m)"

definition workers_inv :: "cfg \<Rightarrow> nat \<Rightarrow> node \<times> worker list \<Rightarrow> bool" where
  "workers_inv c m = (\<lambda>(s, ts). logIndex s = of_nat m \<and> stored_below c m s \<and> (\<forall>t \<in> set ts. worker_ok c m t))"

lemma worker_ok_mono: "worker_ok c m t \<Longrightarrow> worker_ok c (Suc m) t"
  by (cases t) (auto simp: worker_ok_def id_below_def)

lemma workers_inv_update:
  assumes "logIndex s' = of_nat m" "stored_below c m s'" "\<forall>t \<in> set ts. worker_ok c m t" "worker_ok c m t"
  shows "workers_inv c m (s', ts[k := t])"
  using assms set_update_subset_insert [of ts k t] by (auto simp: workers_inv_def)

lemma workers_inv_step:
  assumes "workers_step ky en c fuel (s, ts) (s', ts')" "workers_inv c m (s, ts)" "m < 2 ^ 64"
  shows "\<exists>m' \<le> Suc m. workers_inv c m' (s', ts')"
  using assms(1)
proof cases
  note inv = assms(2) [unfolded workers_inv_def, simplified]
  have at: "worker_ok c m (ts ! k)" if "k < length ts" for k using inv that by simp
  have keep: "logIndex t = of_nat m \<and> stored_below c m t" if "chain t = chain s" for t
    using inv that by (simp add: chain_def stored_below_def)
  {
    case (take k sh msg)
    then show ?thesis using inv by (intro exI [of _ m]) (auto intro!: workers_inv_update simp: worker_ok_def)
  next
    case (choose k sh e b)
    note ch = make_choose_chain [OF choose(4)]
    have "unat (opa_BlockId e) = m" using ch(2) inv assms(3) by (simp add: unat_of_nat)
    then have "worker_ok c m (Chosen e b)" using ch(3) by (simp add: worker_ok_def id_below_def)
    then show ?thesis using choose(1) inv keep [OF ch(1)] by (intro exI [of _ m]) (auto intro!: workers_inv_update)
  next
    case (count k e b)
    note ch = make_count_chain [OF count(4)]
    have "worker_ok c (Suc m) (Counted e b)" using at [OF count(2)] count(3) by (simp add: worker_ok_def id_below_def)
    moreover have "logIndex s' = of_nat (Suc m)" using ch inv by (simp add: add.commute)
    moreover have "stored_below c (Suc m) s'" using ch inv by (auto simp: stored_below_def less_Suc_eq)
    ultimately show ?thesis using count(1) inv
      by (intro exI [of _ "Suc m"]) (auto intro!: workers_inv_update intro: worker_ok_mono)
  next
    case (order k e b)
    have e: "id_below c m 1 e" using at [OF order(2)] order(3) by (simp add: worker_ok_def)
    then have "logIndex s' = of_nat m \<and> stored_below c m s'" using inv order(4) by (auto simp: make_order_def stored_below_def id_below_def nget_nset split: if_splits)
    moreover have "worker_ok c m (Ordered e b)" using e by (simp add: worker_ok_def)
    ultimately show ?thesis using order(1) inv by (intro exI [of _ m]) (auto intro!: workers_inv_update)
  next
    case (store k e b)
    have e: "id_below c m 1 e" using at [OF store(2)] store(3) by (simp add: worker_ok_def)
    then have "logIndex s' = of_nat m \<and> stored_below c m s'" using inv store(4) by (auto simp: make_store_def stored_below_def id_below_def nget_nset split: if_splits)
    moreover have "worker_ok c m (Stored e b)" using e by (simp add: worker_ok_def)
    ultimately show ?thesis using store(1) inv by (intro exI [of _ m]) (auto intro!: workers_inv_update)
  next
    case (send k e b sh)
    have "worker_ok c m (Filling sh)" by (simp add: worker_ok_def)
    then show ?thesis using send(1) inv keep [OF make_send_chain [OF send(4)]] by (intro exI [of _ m]) (auto intro!: workers_inv_update)
  }
qed

lemma workers_inv_steps:
  assumes "(workers_step ky en c fuel ^^ k) x y" "workers_inv c m x" "m + k < 2 ^ 64"
  shows "\<exists>m' \<le> m + k. workers_inv c m' y"
  using assms
proof (induction k arbitrary: y)
  case 0
  then show ?case by auto
next
  case (Suc k)
  obtain z where z: "(workers_step ky en c fuel ^^ k) x z" "workers_step ky en c fuel z y" using Suc.prems(1) by auto
  obtain s ts s' ts' where st: "z = (s, ts)" "y = (s', ts')" by (cases z; cases y)
  have bound: "m + k < 2 ^ 64" using Suc.prems(3) by simp
  obtain m1 where m1: "m1 \<le> m + k" "workers_inv c m1 z" using Suc.IH [OF z(1) Suc.prems(2) bound] by blast
  then have "m1 < 2 ^ 64" using bound by simp
  from workers_inv_step [OF z(2) [unfolded st] m1(2) [unfolded st] this]
  obtain m2 where "m2 \<le> Suc m1" "workers_inv c m2 y" unfolding st by blast
  then show ?case using m1(1) by (intro exI [of _ m2]) simp
qed

text \<open>The block of a worker that has counted it.\<close>

definition counted_entry :: "worker \<Rightarrow> ProposerOPAEntry option" where
  "counted_entry t = (case t of Counted e b \<Rightarrow> Some e | Ordered e b \<Rightarrow> Some e | Stored e b \<Rightarrow> Some e | _ \<Rightarrow> None)"

text \<open>C13: However many ordering workers run and however they interleave, every block stored for the own chain has an id below the block
  counter. So the id a worker chooses is never that of a stored block, nor that of a block another worker has already counted: two blocks
  can only take the same id when both workers read the counter before one of them increments it.\<close>

theorem workers_ids_below:
  assumes run: "(workers_step ky en c fuel ^^ k) (s, ts) (s', ts')" and bound: "k < 2 ^ 64" and zero: "logIndex s = 0"
    and empty: "\<forall>i. nget (ordSnapshot s) (ServerID c) i = None \<and> nget (cmtSnapshot s) (ServerID c) i = None"
    and fresh: "\<forall>t \<in> set ts. \<exists>sh. t = Filling sh"
  shows "(\<forall>i f. nget (ordSnapshot s') (ServerID c) i = Some f \<or> nget (cmtSnapshot s') (ServerID c) i = Some f \<longrightarrow> unat i < unat (logIndex s'))
    \<and> (\<forall>sh e b u. make_choose ky en c fuel sh s' = Done (Some (e, b)) u \<longrightarrow>
         nget (ordSnapshot s') (ServerID c) (opa_BlockId e) = None \<and> nget (cmtSnapshot s') (ServerID c) (opa_BlockId e) = None
         \<and> (\<forall>t \<in> set ts'. \<forall>e'. counted_entry t = Some e' \<longrightarrow> opa_BlockId e' \<noteq> opa_BlockId e))"
proof -
  have "workers_inv c 0 (s, ts)" using zero empty fresh by (auto simp: workers_inv_def stored_below_def worker_ok_def)
  then obtain m where m: "m \<le> 0 + k" "workers_inv c m (s', ts')" using workers_inv_steps [OF run, of 0] bound by auto
  have li: "unat (logIndex s') = m" using m bound by (simp add: workers_inv_def unat_of_nat)
  have below: "stored_below c m s'" "\<forall>t \<in> set ts'. worker_ok c m t" using m(2) by (simp_all add: workers_inv_def)
  have past: "unat (opa_BlockId e) < m" if "t \<in> set ts'" "counted_entry t = Some e" for t e
  proof -
    have "worker_ok c m t" using below(2) that(1) by blast
    then show ?thesis using that(2) by (cases t) (auto simp: worker_ok_def id_below_def counted_entry_def)
  qed
  have new: "unat (opa_BlockId e) = m" if "make_choose ky en c fuel sh s' = Done (Some (e, b)) u" for sh e b u
    using make_choose_chain(2) [OF that] li by simp
  have stored: "unat i < m" if "nget (ordSnapshot s') (ServerID c) i = Some f \<or> nget (cmtSnapshot s') (ServerID c) i = Some f" for i f
    using below(1) that by (auto simp: stored_below_def)
  show ?thesis
  proof (intro conjI allI impI ballI)
    fix sh e b u assume ch: "make_choose ky en c fuel sh s' = Done (Some (e, b)) u"
    show "nget (ordSnapshot s') (ServerID c) (opa_BlockId e) = None" "nget (cmtSnapshot s') (ServerID c) (opa_BlockId e) = None"
      using stored [of "opa_BlockId e"] new [OF ch] by (metis less_irrefl not_None_eq)+
    show "opa_BlockId e' \<noteq> opa_BlockId e" if "t \<in> set ts'" "counted_entry t = Some e'" for t e'
      using past [OF that] new [OF ch] by auto
  qed (use stored li in simp)
qed

section \<open>Two workers can take the same id\<close>

text \<open>What the parts of a worker leave as it is for the broadcasts: only new booths are added.\<close>

definition net_view :: "node \<Rightarrow> node \<Rightarrow> bool" where
  "net_view s t \<longleftrightarrow> sent t = sent s \<and> broadcastError t = broadcastError s \<and> concierge t = concierge s \<and> same_links s t
     \<and> (\<exists>new. booMgr_b t = booMgr_b s @ new)"

lemma net_view_refl [simp]: "net_view s s"
  by (simp add: net_view_def)

lemma net_view_trans [trans]: "net_view s t \<Longrightarrow> net_view t u \<Longrightarrow> net_view s u"
  by (auto simp: net_view_def intro: same_links_trans)

lemma getBoothID_view: "getBoothID ky en c fuel s = Done i t \<Longrightarrow> net_view s t"
proof (induction fuel arbitrary: s)
  case (Suc fuel)
  have look: "net_view s (look s)" by (simp add: net_view_def look_def same_links_def)
  let ?p = "ServerID c # participants_at en s (clock_reads s)"
  have request: "net_view (look s) u" if run: "checkExactMatchInBooMgr ky en c ?p (look s) = Done j u" for j u
  proof (cases "booMgr_index (look s) (generateBoothHash en (sort ?p))")
    case None
    then show ?thesis using checkExactMatch_new [OF None, of ky c] run by (auto simp: net_view_def same_links_def simp del: sort_key_simps)
  next
    case (Some k)
    then show ?thesis using run by (simp add: checkExactMatch_known del: sort_key_simps)
  qed
  show ?case using Suc.prems unfolding getBoothID_step
    by (auto split: if_splits intro: net_view_trans [OF look] Suc.IH request)
qed simp

lemma make_choose_view:
  assumes "make_choose ky en c fuel sh s = Done (Some (e, b)) s'"
  shows "net_view s s' \<and> 0 \<le> b \<and> b < int (length (booMgr_b s')) \<and> booMgr_b s' ! nat b = opa_Booth e"
proof -
  obtain d where ser: "serialization_entries (present (buf sh) (upto_int 0 (counter sh))) = Some d" and ne: "counter sh \<noteq> 0"
    using assms by (auto simp: make_choose_def Let_def split: if_splits option.splits)
  obtain b' u where u: "getBoothID ky en c fuel s = Done b' u"
    using assms ne ser by (cases "getBoothID ky en c fuel s") (simp_all add: make_choose_def getLogIndex_def Let_def)
  then show ?thesis using assms ne ser getBoothID_view [OF u] by (auto simp: make_choose_def getLogIndex_def Let_def idxG_def split: if_splits)
qed

lemma make_count_run:
  assumes "PerfMetres c \<longrightarrow> LatMetreInterval c \<noteq> 0"
  shows "\<exists>t. make_count en c e s = Done () t \<and> logIndex t = logIndex s + 1 \<and> ordSnapshot t = ordSnapshot s \<and> cmtSnapshot t = cmtSnapshot s \<and> net_view s t"
proof -
  let ?s = "s\<lparr>clock_reads := Suc (clock_reads s)\<rparr>"
  have "\<exists>u. record_start en c (opa_BlockId e) ?s = Done () u \<and> logIndex u = logIndex s \<and> ordSnapshot u = ordSnapshot s \<and> cmtSnapshot u = cmtSnapshot s \<and> net_view s u"
    using assms by (auto simp: record_start_def remG_def recordStartTime_def net_view_def same_links_def)
  then obtain u where "record_start en c (opa_BlockId e) ?s = Done () u" "logIndex u = logIndex s" "ordSnapshot u = ordSnapshot s" "cmtSnapshot u = cmtSnapshot s" "net_view s u"
    by blast
  then show ?thesis by (auto simp: make_count_def incrementLogIndex_def net_view_def same_links_def)
qed

lemma make_send_run:
  assumes "\<not> broadcastError s" "0 \<le> b" "b < int (length (booMgr_b s))" "booMgr_b s ! nat b = opa_Booth e"
    and "members_in_range c s OPA (Indices (opa_Booth e))" "audible en c s (Indices (opa_Booth e))" "\<forall>k. \<not> encErr en k"
  shows "\<exists>u. make_send en c e b s = Done empty_shuffle u \<and> net_frame s u \<and> \<not> broadcastError u
    \<and> outbox u = outbox s @ map (\<lambda>i. (Concierge OPA i, OPAEntry e)) (members_to_send c s OPA (Indices (opa_Booth e)))"
proof -
  let ?s = "s\<lparr>clock_reads := Suc (clock_reads s)\<rparr>"
  have links: "same_links s ?s" by (simp add: same_links_def)
  have "\<exists>u. broadcast_booth en c (OPAEntry e) OPA b ?s = Done () u \<and> log_step en (\<lambda>_. True)
      (map (\<lambda>i. (Concierge OPA i, OPAEntry e)) (members_to_send c ?s OPA (Indices (booMgr_b ?s ! nat b)))) ?s u"
    by (rule broadcast_booth_sends) (use assms in \<open>simp_all add: members_in_range_def audible_links [OF links]\<close>)
  then obtain u where u: "broadcast_booth en c (OPAEntry e) OPA b ?s = Done () u"
    "log_step en (\<lambda>_. True) (map (\<lambda>i. (Concierge OPA i, OPAEntry e)) (members_to_send c s OPA (Indices (opa_Booth e)))) ?s u"
    using assms(4) by (auto simp: members_to_send_def)
  have ok: "\<not> failed tr" if "tr \<in> set (logged en n g)" for tr n g
    using that assms(7) by (induction en n g rule: logged.induct) auto
  have "\<not> broadcastError u" using u(2) assms(1) ok by (auto simp: log_step_def)
  moreover have "net_frame s u" by (rule net_frame_trans [OF _ log_step_frame [OF u(2)]]) simp
  ultimately show ?thesis using u(1) log_step_outbox [OF u(2)]
    by (auto simp: make_send_def outbox_def intro!: net_frame_trans [of s u])
qed

text \<open>Both workers choose before either counts, and then store in turn.\<close>

lemma both_stored:
  assumes "make_choose ky en c fuel sh1 s = Done (Some (e1, b1)) s1" "make_choose ky en c fuel sh2 s1 = Done (Some (e2, b2)) s2"
    and "PerfMetres c \<longrightarrow> LatMetreInterval c \<noteq> 0"
  shows "\<exists>t. (workers_step ky en c fuel)\<^sup>*\<^sup>* (s, [Filling sh1, Filling sh2]) (t, [Stored e1 b1, Stored e2 b2]) \<and> net_view s2 t
    \<and> ordSnapshot t = nset (nset (ordSnapshot s) (ServerID c) (opa_BlockId e1) (frag_of en e1)) (ServerID c) (opa_BlockId e2) (frag_of en e2)
    \<and> cmtSnapshot t = nset (nset (cmtSnapshot s) (ServerID c) (opa_BlockId e1) (frag_of en e1)) (ServerID c) (opa_BlockId e2) (frag_of en e2)
    \<and> logIndex t = logIndex s + 2"
proof -
  let ?R = "workers_step ky en c fuel"
  note c1 = make_choose_chain [OF assms(1)] and c2 = make_choose_chain [OF assms(2)]
  have same: "logIndex s2 = logIndex s" "ordSnapshot s2 = ordSnapshot s" "cmtSnapshot s2 = cmtSnapshot s" using c1(1) c2(1) by (simp_all add: chain_def)
  obtain s3 where s3: "make_count en c e1 s2 = Done () s3" "logIndex s3 = logIndex s2 + 1" "ordSnapshot s3 = ordSnapshot s2" "cmtSnapshot s3 = cmtSnapshot s2" "net_view s2 s3"
    using make_count_run [OF assms(3)] by blast
  obtain s4 where s4: "make_count en c e2 s3 = Done () s4" "logIndex s4 = logIndex s3 + 1" "ordSnapshot s4 = ordSnapshot s3" "cmtSnapshot s4 = cmtSnapshot s3" "net_view s3 s4"
    using make_count_run [OF assms(3)] by blast
  let ?s5 = "s4\<lparr>ordSnapshot := nset (ordSnapshot s4) (ServerID c) (opa_BlockId e1) (frag_of en e1)\<rparr>"
  let ?s6 = "?s5\<lparr>cmtSnapshot := nset (cmtSnapshot s4) (ServerID c) (opa_BlockId e1) (frag_of en e1)\<rparr>"
  let ?s7 = "?s6\<lparr>ordSnapshot := nset (ordSnapshot ?s6) (ServerID c) (opa_BlockId e2) (frag_of en e2)\<rparr>"
  let ?s8 = "?s7\<lparr>cmtSnapshot := nset (cmtSnapshot ?s7) (ServerID c) (opa_BlockId e2) (frag_of en e2)\<rparr>"
  have r1: "?R (s, [Filling sh1, Filling sh2]) (s1, [Chosen e1 b1, Filling sh2])"
    using workers_step.choose [of 0 "[Filling sh1, Filling sh2]" sh1 ky en c fuel s e1 b1 s1] assms(1) by simp
  have r2: "?R (s1, [Chosen e1 b1, Filling sh2]) (s2, [Chosen e1 b1, Chosen e2 b2])"
    using workers_step.choose [of 1 "[Chosen e1 b1, Filling sh2]" sh2 ky en c fuel s1 e2 b2 s2] assms(2) by simp
  have r3: "?R (s2, [Chosen e1 b1, Chosen e2 b2]) (s3, [Counted e1 b1, Chosen e2 b2])"
    using workers_step.count [of 0 "[Chosen e1 b1, Chosen e2 b2]" e1 b1 en c s2 s3 ky fuel] s3 by simp
  have r4: "?R (s3, [Counted e1 b1, Chosen e2 b2]) (s4, [Counted e1 b1, Counted e2 b2])"
    using workers_step.count [of 1 "[Counted e1 b1, Chosen e2 b2]" e2 b2 en c s3 s4 ky fuel] s4 by simp
  have r5: "?R (s4, [Counted e1 b1, Counted e2 b2]) (?s5, [Ordered e1 b1, Counted e2 b2])"
    using workers_step.order [of 0 "[Counted e1 b1, Counted e2 b2]" e1 b1 en s4 ?s5 ky c fuel] c1(3) by (simp add: make_order_def)
  have r6: "?R (?s5, [Ordered e1 b1, Counted e2 b2]) (?s6, [Stored e1 b1, Counted e2 b2])"
    using workers_step.store [of 0 "[Ordered e1 b1, Counted e2 b2]" e1 b1 en ?s5 ?s6 ky c fuel] c1(3) by (simp add: make_store_def)
  have r7: "?R (?s6, [Stored e1 b1, Counted e2 b2]) (?s7, [Stored e1 b1, Ordered e2 b2])"
    using workers_step.order [of 1 "[Stored e1 b1, Counted e2 b2]" e2 b2 en ?s6 ?s7 ky c fuel] c2(3) by (simp add: make_order_def)
  have r8: "?R (?s7, [Stored e1 b1, Ordered e2 b2]) (?s8, [Stored e1 b1, Stored e2 b2])"
    using workers_step.store [of 1 "[Stored e1 b1, Ordered e2 b2]" e2 b2 en ?s7 ?s8 ky c fuel] c2(3) by (simp add: make_store_def)
  have "?R\<^sup>*\<^sup>* (s, [Filling sh1, Filling sh2]) (?s8, [Stored e1 b1, Stored e2 b2])"
    by (rule converse_rtranclp_into_rtranclp, rule r1, rule converse_rtranclp_into_rtranclp, rule r2, rule converse_rtranclp_into_rtranclp, rule r3,
        rule converse_rtranclp_into_rtranclp, rule r4, rule converse_rtranclp_into_rtranclp, rule r5, rule converse_rtranclp_into_rtranclp, rule r6,
        rule converse_rtranclp_into_rtranclp, rule r7, rule r_into_rtranclp, rule r8)
  moreover have "net_view s4 ?s8" by (simp add: net_view_def same_links_def)
  then have "net_view s2 ?s8" using net_view_trans [OF net_view_trans [OF s3(5) s4(5)]] by blast
  moreover have "logIndex ?s8 = logIndex s + 2" using s3(2) s4(2) same(1) by simp
  ultimately show ?thesis using s3(3,4) s4(3,4) same(2,3) by (intro exI [of _ ?s8]) simp
qed

text \<open>C33: With more than one worker the block counter does not protect the chain: when a second worker chooses its id before the first
  one counted its block, both blocks get the same id, that of the counter. Both workers can then go on to the end: at the proposer the second block
  replaces the first in both snapshots, yet both entries are broadcast, each to the members of its booth, under the same id; the counter has moved on by two, and
  nothing is stored under the id in between.\<close>

theorem workers_share_id:
  assumes "make_choose ky en c fuel sh1 s = Done (Some (e1, b1)) s1" "make_choose ky en c fuel sh2 s1 = Done (Some (e2, b2)) s2"
    and "PerfMetres c \<longrightarrow> LatMetreInterval c \<noteq> 0" "\<not> broadcastError s" "\<forall>k. \<not> encErr en k"
    and members: "\<forall>e \<in> {e1, e2}. members_in_range c s OPA (Indices (opa_Booth e)) \<and> audible en c s (Indices (opa_Booth e))"
  shows "opa_BlockId e1 = logIndex s \<and> opa_BlockId e2 = logIndex s
    \<and> (\<exists>t. (workers_step ky en c fuel)\<^sup>*\<^sup>* (s, [Filling sh1, Filling sh2]) (t, [Filling empty_shuffle, Filling empty_shuffle])
      \<and> nget (ordSnapshot t) (ServerID c) (logIndex s) = Some (frag_of en e2) \<and> nget (cmtSnapshot t) (ServerID c) (logIndex s) = Some (frag_of en e2)
      \<and> outbox t = outbox s @ map (\<lambda>i. (Concierge OPA i, OPAEntry e1)) (members_to_send c s OPA (Indices (opa_Booth e1)))
          @ map (\<lambda>i. (Concierge OPA i, OPAEntry e2)) (members_to_send c s OPA (Indices (opa_Booth e2)))
      \<and> logIndex t = logIndex s + 2
      \<and> nget (ordSnapshot t) (ServerID c) (logIndex s + 1) = nget (ordSnapshot s) (ServerID c) (logIndex s + 1)
      \<and> nget (cmtSnapshot t) (ServerID c) (logIndex s + 1) = nget (cmtSnapshot s) (ServerID c) (logIndex s + 1))"
proof -
  let ?R = "workers_step ky en c fuel" and ?n = "logIndex s"
  note c1 = make_choose_chain [OF assms(1)] and c2 = make_choose_chain [OF assms(2)]
  note v1 = make_choose_view [OF assms(1)] and v2 = make_choose_view [OF assms(2)]
  have ids: "opa_BlockId e1 = ?n" "opa_BlockId e2 = ?n" using c1(1,2) c2(2) by (simp_all add: chain_def)
  obtain t where t: "?R\<^sup>*\<^sup>* (s, [Filling sh1, Filling sh2]) (t, [Stored e1 b1, Stored e2 b2])" "net_view s2 t"
    "ordSnapshot t = nset (nset (ordSnapshot s) (ServerID c) ?n (frag_of en e1)) (ServerID c) ?n (frag_of en e2)"
    "cmtSnapshot t = nset (nset (cmtSnapshot s) (ServerID c) ?n (frag_of en e1)) (ServerID c) ?n (frag_of en e2)" "logIndex t = ?n + 2"
    using both_stored [OF assms(1-3)] ids by auto
  have vs: "net_view s t" "net_view s1 t" using v1 v2 t(2) net_view_trans by blast+
  have in_t: "booMgr_b t ! nat b = opa_Booth e \<and> b < int (length (booMgr_b t))"
    if "net_view u t" "booMgr_b u ! nat b = opa_Booth e" "0 \<le> b" "b < int (length (booMgr_b u))" for u b e
    using that by (auto simp: net_view_def nth_append)
  have mem: "members_in_range c u OPA (Indices (opa_Booth e)) \<and> audible en c u (Indices (opa_Booth e)) \<and> members_to_send c u OPA is = members_to_send c s OPA is"
    if "e \<in> {e1, e2}" "concierge u = concierge s" "same_links s u" for e u "is"
    using members that audible_links [OF that(3)] by (auto simp: members_in_range_def members_to_send_def)
  have tv: "concierge t = concierge s" "same_links s t" "\<not> broadcastError t" "outbox t = outbox s"
    using vs(1) assms(4) by (simp_all add: net_view_def outbox_def)
  obtain u where u: "make_send en c e1 b1 t = Done empty_shuffle u" "net_frame t u" "\<not> broadcastError u"
    "outbox u = outbox s @ map (\<lambda>i. (Concierge OPA i, OPAEntry e1)) (members_to_send c s OPA (Indices (opa_Booth e1)))"
    using make_send_run [of t b1 e1 c en] in_t [OF vs(2)] v1 mem [of e1 t] tv assms(5) by auto
  have uv: "concierge u = concierge s" "same_links s u" "booMgr_b u = booMgr_b t"
    using net_frame_fields(1,2) [OF u(2)] tv same_links_trans [OF tv(2) net_frame_links [OF u(2)]] by simp_all
  obtain w where w: "make_send en c e2 b2 u = Done empty_shuffle w" "net_frame u w"
    "outbox w = outbox u @ map (\<lambda>i. (Concierge OPA i, OPAEntry e2)) (members_to_send c s OPA (Indices (opa_Booth e2)))"
    using make_send_run [of u b2 e2 c en] in_t [OF t(2)] v2 mem [of e2 u] uv u(3) assms(5) by auto
  have "?R (t, [Stored e1 b1, Stored e2 b2]) (u, [Filling empty_shuffle, Stored e2 b2])"
    using workers_step.send [of 0 "[Stored e1 b1, Stored e2 b2]" e1 b1 en c t empty_shuffle u ky fuel] u(1) by simp
  moreover have "?R (u, [Filling empty_shuffle, Stored e2 b2]) (w, [Filling empty_shuffle, Filling empty_shuffle])"
    using workers_step.send [of 1 "[Filling empty_shuffle, Stored e2 b2]" e2 b2 en c u empty_shuffle w ky fuel] w(1) by simp
  ultimately have "?R\<^sup>*\<^sup>* (s, [Filling sh1, Filling sh2]) (w, [Filling empty_shuffle, Filling empty_shuffle])"
    using t(1) by (blast intro: rtranclp.rtrancl_into_rtrancl)
  moreover have "ordSnapshot w = ordSnapshot t" "cmtSnapshot w = cmtSnapshot t" "logIndex w = logIndex t"
    using net_frame_fields [OF u(2)] net_frame_fields [OF w(2)] by simp_all
  ultimately show ?thesis using ids t(3-5) u(4) w(3) by (intro conjI exI [of _ w]) simp_all
qed

section \<open>Witnesses\<close>

lemma make_choose_world:
  assumes "world_ok en c s" "es \<noteq> []"
  shows "\<exists>e b t. make_choose ky en c (Suc fuel) (sh_of es) s = Done (Some (e, b)) t \<and> world_ok en c t"
proof -
  obtain d where ser: "serialization_entries (numbered es) = Some d" by (simp add: serialization_entries_def)
  have loc: "present (numbered es) (upto_int 0 (int (length es))) = numbered es" by (simp add: present_numbered)
  obtain b t where b: "getBoothID ky en c (Suc fuel) s = Done b t" "0 \<le> b" "b < int (length (booMgr_b t))" "world_ok en c t"
    using getBoothID_world [OF assms(1)] by blast
  then show ?thesis
    using assms(2) by (simp add: make_choose_def sh_of_def loc ser getLogIndex_def Let_def del: getBoothID.simps)
qed

theorem workers_ids_below_witness:
  "\<exists>e b u. make_choose demo_kyber demo_env ord_cfg (Suc 0) (sh_of [entry_of (hd demo_queue)]) ord_node = Done (Some (e, b)) u
    \<and> nget (ordSnapshot ord_node) (ServerID ord_cfg) (opa_BlockId e) = None"
proof -
  obtain e b u where run: "make_choose demo_kyber demo_env ord_cfg (Suc 0) (sh_of [entry_of (hd demo_queue)]) ord_node = Done (Some (e, b)) u"
    using make_choose_world [OF ord_world_ok, of "[entry_of (hd demo_queue)]" demo_kyber 0] by blast
  have "workers_step demo_kyber demo_env ord_cfg (Suc 0) (ord_node, [Filling empty_shuffle]) (ord_node, [Filling (put_entry empty_shuffle (hd demo_queue))])"
    using workers_step.take [of 0 "[Filling empty_shuffle]" empty_shuffle demo_kyber demo_env ord_cfg "Suc 0" ord_node "hd demo_queue"] by simp
  then have steps: "(workers_step demo_kyber demo_env ord_cfg (Suc 0) ^^ 1) (ord_node, [Filling empty_shuffle])
      (ord_node, [Filling (put_entry empty_shuffle (hd demo_queue))])" by (simp only: relpowp_1)
  have start: "logIndex ord_node = 0" "\<forall>i. nget (ordSnapshot ord_node) (ServerID ord_cfg) i = None \<and> nget (cmtSnapshot ord_node) (ServerID ord_cfg) i = None"
    by (simp_all add: ord_node_def demo_node_def init_node_def)
  have "\<forall>t \<in> set [Filling empty_shuffle]. \<exists>sh. t = Filling sh" by simp
  from workers_ids_below [OF steps _ start this] have "nget (ordSnapshot ord_node) (ServerID ord_cfg) (opa_BlockId e) = None" using run by simp blast
  then show ?thesis using run by blast
qed

lemma make_choose_booth_known:
  assumes "make_choose ky en c fuel sh s = Done (Some (e, b)) s'" "world_ok en c s'" "concierge s' = concierge s"
  shows "members_in_range c s OPA (Indices (opa_Booth e))"
proof -
  have "opa_Booth e \<in> set (booMgr_b s')"
    using make_choose_view [OF assms(1)] by (metis nat_less_iff nth_mem)
  then show ?thesis using assms(2,3) by (auto simp: world_ok_def members_in_range_def)
qed

theorem workers_share_id_witness:
  "\<exists>e1 e2 t. (workers_step demo_kyber demo_env ord_cfg (Suc 0))\<^sup>*\<^sup>*
      (ord_node, [Filling (sh_of [entry_of (demo_queue ! 0)]), Filling (sh_of [entry_of (demo_queue ! 1)])]) (t, [Filling empty_shuffle, Filling empty_shuffle])
    \<and> opa_BlockId e1 = opa_BlockId e2 \<and> nget (ordSnapshot t) 10 (opa_BlockId e1) = Some (frag_of demo_env e2)
    \<and> outbox t = outbox ord_node @ map (\<lambda>i. (Concierge OPA i, OPAEntry e1)) (members_to_send ord_cfg ord_node OPA (Indices (opa_Booth e1)))
          @ map (\<lambda>i. (Concierge OPA i, OPAEntry e2)) (members_to_send ord_cfg ord_node OPA (Indices (opa_Booth e2)))"
proof -
  obtain e1 b1 s1 where r1: "make_choose demo_kyber demo_env ord_cfg (Suc 0) (sh_of [entry_of (demo_queue ! 0)]) ord_node = Done (Some (e1, b1)) s1"
    "world_ok demo_env ord_cfg s1" using make_choose_world [OF ord_world_ok, of "[entry_of (demo_queue ! 0)]" demo_kyber 0] by blast
  obtain e2 b2 s2 where r2: "make_choose demo_kyber demo_env ord_cfg (Suc 0) (sh_of [entry_of (demo_queue ! 1)]) s1 = Done (Some (e2, b2)) s2"
    "world_ok demo_env ord_cfg s2" using make_choose_world [OF r1(2), of "[entry_of (demo_queue ! 1)]" demo_kyber 0] by blast
  have conc: "concierge s1 = concierge ord_node" "concierge s2 = concierge s1"
    using make_choose_view [OF r1(1)] make_choose_view [OF r2(1)] by (simp_all add: net_view_def)
  have range: "members_in_range ord_cfg ord_node OPA (Indices (opa_Booth e1))" "members_in_range ord_cfg s1 OPA (Indices (opa_Booth e2))"
    using make_choose_booth_known [OF r1 conc(1)] make_choose_booth_known [OF r2 conc(2)] .
  have off: "\<not> EvaluateComPossibilityFlag ord_cfg" "PerfMetres ord_cfg \<longrightarrow> LatMetreInterval ord_cfg \<noteq> 0" "\<not> broadcastError ord_node"
    "\<forall>k. \<not> encErr demo_env k" "ServerID ord_cfg = 10"
    by (simp_all add: ord_cfg_def demo_cfg_def ord_node_def demo_node_def init_node_def demo_env_def)
  have "\<forall>e \<in> {e1, e2}. members_in_range ord_cfg ord_node OPA (Indices (opa_Booth e)) \<and> audible demo_env ord_cfg ord_node (Indices (opa_Booth e))"
    using range conc(1) off(1) by (auto simp: members_in_range_def audible_def)
  from workers_share_id [OF r1(1) r2(1) off(2-4) this] off(5) show ?thesis by metis
qed

end
