(* ===== verification/Flags.thy ===== *)
theory Flags
  imports Roles
begin

text \<open>
  The command lines of the two programs: Go's package \<open>flag\<close>, with the number syntax of \<open>strconv.ParseInt\<close> in base 0, the flags that
  \<open>loadCmdParameters\<close> and the key generator declare, and what both programs get from their arguments.
\<close>

section \<open>Reading values\<close>

text \<open>\<open>strconv.ParseUint(s, 0, 64)\<close>: a prefix chooses the base, a leading zero means octal, underscores may separate digits.
  \<open>None\<close> stands for both its errors.\<close>

definition lower :: "char \<Rightarrow> char" where
  "lower c = (if CHR ''A'' \<le> c \<and> c \<le> CHR ''Z'' then char_of (of_char c + 32 :: nat) else c)"

definition digit_value :: "char \<Rightarrow> nat option" where
  "digit_value c = (if is_digit c then Some (digit_val c)
     else if CHR ''a'' \<le> lower c \<and> lower c \<le> CHR ''z'' then Some (of_char (lower c) - 97 + 10) else None)"

text \<open>The digits of a base: the value, and whether there were underscores.\<close>

fun uint_loop :: "nat \<Rightarrow> string \<Rightarrow> nat \<Rightarrow> bool \<Rightarrow> (nat \<times> bool) option" where
  "uint_loop base [] n underscores = Some (n, underscores)"
| "uint_loop base (c # cs) n underscores =
     (if c = CHR ''_'' then uint_loop base cs n True
      else case digit_value c of None \<Rightarrow> None
        | Some d \<Rightarrow> if base \<le> d then None else uint_loop base cs (n * base + d) underscores)"

text \<open>\<open>underscoreOK\<close>: underscores only between digits, or between the prefix and a digit. \<open>saw\<close> is the last kind of character: \<open>0\<close> a digit,
  \<open>_\<close> an underscore, \<open>^\<close> the beginning, \<open>!\<close> none of these.\<close>

fun underscore_loop :: "bool \<Rightarrow> char \<Rightarrow> string \<Rightarrow> bool" where
  "underscore_loop hex saw [] = (saw \<noteq> CHR ''_'')"
| "underscore_loop hex saw (c # cs) =
     (if is_digit c \<or> (hex \<and> CHR ''a'' \<le> lower c \<and> lower c \<le> CHR ''f'') then underscore_loop hex (CHR ''0'') cs
      else if c = CHR ''_'' then saw = CHR ''0'' \<and> underscore_loop hex (CHR ''_'') cs
      else saw \<noteq> CHR ''_'' \<and> underscore_loop hex (CHR ''!'') cs)"

definition underscoreOK :: "string \<Rightarrow> bool" where
  "underscoreOK s0 = (let s = (if s0 \<noteq> [] \<and> hd s0 \<in> {CHR ''-'', CHR ''+''} then tl s0 else s0) in
     if 2 \<le> length s \<and> hd s = CHR ''0'' \<and> lower (s ! 1) \<in> {CHR ''b'', CHR ''o'', CHR ''x''}
     then underscore_loop (lower (s ! 1) = CHR ''x'') (CHR ''0'') (drop 2 s)
     else underscore_loop False (CHR ''^'') s)"

definition base_prefix :: "string \<Rightarrow> nat \<times> string" where
  "base_prefix s =
     (if hd s \<noteq> CHR ''0'' then (10, s)
      else if 3 \<le> length s \<and> lower (s ! 1) = CHR ''b'' then (2, drop 2 s)
      else if 3 \<le> length s \<and> lower (s ! 1) = CHR ''o'' then (8, drop 2 s)
      else if 3 \<le> length s \<and> lower (s ! 1) = CHR ''x'' then (16, drop 2 s)
      else (8, tl s))"

definition parse_uint0 :: "string \<Rightarrow> nat option" where
  "parse_uint0 s = (if s = [] then None
     else let (base, ds) = base_prefix s in case uint_loop base ds 0 False of None \<Rightarrow> None
       | Some (n, underscores) \<Rightarrow> if 2 ^ 64 \<le> n \<or> (underscores \<and> \<not> underscoreOK s) then None else Some n)"

text \<open>\<open>strconv.ParseInt(s, 0, 64)\<close>\<close>

definition parse_int0 :: "string \<Rightarrow> int option" where
  "parse_int0 s = (if s = [] then None
     else let neg = (hd s = CHR ''-''); ds = (if hd s \<in> {CHR ''-'', CHR ''+''} then tl s else s) in
       case parse_uint0 ds of None \<Rightarrow> None
       | Some n \<Rightarrow> if (if neg then 2 ^ 63 < n else 2 ^ 63 \<le> n) then None else Some (if neg then - int n else int n))"

text \<open>\<open>strconv.ParseBool\<close>\<close>

definition parse_bool :: "string \<Rightarrow> bool option" where
  "parse_bool s = (if s \<in> {''1'', ''t'', ''T'', ''true'', ''TRUE'', ''True''} then Some True
     else if s \<in> {''0'', ''f'', ''F'', ''false'', ''FALSE'', ''False''} then Some False else None)"

section \<open>Package \<open>flag\<close>\<close>

text \<open>A declared flag sets one of the parameters \<open>'p\<close>. Every error of \<open>flag.Parse\<close> ends the process with status 2, \<open>-h\<close> with status 0.\<close>

datatype 'p flag_var =
    IntVar "int \<Rightarrow> 'p \<Rightarrow> 'p"
  | Int64Var "int64 \<Rightarrow> 'p \<Rightarrow> 'p"
  | BoolVar "bool \<Rightarrow> 'p \<Rightarrow> 'p"
  | StringVar "string \<Rightarrow> 'p \<Rightarrow> 'p"

datatype flag_error = ErrHelp | BadSyntax | NotDefined | NeedsArgument | InvalidValue

fun set_flag :: "'p flag_var \<Rightarrow> string \<Rightarrow> 'p \<Rightarrow> 'p option" where
  "set_flag (IntVar u) v p = map_option (\<lambda>i. u i p) (parse_int0 v)"
| "set_flag (Int64Var u) v p = map_option (\<lambda>i. u (word_of_int i) p) (parse_int0 v)"
| "set_flag (BoolVar u) v p = map_option (\<lambda>b. u b p) (parse_bool v)"
| "set_flag (StringVar u) v p = Some (u v p)"

fun is_bool_flag :: "'p flag_var \<Rightarrow> bool" where
  "is_bool_flag (BoolVar u) = True"
| "is_bool_flag f = False"

text \<open>The name and, after the first \<open>=\<close>, the value.\<close>

fun split_value :: "string \<Rightarrow> string \<times> string option" where
  "split_value [] = ([], None)"
| "split_value (c # cs) = (if c = CHR ''='' then ([], Some cs) else let (n, v) = split_value cs in (c # n, v))"

text \<open>The arguments one after the other, up to the first that is no flag or to \<open>--\<close>.\<close>

fun parse_flags :: "(string \<times> 'p flag_var) list \<Rightarrow> string list \<Rightarrow> 'p \<Rightarrow> flag_error + 'p" where
  "parse_flags tbl [] p = Inr p"
| "parse_flags tbl (s # args) p =
     (if length s < 2 \<or> hd s \<noteq> CHR ''-'' \<or> s = ''--'' then Inr p
      else let name = (if s ! 1 = CHR ''-'' then drop 2 s else tl s) in
        if hd name \<in> {CHR ''-'', CHR ''=''} then Inl BadSyntax
        else let (n, v) = split_value name in case map_of tbl n of
            None \<Rightarrow> Inl (if n = ''help'' \<or> n = ''h'' then ErrHelp else NotDefined)
          | Some f \<Rightarrow> (case v of
              Some val \<Rightarrow> (case set_flag f val p of None \<Rightarrow> Inl InvalidValue | Some p' \<Rightarrow> parse_flags tbl args p')
            | None \<Rightarrow> if is_bool_flag f
                then (case set_flag f ''true'' p of None \<Rightarrow> Inl InvalidValue | Some p' \<Rightarrow> parse_flags tbl args p')
                else (case args of [] \<Rightarrow> Inl NeedsArgument
                  | val # args' \<Rightarrow> (case set_flag f val p of None \<Rightarrow> Inl InvalidValue | Some p' \<Rightarrow> parse_flags tbl args' p'))))"

section \<open>The flags of V-Guard\<close>

text \<open>
  All parameters. Beyond those of \<open>cfg\<close>: \<open>parseConf\<close> opens the file \<open>ConfPath\<close>, \<open>ConsInterval\<close> and \<open>EasingDuration\<close> are the
  lengths of the sleeps of the consensus and ordering loops, \<open>PlainStorage\<close>, \<open>LogLevel\<close> and \<open>Delay\<close> choose the log, the information board prints some, and
  the others are declared and not read. \<open>proposerIds\<close> is a local variable of \<open>loadCmdParameters\<close>.
\<close>

record params = cfg +
  Delay :: int
  PlainStorage :: bool
  GC :: bool
  Role :: int
  EasingDuration :: int
  ConsInterval :: int
  LogLevel :: int
  ConfPath :: string
  VehicleSpeed :: int
  BoothMode :: int
  BoothIDOfModeOCSB :: int
  BoothIDOfModeOCDBWOP :: int
  BoothIDOfModeOCDBNOP :: int
  proposerIds :: string

definition flag_defaults :: params where
  "flag_defaults = \<lparr>BatchSize = 1, MsgSize = 32, MsgLoad = 1000, NumOfValidators = 1, NumOfConn = 6, ServerID = 0, PerfMetres = True,
     LatMetreInterval = 100, YieldCycle = 10, ConsWaitingSec = 10, MainProposerId = 1, UsePeriodicOrdering = False, OrderingPeriodMs = 20,
     ProposerList = [], EvaluateComPossibilityFlag = True, AllowBypassRoute = False,
     Delay = 0, PlainStorage = False, GC = False, Role = 0, EasingDuration = 1, ConsInterval = 500, LogLevel = 4,
     ConfPath = ''./config/cluster_localhost.conf'', VehicleSpeed = 80, BoothMode = 0, BoothIDOfModeOCSB = 0, BoothIDOfModeOCDBWOP = 0,
     BoothIDOfModeOCDBNOP = 0, proposerIds = []\<rparr>"

definition vguard_flags :: "(string \<times> params flag_var) list" where
  "vguard_flags =
     [(''b'', IntVar (\<lambda>v. BatchSize_update (\<lambda>_. v))),
      (''m'', IntVar (\<lambda>v. MsgSize_update (\<lambda>_. v))),
      (''ml'', Int64Var (\<lambda>v. MsgLoad_update (\<lambda>_. v))),
      (''w'', IntVar (\<lambda>v. NumOfValidators_update (\<lambda>_. v))),
      (''c'', IntVar (\<lambda>v. NumOfConn_update (\<lambda>_. v))),
      (''id'', IntVar (\<lambda>v. ServerID_update (\<lambda>_. v))),
      (''d'', IntVar (\<lambda>v. Delay_update (\<lambda>_. v))),
      (''s'', BoolVar (\<lambda>v. PlainStorage_update (\<lambda>_. v))),
      (''gc'', BoolVar (\<lambda>v. GC_update (\<lambda>_. v))),
      (''r'', IntVar (\<lambda>v. Role_update (\<lambda>_. v))),
      (''pm'', BoolVar (\<lambda>v. PerfMetres_update (\<lambda>_. v))),
      (''lm'', Int64Var (\<lambda>v. LatMetreInterval_update (\<lambda>_. v))),
      (''yc'', IntVar (\<lambda>v. YieldCycle_update (\<lambda>_. v))),
      (''ed'', IntVar (\<lambda>v. EasingDuration_update (\<lambda>_. v))),
      (''cw'', IntVar (\<lambda>v. ConsWaitingSec_update (\<lambda>_. v))),
      (''ci'', IntVar (\<lambda>v. ConsInterval_update (\<lambda>_. v))),
      (''log'', IntVar (\<lambda>v. LogLevel_update (\<lambda>_. v))),
      (''cfp'', StringVar (\<lambda>v. ConfPath_update (\<lambda>_. v))),
      (''vs'', IntVar (\<lambda>v. VehicleSpeed_update (\<lambda>_. v))),
      (''bm'', IntVar (\<lambda>v. BoothMode_update (\<lambda>_. v))),
      (''ocsb'', IntVar (\<lambda>v. BoothIDOfModeOCSB_update (\<lambda>_. v))),
      (''ocdbwop'', IntVar (\<lambda>v. BoothIDOfModeOCDBWOP_update (\<lambda>_. v))),
      (''ocdbnop'', IntVar (\<lambda>v. BoothIDOfModeOCDBNOP_update (\<lambda>_. v))),
      (''ecf'', BoolVar (\<lambda>v. EvaluateComPossibilityFlag_update (\<lambda>_. v))),
      (''abr'', BoolVar (\<lambda>v. AllowBypassRoute_update (\<lambda>_. v))),
      (''pl'', StringVar (\<lambda>v. proposerIds_update (\<lambda>_. v))),
      (''mainp'', IntVar (\<lambda>v. MainProposerId_update (\<lambda>_. v))),
      (''ordering-periodic'', BoolVar (\<lambda>v. UsePeriodicOrdering_update (\<lambda>_. v))),
      (''ordperiod'', IntVar (\<lambda>v. OrderingPeriodMs_update (\<lambda>_. v)))]"

text \<open>How a process that cannot start ends: by \<open>flag.Parse\<close> or by \<open>log.Fatalf\<close>.\<close>

datatype start_error = FlagError flag_error | FatalProposerID

definition load_parameters :: "string list \<Rightarrow> start_error + params" where
  "load_parameters args = (case parse_flags vguard_flags args flag_defaults of Inl e \<Rightarrow> Inl (FlagError e)
     | Inr p \<Rightarrow> (case loadCmdParameters (proposerIds p) p of None \<Rightarrow> Inl FatalProposerID | Some q \<Rightarrow> Inr q))"

section \<open>The flags of the key generator\<close>

record keygen_params =
  kg_t :: int
  kg_n :: int
  kg_boothId :: int
  kg_blockchainId :: int

definition keygen_defaults :: keygen_params where
  "keygen_defaults = \<lparr>kg_t = 2, kg_n = 6, kg_boothId = 0, kg_blockchainId = - 1\<rparr>"

definition keygen_flags :: "(string \<times> keygen_params flag_var) list" where
  "keygen_flags =
     [(''t'', IntVar (\<lambda>v. kg_t_update (\<lambda>_. v))), (''n'', IntVar (\<lambda>v. kg_n_update (\<lambda>_. v))),
      (''b'', IntVar (\<lambda>v. kg_boothId_update (\<lambda>_. v))), (''p'', IntVar (\<lambda>v. kg_blockchainId_update (\<lambda>_. v)))]"

text \<open>The generator as a process: its arguments, the polynomials it draws (one for each degree) and the files; the files it leaves.\<close>

definition generator_process :: "('sc, 'pt, 'pub) kyber \<Rightarrow> (int \<Rightarrow> 'sc list) \<Rightarrow> string list \<Rightarrow> fs \<Rightarrow> fs" where
  "generator_process ky poly args f = (case parse_flags keygen_flags args keygen_defaults of Inl e \<Rightarrow> f
     | Inr g \<Rightarrow> (case generator_main ky (poly (kg_t g)) (kg_n g) (kg_boothId g) (kg_blockchainId g) f of Inl f' \<Rightarrow> f' | Inr f' \<Rightarrow> f'))"

text \<open>The arguments \<open>generateBoothKey\<close> passes to it.\<close>

definition cmdArgs :: "Booth \<Rightarrow> int \<Rightarrow> int \<Rightarrow> string list" where
  "cmdArgs boo numOfConn blockchainId =
     (let boothSize = int (length (Indices boo)); threshold = go_div boothSize 3 * 2 in
      [''-t='' @ itoa threshold, ''-n='' @ itoa numOfConn, ''-b='' @ itoa (ID boo), ''-p='' @ itoa blockchainId])"

section \<open>Printed numbers are read back\<close>

definition is_int64 :: "int \<Rightarrow> bool" where
  "is_int64 i \<longleftrightarrow> - (2 ^ 63) \<le> i \<and> i < 2 ^ 63"

lemma digit_value_digit: "is_digit c \<Longrightarrow> digit_value c = Some (digit_val c) \<and> digit_val c < 10 \<and> c \<noteq> CHR ''_''"
  by (auto simp: digit_value_def digit_val_def is_digit_def)

lemma uint_loop_digits:
  assumes "list_all is_digit ds"
  shows "uint_loop 10 ds n u = Some (foldl (\<lambda>n c. 10 * n + digit_val c) n ds, u)"
  using assms
proof (induction ds arbitrary: n)
  case (Cons c ds)
  then show ?case using digit_value_digit [of c] by (simp add: mult.commute)
qed simp

lemma digits10_zero: "digits10 0 = ''0''"
  by code_simp

lemma hd_digits10_pos: "0 < n \<Longrightarrow> hd (digits10 n) \<noteq> CHR ''0''"
proof (induction n rule: digits10.induct)
  case (1 n)
  show ?case
  proof (cases "n < 10")
    case True
    have "digit_val (CHR ''0'') = 0" by (simp add: digit_val_def)
    then have "char_of (48 + n) \<noteq> CHR ''0''" using "1.prems" digit_char(2) [OF True] by force
    then show ?thesis using True by (subst digits10.simps) simp
  next
    case False
    then show ?thesis using "1.IH" by (subst digits10.simps) simp
  qed
qed

lemma parse_uint0_digits10:
  assumes "n < 2 ^ 64"
  shows "parse_uint0 (digits10 n) = Some n"
proof (cases "n = 0")
  case True
  then show ?thesis by (simp add: parse_uint0_def base_prefix_def digits10_zero)
next
  case False
  then have "base_prefix (digits10 n) = (10, digits10 n)" using hd_digits10_pos [of n] by (simp add: base_prefix_def)
  moreover have "uint_loop 10 (digits10 n) 0 False = Some (n, False)"
    using uint_loop_digits [OF digits10_digits] undigits_digits10 [of n] by (simp add: undigits_def)
  ultimately show ?thesis using assms by (simp add: parse_uint0_def)
qed

lemma parse_int0_itoa:
  assumes "is_int64 i"
  shows "parse_int0 (itoa i) = Some i"
proof (cases "i < 0")
  case True
  have "parse_uint0 (digits10 (nat (- i))) = Some (nat (- i))"
    by (rule parse_uint0_digits10) (use assms True in \<open>simp add: is_int64_def\<close>)
  then show ?thesis using True assms by (auto simp: parse_int0_def itoa_def is_int64_def)
next
  case False
  have "parse_uint0 (digits10 (nat i)) = Some (nat i)"
    by (rule parse_uint0_digits10) (use assms False in \<open>simp add: is_int64_def\<close>)
  then show ?thesis using False assms is_digit_sign [OF hd_digits10 [of "nat i"]] by (auto simp: parse_int0_def itoa_def is_int64_def)
qed

definition bool_text :: "bool \<Rightarrow> string" where
  "bool_text b = (if b then ''true'' else ''false'')"

lemma parse_bool_text: "parse_bool (bool_text b) = Some b"
  by (simp add: parse_bool_def bool_text_def)

section \<open>A flag with its value\<close>

definition flag_arg :: "string \<Rightarrow> string \<Rightarrow> string" where
  "flag_arg name v = CHR ''-'' # name @ CHR ''='' # v"

lemma split_value_arg: "CHR ''='' \<notin> set name \<Longrightarrow> split_value (name @ CHR ''='' # v) = (name, Some v)"
  by (induction name) auto

text \<open>It sets its parameter, or ends the process.\<close>

lemma parse_flag_arg:
  assumes "name \<noteq> []" "hd name \<noteq> CHR ''-''" "CHR ''='' \<notin> set name" "map_of tbl name = Some f"
  shows "parse_flags tbl (flag_arg name v # args) p
    = (case set_flag f v p of None \<Rightarrow> Inl InvalidValue | Some p' \<Rightarrow> parse_flags tbl args p')"
proof -
  obtain c cs where n: "name = c # cs" "c \<noteq> CHR ''-''" "c \<noteq> CHR ''=''" using assms(1-3) by (cases name) auto
  have "split_value (name @ CHR ''='' # v) = (name, Some v)" by (rule split_value_arg [OF assms(3)])
  then show ?thesis using assms(4) n by (simp add: flag_arg_def Let_def)
qed

definition flag_ok :: "string \<Rightarrow> bool" where
  "flag_ok name \<longleftrightarrow> name \<noteq> [] \<and> hd name \<noteq> CHR ''-'' \<and> CHR ''='' \<notin> set name"

lemma parse_flags_set:
  assumes "map_of tbl name = Some f" "flag_ok name" "set_flag f v p = Some p'"
  shows "parse_flags tbl (flag_arg name v # args) p = parse_flags tbl args p'"
  using assms parse_flag_arg [of name tbl f v args p] by (simp add: flag_ok_def)

lemma parse_int_flag:
  assumes "map_of tbl name = Some (IntVar u)" "flag_ok name" "is_int64 i"
  shows "parse_flags tbl (flag_arg name (itoa i) # args) p = parse_flags tbl args (u i p)"
  by (rule parse_flags_set [OF assms(1,2)]) (simp add: parse_int0_itoa assms(3))

lemma parse_int64_flag:
  assumes "map_of tbl name = Some (Int64Var u)" "flag_ok name"
  shows "parse_flags tbl (flag_arg name (itoa (sint w)) # args) p = parse_flags tbl args (u w p)"
proof (rule parse_flags_set [OF assms])
  have "is_int64 (sint w)" using sint_range_size [of w] by (simp add: is_int64_def word_size)
  then show "set_flag (Int64Var u) (itoa (sint w)) p = Some (u w p)" by (simp add: parse_int0_itoa)
qed

lemma parse_bool_flag:
  assumes "map_of tbl name = Some (BoolVar u)" "flag_ok name"
  shows "parse_flags tbl (flag_arg name (bool_text b) # args) p = parse_flags tbl args (u b p)"
  by (rule parse_flags_set [OF assms]) (simp add: parse_bool_text)

lemma parse_string_flag:
  assumes "map_of tbl name = Some (StringVar u)" "flag_ok name"
  shows "parse_flags tbl (flag_arg name v # args) p = parse_flags tbl args (u v p)"
  by (rule parse_flags_set [OF assms]) simp

lemmas parse_flag = parse_int_flag parse_int64_flag parse_bool_flag parse_string_flag

text \<open>No flag is declared twice, which would panic, and every declared name can be given.\<close>

lemma flags_declared: "distinct (map fst vguard_flags) \<and> list_all flag_ok (map fst vguard_flags)"
  "distinct (map fst keygen_flags) \<and> list_all flag_ok (map fst keygen_flags)"
  by (simp_all add: vguard_flags_def keygen_flags_def flag_ok_def)

section \<open>A configuration as a command line\<close>

definition command_line :: "params \<Rightarrow> string list" where
  "command_line p =
     [flag_arg ''b'' (itoa (BatchSize p)), flag_arg ''m'' (itoa (MsgSize p)), flag_arg ''ml'' (itoa (sint (MsgLoad p))),
      flag_arg ''w'' (itoa (NumOfValidators p)), flag_arg ''c'' (itoa (NumOfConn p)), flag_arg ''id'' (itoa (ServerID p)),
      flag_arg ''d'' (itoa (Delay p)), flag_arg ''s'' (bool_text (PlainStorage p)), flag_arg ''gc'' (bool_text (GC p)), flag_arg ''r'' (itoa (Role p)),
      flag_arg ''pm'' (bool_text (PerfMetres p)), flag_arg ''lm'' (itoa (sint (LatMetreInterval p))), flag_arg ''yc'' (itoa (YieldCycle p)),
      flag_arg ''ed'' (itoa (EasingDuration p)), flag_arg ''cw'' (itoa (ConsWaitingSec p)), flag_arg ''ci'' (itoa (ConsInterval p)),
      flag_arg ''log'' (itoa (LogLevel p)), flag_arg ''cfp'' (ConfPath p), flag_arg ''vs'' (itoa (VehicleSpeed p)), flag_arg ''bm'' (itoa (BoothMode p)),
      flag_arg ''ocsb'' (itoa (BoothIDOfModeOCSB p)), flag_arg ''ocdbwop'' (itoa (BoothIDOfModeOCDBWOP p)), flag_arg ''ocdbnop'' (itoa (BoothIDOfModeOCDBNOP p)),
      flag_arg ''ecf'' (bool_text (EvaluateComPossibilityFlag p)), flag_arg ''abr'' (bool_text (AllowBypassRoute p)),
      flag_arg ''pl'' (join_on (CHR '','') (map itoa (ProposerList p))), flag_arg ''mainp'' (itoa (MainProposerId p)),
      flag_arg ''ordering-periodic'' (bool_text (UsePeriodicOrdering p)), flag_arg ''ordperiod'' (itoa (OrderingPeriodMs p))]"

definition int_values :: "params \<Rightarrow> int list" where
  "int_values p = [BatchSize p, MsgSize p, NumOfValidators p, NumOfConn p, ServerID p, Delay p, Role p, YieldCycle p, EasingDuration p, ConsWaitingSec p,
     ConsInterval p, LogLevel p, VehicleSpeed p, BoothMode p, BoothIDOfModeOCSB p, BoothIDOfModeOCDBWOP p, BoothIDOfModeOCDBNOP p, MainProposerId p]
     @ ProposerList p"

lemma parse_ids_itoa: "\<forall>i \<in> set is. is_int64 i \<Longrightarrow> parse_ids (map itoa is) = Some is"
  by (induction "is") (simp_all add: atoi_itoa is_int64_def)

lemma split_ids:
  assumes "\<forall>i \<in> set is. is_int64 i" "is \<noteq> []"
  shows "parse_ids (split_on (CHR '','') (join_on (CHR '','') (map itoa is))) = Some is"
proof -
  have "\<forall>w \<in> set (map itoa is). CHR '','' \<notin> set w" using itoa_chars by (auto simp: is_digit_def dest!: itoa_chars)
  then show ?thesis using assms by (simp add: split_join parse_ids_itoa)
qed

text \<open>C32: Every configuration can be given on the command line: for all 29 flags, with numbers in the range of an \<open>int\<close> and an ordering period that is not
  clamped, \<open>flag.Parse\<close> and \<open>loadCmdParameters\<close> read back from the printed form exactly these parameters, each in its own variable, and the list of proposers from the
  text of \<open>-pl\<close>.\<close>

theorem command_line_read_back:
  assumes "\<forall>i \<in> set (int_values p). is_int64 i" "1 \<le> OrderingPeriodMs p" "OrderingPeriodMs p \<le> 10000"
    and "proposerIds p = join_on (CHR '','') (map itoa (ProposerList p))"
  shows "load_parameters (command_line p) = Inr p"
proof -
  have r: "is_int64 (OrderingPeriodMs p)" using assms(2,3) by (simp add: is_int64_def)
  have ids: "\<forall>i \<in> set (ProposerList p). is_int64 i" using assms(1) by (simp add: int_values_def)
  let ?p = "p\<lparr>ProposerList := []\<rparr>"
  have "parse_flags vguard_flags (command_line p) flag_defaults = Inr ?p"
    using assms(1,4) r unfolding command_line_def int_values_def
    by (cases p) (simp add: parse_flag flag_ok_def vguard_flags_def flag_defaults_def del: parse_flags.simps(2))
  moreover have "loadCmdParameters (proposerIds p) ?p = Some p"
  proof (cases "ProposerList p = []")
    case True
    then show ?thesis using assms(2-4) by (cases p) (simp add: loadCmdParameters_def clamp_period_def)
  next
    case False
    have "join_on (CHR '','') (map itoa (ProposerList p)) \<noteq> []"
      using False by (cases "ProposerList p" rule: list.exhaust; cases "tl (ProposerList p)") (auto simp: neq_Nil_conv)
    then show ?thesis using assms(2-4) split_ids [OF ids False]
      by (cases p) (simp add: loadCmdParameters_def clamp_period_def)
  qed
  ultimately show ?thesis by (simp add: load_parameters_def)
qed

section \<open>The generator started by the proposer\<close>

lemma cmdArgs_parsed:
  assumes "length (Indices boo) < 2 ^ 62" "is_int64 numOfConn" "is_int64 (ID boo)" "is_int64 blockchainId"
  shows "parse_flags keygen_flags (cmdArgs boo numOfConn blockchainId) keygen_defaults = Inr \<lparr>kg_t = go_div (int (length (Indices boo))) 3 * 2,
     kg_n = numOfConn, kg_boothId = ID boo, kg_blockchainId = blockchainId\<rparr>"
proof -
  have "int (length (Indices boo)) < 2 ^ 62" using assms(1) by (metis of_nat_less_iff of_nat_numeral of_nat_power)
  moreover have "0 \<le> x div 3 \<and> x div 3 \<le> x" if "0 \<le> x" for x :: int using that by presburger
  note this [of "int (length (Indices boo))"]
  ultimately have t: "is_int64 (go_div (int (length (Indices boo))) 3 * 2)" by (simp add: is_int64_def go_div_def)
  have "cmdArgs boo numOfConn blockchainId = [flag_arg ''t'' (itoa (go_div (int (length (Indices boo))) 3 * 2)), flag_arg ''n'' (itoa numOfConn),
      flag_arg ''b'' (itoa (ID boo)), flag_arg ''p'' (itoa blockchainId)]"
    by (simp add: cmdArgs_def flag_arg_def)
  then show ?thesis using t assms(2-4)
    by (simp add: parse_flag flag_ok_def keygen_flags_def keygen_defaults_def del: parse_flags.simps(2))
qed

text \<open>C31: The key generator is a program of its own, run with arguments. The process that \<open>generateBoothKey\<close> starts reads the threshold, the number of
  participants, the booth and the blockchain it was given, so that its effect on the files is the call of the generator on these
  values, also when it fails.\<close>

theorem generateBoothKey_process:
  assumes "length (Indices boo) < 2 ^ 62" "is_int64 numOfConn" "is_int64 (ID boo)" "is_int64 blockchainId"
  shows "generateBoothKey ky boo numOfConn blockchainId s
    = Done () (s\<lparr>files := generator_process ky (newPriPoly ky (ID boo)) (cmdArgs boo numOfConn blockchainId) (files s)\<rparr>)"
  using cmdArgs_parsed [OF assms] by (simp add: generator_process_def generateBoothKey_def Let_def)

section \<open>The documented command lines\<close>

text \<open>\<open>scripts/run.sh\<close> with its five parameters: the number of the server, its role, the number of connections, the message size and the network delay.\<close>

definition run_script :: "string \<Rightarrow> string \<Rightarrow> string \<Rightarrow> string \<Rightarrow> string \<Rightarrow> string list" where
  "run_script sid role conns msize delay =
     [flag_arg ''id'' sid, flag_arg ''r'' role, flag_arg ''b'' ''100'', flag_arg ''c'' conns, flag_arg ''cfp'' ''./config/cluster_localhost.conf'',
      flag_arg ''ci'' ''500'', flag_arg ''cw'' ''20'', flag_arg ''d'' delay, flag_arg ''ed'' ''1'', flag_arg ''gc'' ''false'', flag_arg ''lm'' ''100'',
      flag_arg ''log'' ''4'', flag_arg ''m'' msize, flag_arg ''ml'' ''1000000'', flag_arg ''pm'' ''true'', flag_arg ''s'' ''true'', flag_arg ''w'' ''1'',
      flag_arg ''yc'' ''0'']"

definition run_params :: "int \<Rightarrow> int \<Rightarrow> int \<Rightarrow> int \<Rightarrow> int \<Rightarrow> params" where
  "run_params sid role conns msize delay = flag_defaults\<lparr>ServerID := sid, Role := role, BatchSize := 100, NumOfConn := conns, ConsWaitingSec := 20,
     Delay := delay, MsgSize := msize, MsgLoad := 1000000, PlainStorage := True, YieldCycle := 0\<rparr>"

lemma literals: "parse_int0 ''100'' = Some 100" "parse_int0 ''500'' = Some 500" "parse_int0 ''20'' = Some 20" "parse_int0 ''1'' = Some 1"
  "parse_int0 ''4'' = Some 4" "parse_int0 ''1000000'' = Some 1000000" "parse_int0 ''0'' = Some 0"
  by (simp_all add: parse_int0_def parse_uint0_def base_prefix_def digit_value_def is_digit_def digit_val_def lower_def)

lemma parse_true: "map_of tbl name = Some (BoolVar u) \<Longrightarrow> flag_ok name \<Longrightarrow> parse_flags tbl (flag_arg name ''true'' # args) p = parse_flags tbl args (u True p)"
  and parse_false: "map_of tbl name = Some (BoolVar u) \<Longrightarrow> flag_ok name \<Longrightarrow> parse_flags tbl (flag_arg name ''false'' # args) p = parse_flags tbl args (u False p)"
  using parse_bool_flag [of tbl name u True args p] parse_bool_flag [of tbl name u False args p] by (simp_all add: bool_text_def)

lemma parse_int_literal:
  assumes "map_of tbl name = Some (IntVar u)" "flag_ok name" "parse_int0 v = Some i"
  shows "parse_flags tbl (flag_arg name v # args) p = parse_flags tbl args (u i p)"
  by (rule parse_flags_set [OF assms(1,2)]) (simp add: assms(3))

lemma parse_int64_literal:
  assumes "map_of tbl name = Some (Int64Var u)" "flag_ok name" "parse_int0 v = Some i"
  shows "parse_flags tbl (flag_arg name v # args) p = parse_flags tbl args (u (word_of_int i) p)"
  by (rule parse_flags_set [OF assms(1,2)]) (simp add: assms(3))

lemmas parse_literal = parse_int_literal parse_int64_literal parse_true parse_false

lemma run_script_parsed:
  assumes "is_int64 sid" "is_int64 role" "is_int64 conns" "is_int64 msize" "is_int64 delay"
  shows "load_parameters (run_script (itoa sid) (itoa role) (itoa conns) (itoa msize) (itoa delay)) = Inr (run_params sid role conns msize delay)"
proof -
  have "parse_flags vguard_flags (run_script (itoa sid) (itoa role) (itoa conns) (itoa msize) (itoa delay)) flag_defaults
    = Inr (run_params sid role conns msize delay)"
    using assms unfolding run_script_def run_params_def
    by (simp add: parse_flag parse_literal literals flag_ok_def vguard_flags_def del: parse_flags.simps(2))
      (simp add: flag_defaults_def)
  then show ?thesis by (simp add: load_parameters_def loadCmdParameters_def clamp_period_def run_params_def flag_defaults_def)
qed

text \<open>An empty number of connections is no number.\<close>

lemma run_script_refused:
  assumes "is_int64 sid" "is_int64 role"
  shows "load_parameters (run_script (itoa sid) (itoa role) [] [] []) = Inl (FlagError InvalidValue)"
proof -
  have empty: "parse_flags vguard_flags (flag_arg ''c'' [] # args) p = Inl InvalidValue" for args p
    by (subst parse_flag_arg [where f = "IntVar (\<lambda>v. NumOfConn_update (\<lambda>_. v))"]) (simp_all add: vguard_flags_def parse_int0_def)
  have "parse_flags vguard_flags (run_script (itoa sid) (itoa role) [] [] []) flag_defaults = Inl InvalidValue"
    using assms unfolding run_script_def
    by (simp add: parse_flag parse_literal literals flag_ok_def empty [unfolded vguard_flags_def] vguard_flags_def del: parse_flags.simps(2))
  then show ?thesis by (simp add: load_parameters_def)
qed

lemma validator_alone:
  assumes "proposerLookup t = (\<lambda>_. [])"
  shows "\<exists>u. runAsValidator nw en c t = Done [] u \<and> sent u = sent t \<and> vgInst u = vgInst t"
proof (cases "communicationFile en (ServerID c)")
  case None
  then show ?thesis using assms by (simp add: runAsValidator_def)
next
  case (Some item)
  let ?u = "t\<lparr>valToProComTimeMap := merge_com (valToProComTimeMap t) (ServerID c) item\<rparr>"
  have "runAsValidator nw en c t = Done [] ?u" using Some assms by (simp add: runAsValidator_def)
  then show ?thesis by simp
qed

section \<open>Witnesses\<close>

definition demo_params :: params where
  "demo_params = flag_defaults\<lparr>ProposerList := [10, 253], proposerIds := ''10,253'', ConsInterval := 250, EasingDuration := 2, ConfPath := ''c=d''\<rparr>"

theorem command_line_read_back_witness:
  "load_parameters (command_line demo_params) = Inr demo_params"
proof (rule command_line_read_back)
  show "\<forall>i \<in> set (int_values demo_params). is_int64 i" by (simp add: int_values_def demo_params_def flag_defaults_def is_int64_def)
  show "proposerIds demo_params = join_on (CHR '','') (map itoa (ProposerList demo_params))"
    by code_simp
qed (simp_all add: demo_params_def flag_defaults_def)

theorem generateBoothKey_process_witness:
  "generateBoothKey demo_kyber vali_booth 14 10 init_node
    = Done () (init_node\<lparr>files := generator_process demo_kyber (newPriPoly demo_kyber 3) (cmdArgs vali_booth 14 10) (files init_node)\<rparr>)"
  using generateBoothKey_process [of vali_booth 14 10 demo_kyber init_node] by (simp add: vali_booth_def is_int64_def)

end
