(* ===== verification/Report.thy ===== *)
theory Report
  imports Flags
begin

text \<open>
  What a process prints: the choice of the log file (\<open>logger.go\<close>), the information board of \<open>init\<close> (\<open>main.go\<close>), and the record of a commit
  instance (\<open>storeVgTx\<close> of \<open>cache.go\<close>, which no other function calls). The formats of logrus are left out; a line is the text
  handed to it.
\<close>

section \<open>Formats\<close>

text \<open>\<open>%3d\<close>, and \<open>%v\<close> of a slice of numbers.\<close>

definition pad3 :: "int \<Rightarrow> string" where
  "pad3 i = replicate (3 - length (itoa i)) (CHR '' '') @ itoa i"

definition show_slice :: "int list \<Rightarrow> string" where
  "show_slice is = CHR ''['' # join_on (CHR '' '') (map itoa is) @ '']''"

definition tab :: string where
  "tab = [CHR 0x09]"

definition board_line :: "string \<Rightarrow> string \<Rightarrow> string" where
  "board_line label v = ''| '' @ label @ tab @ ''| '' @ v @ tab @ ''|''"

section \<open>The log file\<close>

text \<open>Where log lines go; writing to \<open>NilFile\<close> fails.\<close>

datatype log_out = Stderr | ToFile string | NilFile

definition log_folder :: "int \<Rightarrow> string" where
  "log_folder sid = ''./logs/s'' @ itoa sid"

definition clear_logs :: "params \<Rightarrow> fs \<Rightarrow> fs" where
  "clear_logs p f = remove_all (log_folder (ServerID p)) f"

text \<open>\<open>logs\<close> tells whether the directory \<open>./logs\<close> exists: without it \<open>Mkdir\<close> and \<open>OpenFile\<close> fail, and the nil file is used.\<close>

definition open_log :: "bool \<Rightarrow> params \<Rightarrow> fs \<Rightarrow> log_out \<times> fs" where
  "open_log logs p f =
     (let fileName = log_folder (ServerID p) @ ''/n_'' @ itoa (NumOfConn p) @ ''_b'' @ itoa (BatchSize p) @ ''_d'' @ itoa (Delay p) @ ''.log''
      in if logs then (ToFile fileName, append_file fileName [] f) else (NilFile, f))"

definition setLogger :: "bool \<Rightarrow> params \<Rightarrow> fs \<Rightarrow> log_out \<times> fs" where
  "setLogger logs p f = (if PlainStorage p then open_log logs p (clear_logs p f) else (Stderr, f))"

section \<open>The information board\<close>

text \<open>\<open>p\<close> are the parameters after \<open>loadCmdParameters\<close>.\<close>

definition information_board :: "params \<Rightarrow> string list" where
  "information_board p =
     [''-------------------------------'', ''|- System  information board -|'', ''|-----------------------------|'',
      board_line ''Batch size'' (pad3 (BatchSize p)), board_line ''Message size'' (pad3 (MsgSize p)), board_line ''Server ID'' (pad3 (ServerID p)),
      board_line ''Log level'' (pad3 (LogLevel p)), board_line ''Init role'' (pad3 (Role p)), board_line ''# of servers'' (pad3 (NumOfConn p)),
      board_line ''Network delay'' (pad3 (Delay p)), board_line ''Vechile speed'' (pad3 (VehicleSpeed p)),
      board_line ''Proposer List'' (show_slice (ProposerList p)), board_line ''Main Proposer'' (itoa (MainProposerId p)),
      ''-------------------------------'']
     @ (if PlainStorage p then [''|-- Log shows at '' @ log_folder (ServerID p) @ '' --|'', ''-------------------------------''] else [])"

section \<open>The record of a commit instance\<close>

definition entry_line :: "Entry \<Rightarrow> string" where
  "entry_line e = ''ts: '' @ itoa (sint (TimeStamp e)) @ ''; tx: '' @ hex_encode (Tx e)"

definition chunk_lines :: "string \<times> Entry list list \<Rightarrow> string list" where
  "chunk_lines kc = (case kc of (key, chunk) \<Rightarrow>
     (''ordering booth: '' @ key @ '' | len(ordBoo['' @ key @ '']): '' @ itoa (int (length chunk))) # concat (map (map entry_line) chunk))"

definition summary_line :: "int \<Rightarrow> Booth \<Rightarrow> int \<Rightarrow> int64 \<Rightarrow> string" where
  "summary_line consInstID cmtBoo txs nowTime = ''VGTX '' @ itoa consInstID @ '' in Cmt Booth: '' @ show_slice (Indices cmtBoo)
     @ '' | total # of tx: '' @ itoa txs @ '', Time: '' @ itoa (sint nowTime)"

text \<open>\<open>visit\<close> is the order in which \<open>range\<close> visits the map of the ordering booths.\<close>

definition storeVgTx :: "env \<Rightarrow> cfg \<Rightarrow> ((string \<rightharpoonup> Entry list list) \<Rightarrow> (string \<times> Entry list list) list) \<Rightarrow> int \<Rightarrow> int \<Rightarrow> (node, string list) go" where
  "storeVgTx en c visit consInstID blockchainId =
     bindG (getG (\<lambda>s. case nget (vgTxData_tx s) blockchainId consInstID of None \<Rightarrow> Map.empty | Some m \<Rightarrow> m)) (\<lambda>ordBoo.
     bindG (getG (\<lambda>s. case nget (vgTxData_boo s) blockchainId consInstID of None \<Rightarrow> \<lparr>ID = 0, Indices = []\<rparr> | Some b \<Rightarrow> b)) (\<lambda>cmtBoo.
     bindG (nowG en) (\<lambda>nowTime.
     bindG (getG (\<lambda>s. rec_GetLastIdx (vgrec s))) (\<lambda>lastIdx.
     ret (summary_line consInstID cmtBoo (int lastIdx * BatchSize c) nowTime # concat (map chunk_lines (visit ordBoo)))))))"

section \<open>What is printed\<close>

text \<open>The logger touches its own folder only: the keys a process reads are not affected.\<close>

lemma log_paths: "path_under (log_folder sid) p \<Longrightarrow> take 7 p = ''./logs/''"
proof -
  assume under: "path_under (log_folder sid) p"
  have folder: "take 7 (log_folder sid) = ''./logs/''" "7 \<le> length (log_folder sid)" by (simp_all add: log_folder_def)
  show ?thesis
  proof (cases "p = log_folder sid")
    case False
    then have "take (length (log_folder sid) + 1) p = log_folder sid @ ''/''" using under by (simp add: path_under_def)
    from arg_cong [OF this, of "take 7"] show ?thesis using folder by (simp add: min_def)
  qed (use folder in simp)
qed

theorem setLogger_keeps_keys:
  assumes "snd (setLogger logs p f) = f'"
  shows "fetchPubPoly ky t boothId blockchainId f' = fetchPubPoly ky t boothId blockchainId f
    \<and> fetchPriShare ky i boothId blockchainId f' = fetchPriShare ky i boothId blockchainId f"
proof -
  have other: "f' q = f q" if "take 7 q \<noteq> ''./logs/''" for q
    using assms that log_paths [of "ServerID p" q]
    by (auto simp: setLogger_def clear_logs_def open_log_def Let_def remove_all_def append_file_def log_folder_def split: if_splits)
  then show ?thesis by (simp add: fetchPubPoly_def fetchPriShare_def)
qed

text \<open>The record of an instance lists every entry of every ordering booth, and reads the clock once.\<close>

theorem storeVgTx_lists:
  assumes "nget (vgTxData_tx s) b j = Some m" "set (visit m) = {(k, chunk). m k = Some chunk}"
  shows "\<exists>ls. storeVgTx en c visit j b s = Done ls (look s)
    \<and> (\<forall>k chunk es. m k = Some chunk \<longrightarrow> es \<in> set chunk \<longrightarrow> entry_line ` set es \<subseteq> set ls)"
proof -
  obtain l where run: "storeVgTx en c visit j b s = Done (l # concat (map chunk_lines (visit m))) (look s)"
    using assms(1) by (simp add: storeVgTx_def look_def)
  have "entry_line ` set es \<subseteq> set (l # concat (map chunk_lines (visit m)))" if "m k = Some chunk" "es \<in> set chunk" for k chunk es
  proof -
    have "(k, chunk) \<in> set (visit m)" using assms(2) that(1) by simp
    then have "set (chunk_lines (k, chunk)) \<subseteq> set (concat (map chunk_lines (visit m)))" by auto
    moreover have "entry_line ` set es \<subseteq> set (chunk_lines (k, chunk))" using that(2) by (auto simp: chunk_lines_def)
    ultimately show ?thesis by auto
  qed
  then show ?thesis using run by blast
qed

end
