(* ===== verification/Startup.thy ===== *)
theory Startup
  imports Report
begin

text \<open>
  A whole process (\<open>main.go\<close>): the parameters, \<open>init\<close>, \<open>main\<close> and \<open>start\<close> in a row, up to the goroutines that are then left, and how
  \<open>main\<close>, which waits for its wait group, ends.
\<close>

section \<open>The process\<close>

text \<open>\<open>init()\<close> after \<open>loadCmdParameters\<close>: the log file, the cluster file at \<open>ConfPath\<close>, the connection tables and the metre.\<close>

definition program_init :: "bool \<Rightarrow> params \<Rightarrow> (node, unit) go" where
  "program_init logs p =
     thenG (modG (\<lambda>s. s\<lparr>files := snd (setLogger logs p (files s))\<rparr>))
     (bindG (getG (\<lambda>s. files s (ConfPath p))) (\<lambda>conf.
     thenG (parseConf (cfg.truncate p) conf (NumOfConn p))
     (thenG (initConns (NumOfConn p)) metre_init)))"

text \<open>The goroutine of the role; the result are the goroutines it leaves behind.\<close>

definition start_role :: "network \<Rightarrow> mock \<Rightarrow> env \<Rightarrow> cfg \<Rightarrow> nat \<Rightarrow> (phase \<Rightarrow> string option list) \<Rightarrow> (phase \<Rightarrow> string option list) \<Rightarrow> bool \<Rightarrow> (node, job list) go" where
  "start_role nw mk en c fuel valConns propConns proposer =
     (if proposer then runAsProposer nw mk en c fuel (ServerID c) valConns propConns else runAsValidator nw en c)"

definition program_run :: "network \<Rightarrow> mock \<Rightarrow> env \<Rightarrow> nat \<Rightarrow> (phase \<Rightarrow> string option list) \<Rightarrow> (phase \<Rightarrow> string option list) \<Rightarrow> bool \<Rightarrow> string list
    \<Rightarrow> node \<Rightarrow> start_error + (job list, node) outcome" where
  "program_run nw mk en fuel valConns propConns logs args s = (case load_parameters args of Inl e \<Rightarrow> Inl e
     | Inr p \<Rightarrow> (let c = cfg.truncate p in
         Inr (thenG (program_init logs p) (bindG (program_main c) (start_role nw mk en c fuel valConns propConns)) s)))"

text \<open>
  \<open>vgInst.Wait()\<close>, the last call of \<open>main\<close>: it returns when the counter is zero. While it waits, some other goroutine has to be able to
  run: when none is left, Go's runtime ends the process with the fatal error \<open>all goroutines are asleep - deadlock!\<close>.
\<close>

datatype main_end = Exits | Waits | AllAsleep

definition main_wait :: "job list \<Rightarrow> node \<Rightarrow> main_end" where
  "main_wait js s = (if vgInst s = 0 then Exits else if js = [] then AllAsleep else Waits)"

section \<open>The documented command lines\<close>

definition localhost_conf :: string where
  "localhost_conf = ''./config/cluster_localhost.conf''"

definition panics :: "('a, 's) outcome \<Rightarrow> bool" where
  "panics r \<longleftrightarrow> (case r of Panicked p s \<Rightarrow> True | _ \<Rightarrow> False)"

text \<open>Without a proposer the rows of the cluster file are skipped.\<close>

lemma parseConf_no_proposer:
  assumes "ProposerList c = []"
  shows "parseConf c (Some content) n s = (if scan_lines content = []
    then Panicked (PanicMsg ''number of servers in config file does not match with provided $n$'') s else Done () s)"
proof -
  have "forG xs (\<lambda>i. bindG (parse_server fileRows (i * 0) [0..<0] zero_ServerInfo) (\<lambda>sl. ret ())) s = Done () s" for xs :: "nat list" and fileRows
    by (induction xs) simp_all
  then show ?thesis using assms by (cases "scan_lines content") (simp_all add: parseConf_def Let_def)
qed

lemma logger_keeps_conf: "snd (setLogger logs p f) localhost_conf = f localhost_conf"
  using log_paths [of "ServerID p" "localhost_conf"]
  by (auto simp: setLogger_def clear_logs_def open_log_def Let_def remove_all_def append_file_def log_folder_def localhost_conf_def)

text \<open>What \<open>init\<close> does with the parameters of \<open>scripts/run.sh\<close>.\<close>

lemma run_init:
  assumes "q = run_params sid role conns msize delay"
  shows "if files s localhost_conf = None \<or> scan_lines (the (files s localhost_conf)) = [] \<or> conns < 0
    then panics (program_init logs q s)
    else \<exists>t. program_init logs q s = Done () t \<and> sent t = sent s \<and> vgInst t = vgInst s"
proof -
  have q: "ProposerList (cfg.truncate q) = []" "ConfPath q = localhost_conf" "NumOfConn q = conns"
    using assms by (simp_all add: run_params_def flag_defaults_def cfg.truncate_def localhost_conf_def)
  let ?s = "s\<lparr>files := snd (setLogger logs q (files s))\<rparr>"
  have run: "program_init logs q s = thenG (parseConf (cfg.truncate q) (files s localhost_conf) conns)
      (thenG (initConns conns) metre_init) ?s"
    by (simp add: program_init_def q logger_keeps_conf)
  show ?thesis
  proof (cases "files s localhost_conf")
    case None
    then show ?thesis unfolding run by (simp add: panics_def parseConf_def)
  next
    case (Some content)
    show ?thesis
    proof (cases "scan_lines content = []")
      case True
      then have "parseConf (cfg.truncate q) (Some content) conns ?s = Panicked (PanicMsg ''number of servers in config file does not match with provided $n$'') ?s"
        unfolding parseConf_no_proposer [OF q(1)] by (simp only: simp_thms if_True)
      then show ?thesis unfolding run Some by (simp add: panics_def True)
    next
      case False
      then have "parseConf (cfg.truncate q) (Some content) conns ?s = Done () ?s" unfolding parseConf_no_proposer [OF q(1)] by (simp only: if_False)
      then show ?thesis unfolding run Some by (simp add: initConns_def metre_init_def panics_def False)
    qed
  qed
qed

text \<open>C39: The documented way to start a process does not start one that proposes. Run with the two parameters the README gives it,
  \<open>scripts/run.sh\<close> passes an empty number of connections, and \<open>flag.Parse\<close> ends the process. Run with all five, the role is read and not
  used: without \<open>-pl\<close> the list of proposers is empty. When the cluster file is missing or empty or the number of connections negative, \<open>init\<close> panics; in every other case,
  whatever the role, the process becomes a validator without a proposer, which connects to nobody, sends nothing and leaves no goroutine behind, so that
  \<open>main\<close>, waiting for a wait group at one, is ended by the runtime as a deadlock.\<close>

theorem run_script_idle:
  assumes "is_int64 sid" "is_int64 role" "is_int64 conns" "is_int64 msize" "is_int64 delay" "vgInst s = 0"
  shows "program_run nw mk en fuel vc pc logs (run_script (itoa sid) (itoa role) [] [] []) s = Inl (FlagError InvalidValue)
    \<and> (\<exists>r. program_run nw mk en fuel vc pc logs (run_script (itoa sid) (itoa role) (itoa conns) (itoa msize) (itoa delay)) s = Inr r
       \<and> (if files s localhost_conf = None \<or> scan_lines (the (files s localhost_conf)) = [] \<or> conns < 0
          then panics r else \<exists>t. r = Done [] t \<and> sent t = sent s \<and> main_wait [] t = AllAsleep))"
proof
  show "program_run nw mk en fuel vc pc logs (run_script (itoa sid) (itoa role) [] [] []) s = Inl (FlagError InvalidValue)"
    by (simp add: program_run_def run_script_refused [OF assms(1,2)])
  define q where "q = run_params sid role conns msize delay"
  let ?c = "cfg.truncate q" and ?f = "files s localhost_conf"
  let ?go = "bindG (program_main ?c) (start_role nw mk en ?c fuel vc pc)"
  let ?r = "thenG (program_init logs q) ?go s"
  have pl: "ProposerList ?c = []" by (simp add: q_def run_params_def flag_defaults_def cfg.truncate_def)
  have main: "\<exists>u. ?go t = Done [] u \<and> sent u = sent t \<and> vgInst u = vgInst t + 1" for t
  proof -
    let ?t = "t\<lparr>vgInst := vgInst t + 1, proposerLookup := (\<lambda>_. [])\<rparr>"
    have "program_main ?c t = Done False ?t" using pl by (simp add: program_main_def takingInitRoles_def)
    moreover obtain u where "runAsValidator nw en ?c ?t = Done [] u" "sent u = sent t" "vgInst u = vgInst t + 1"
      using validator_alone [of ?t nw en ?c] by auto
    ultimately show ?thesis unfolding bindG_Done [where m = "program_main ?c", OF \<open>program_main ?c t = Done False ?t\<close>] by (simp add: start_role_def)
  qed
  have "if ?f = None \<or> scan_lines (the ?f) = [] \<or> conns < 0 then panics ?r else \<exists>t. ?r = Done [] t \<and> sent t = sent s \<and> main_wait [] t = AllAsleep"
  proof (cases "?f = None \<or> scan_lines (the ?f) = [] \<or> conns < 0")
    case True
    then have "panics (program_init logs q s)" using run_init [OF q_def, of s logs] by simp
    then have "panics ?r" by (cases "program_init logs q s") (auto simp: panics_def)
    then show ?thesis unfolding if_P [OF True] .
  next
    case False
    then obtain t where t: "program_init logs q s = Done () t" "sent t = sent s" "vgInst t = vgInst s"
      using run_init [OF q_def, of s logs] by auto
    obtain u where "?go t = Done [] u" "sent u = sent t" "vgInst u = vgInst t + 1" using main by blast
    then have "?r = Done [] u" "sent u = sent s" "main_wait [] u = AllAsleep" using t assms(6) by (simp_all add: main_wait_def)
    then show ?thesis unfolding if_not_P [OF False] by blast
  qed
  moreover have "program_run nw mk en fuel vc pc logs (run_script (itoa sid) (itoa role) (itoa conns) (itoa msize) (itoa delay)) s = Inr ?r"
    by (simp add: program_run_def run_script_parsed [OF assms(1-5)] Let_def q_def [symmetric])
  ultimately show "\<exists>r. program_run nw mk en fuel vc pc logs (run_script (itoa sid) (itoa role) (itoa conns) (itoa msize) (itoa delay)) s = Inr r
       \<and> (if ?f = None \<or> scan_lines (the ?f) = [] \<or> conns < 0 then panics r else \<exists>t. r = Done [] t \<and> sent t = sent s \<and> main_wait [] t = AllAsleep)"
    by (intro exI [of _ ?r] conjI)
qed

section \<open>Witnesses\<close>

theorem run_script_idle_witness:
  "program_run open_network demo_mock demo_env 1 (\<lambda>_. []) (\<lambda>_. []) True (run_script (itoa 0) (itoa 0) [] [] []) init_node = Inl (FlagError InvalidValue)
   \<and> (\<exists>t. program_run open_network demo_mock demo_env 1 (\<lambda>_. []) (\<lambda>_. []) True (run_script (itoa 0) (itoa 0) (itoa 6) (itoa 32) (itoa 0))
        (init_node\<lparr>files := [localhost_conf \<mapsto> ''id ip'']\<rparr>) = Inr (Done [] t) \<and> main_wait [] t = AllAsleep)"
proof -
  have ints: "is_int64 0" "is_int64 6" "is_int64 32" by (simp_all add: is_int64_def)
  have "vgInst init_node = 0" "vgInst (init_node\<lparr>files := [localhost_conf \<mapsto> ''id ip'']\<rparr>) = 0" by (simp_all add: init_node_def)
  moreover have "scan_lines ''id ip'' \<noteq> []" by (simp add: scan_lines_def)
  ultimately have vg: "vgInst init_node = 0" "vgInst (init_node\<lparr>files := [localhost_conf \<mapsto> ''id ip'']\<rparr>) = 0" "scan_lines ''id ip'' \<noteq> []" .
  let ?s = "init_node\<lparr>files := [localhost_conf \<mapsto> ''id ip'']\<rparr>"
  have "\<not> (files ?s localhost_conf = None \<or> scan_lines (the (files ?s localhost_conf)) = [] \<or> (6 :: int) < 0)" using vg(3) by simp
  from run_script_idle [OF ints(1,1,2,3,1) vg(2), of open_network demo_mock demo_env 1 "\<lambda>_. []" "\<lambda>_. []" True, unfolded if_not_P [OF this]]
  obtain r t where r: "program_run open_network demo_mock demo_env 1 (\<lambda>_. []) (\<lambda>_. []) True (run_script (itoa 0) (itoa 0) (itoa 6) (itoa 32) (itoa 0)) ?s = Inr r"
    "r = Done [] t" "main_wait [] t = AllAsleep" by (elim conjE exE)
  show ?thesis
  proof (intro conjI exI [of _ t])
    show "program_run open_network demo_mock demo_env 1 (\<lambda>_. []) (\<lambda>_. []) True (run_script (itoa 0) (itoa 0) [] [] []) init_node = Inl (FlagError InvalidValue)"
      by (rule run_script_idle [OF ints(1,1,2,3,1) vg(1), THEN conjunct1])
  qed (use r(1,3) in \<open>simp_all only: r(2)\<close>)
qed

end
