(* ===== verification/Deadlock.thy ===== *)
theory Deadlock
  imports Comply
begin

text \<open>
  The handlers of an ordering entry and of its certificate as two goroutines that share the lock of \<open>cmtSnapshot\<close>: their critical
  sections as sequences of operations, an interleaving of any number of goroutines, and the certificate that comes between the two
  critical sections of \<open>validatingOAEntry\<close>.
\<close>

section \<open>Goroutines and the lock of \<open>cmtSnapshot\<close>\<close>

text \<open>
  A goroutine is what it still has to do. \<open>Do\<close> is a piece of code that no other handler disturbs; its result tells whether the handler goes
  on or returns. A piece that is blocked stays where it is, with whatever lock the goroutine holds.
\<close>

datatype op = Lock | Unlock | Do "node \<Rightarrow> (bool, node) outcome"

inductive thread_step :: "node \<times> nat option \<times> op list list \<Rightarrow> node \<times> nat option \<times> op list list \<Rightarrow> bool" where
  lock: "k < length ts \<Longrightarrow> ts ! k = Lock # r \<Longrightarrow> thread_step (s, None, ts) (s, Some k, ts[k := r])"
| unlock: "k < length ts \<Longrightarrow> ts ! k = Unlock # r \<Longrightarrow> thread_step (s, Some k, ts) (s, None, ts[k := r])"
| run: "k < length ts \<Longrightarrow> ts ! k = Do m # r \<Longrightarrow> m s = Done go s' \<Longrightarrow> thread_step (s, h, ts) (s', h, ts[k := if go then r else []])"

inductive_cases thread_stepE: "thread_step (s, h, ts) y"

text \<open>The process ends with a panic of one goroutine; or it is not finished, and nothing can move.\<close>

definition crashes :: "node \<times> nat option \<times> op list list \<Rightarrow> bool" where
  "crashes x \<longleftrightarrow> (case x of (s, h, ts) \<Rightarrow> \<exists>k < length ts. \<exists>m r p t. ts ! k = Do m # r \<and> m s = Panicked p t)"

definition deadlocked :: "node \<times> nat option \<times> op list list \<Rightarrow> bool" where
  "deadlocked x \<longleftrightarrow> (\<exists>t \<in> set (snd (snd x)). t \<noteq> []) \<and> (\<forall>y. \<not> thread_step x y) \<and> \<not> crashes x"

text \<open>A goroutine alone, its operations in a row.\<close>

fun thread_go :: "op list \<Rightarrow> (node, unit) go" where
  "thread_go [] = ret ()"
| "thread_go (Lock # r) = thread_go r"
| "thread_go (Unlock # r) = thread_go r"
| "thread_go (Do m # r) = bindG m (\<lambda>go. if go then thread_go r else ret ())"

section \<open>The two handlers\<close>

definition always :: "(node, unit) go \<Rightarrow> (node, bool) go" where
  "always m = thenG m (ret True)"

definition OA_put :: "ProposerOPAEntry \<Rightarrow> (node, unit) go" where
  "OA_put m = modG (\<lambda>s. s\<lparr>cmtSnapshot := nset (cmtSnapshot s) (opa_BlockchainId m) (opa_BlockId m) (OA_snapshot m)\<rparr>)"

definition OA_channel :: "ProposerOPAEntry \<Rightarrow> (node, unit) go" where
  "OA_channel m = thenG (modG (\<lambda>s. s\<lparr>valiOrdJobStack := nmake (valiOrdJobStack s) (opa_BlockchainId m)\<rparr>))
     (ord_job (opa_BlockchainId m) (opa_BlockId m))"

definition OA_thread :: "('sc, 'pt, 'pub) kyber \<Rightarrow> env \<Rightarrow> cfg \<Rightarrow> ProposerOPAEntry \<Rightarrow> dest option \<Rightarrow> op list" where
  "OA_thread ky en c m encoder =
     [Do (OA_register m), Lock, Do (always (OA_put m)), Do (always (OA_channel m)), Do (always (ord_job_send (opa_BlockchainId m) (opa_BlockId m))),
      Unlock, Do (always (OA_sign ky en c m encoder))]"

definition OB_check :: "('sc, 'pt, 'pub) kyber \<Rightarrow> cfg \<Rightarrow> ProposerOPBEntry \<Rightarrow> (node, bool) go" where
  "OB_check ky c m =
     bindG (fetchKeysByBoothId ky (getThreshold (int (length (Indices (opb_Booth m))))) (ServerID c) (ID (opb_Booth m)) (opb_BlockchainId m)) (\<lambda>(pub, pri).
       if \<not> PenVerify ky (opb_Hash m) (opb_CombSig m) pub then ret False
       else bindG (getG (\<lambda>s. nget (ordSnapshot s) (opb_BlockchainId m) (opb_BlockId m))) (\<lambda>f. ret (f \<noteq> None)))"

text \<open>Only \<open>validatingOAEntry\<close> and handlers that hold the lock put a block into \<open>cmtSnapshot\<close>, so the tests of \<open>OB_wait\<close> and \<open>OB_channel\<close>,
  which are one in the code, agree.\<close>

definition OB_channel :: "ProposerOPBEntry \<Rightarrow> (node, unit) go" where
  "OB_channel m = bindG (getG (\<lambda>s. nget (cmtSnapshot s) (opb_BlockchainId m) (opb_BlockId m))) (\<lambda>f.
     if f = None then ord_job (opb_BlockchainId m) (opb_BlockId m) else ret ())"

definition OB_wait :: "ProposerOPBEntry \<Rightarrow> (node, unit) go" where
  "OB_wait m = bindG (getG (\<lambda>s. nget (cmtSnapshot s) (opb_BlockchainId m) (opb_BlockId m))) (\<lambda>f.
     if f = None then ord_job_receive (opb_BlockchainId m) (opb_BlockId m) else ret ())"

definition OB_put :: "ProposerOPBEntry \<Rightarrow> (node, unit) go" where
  "OB_put m = bindG (getG (\<lambda>s. nget (cmtSnapshot s) (opb_BlockchainId m) (opb_BlockId m))) (\<lambda>g. case g of
     None \<Rightarrow> panicG NilDeref
   | Some frag \<Rightarrow> modG (\<lambda>s. s\<lparr>cmtSnapshot := nset (cmtSnapshot s) (opb_BlockchainId m) (opb_BlockId m) (frag\<lparr>tSig := opb_CombSig m\<rparr>)\<rparr>))"

definition OB_thread :: "('sc, 'pt, 'pub) kyber \<Rightarrow> cfg \<Rightarrow> ProposerOPBEntry \<Rightarrow> op list" where
  "OB_thread ky c m =
     [Do (OB_check ky c m), Lock, Do (always (OB_channel m)), Do (always (OB_wait m)), Do (always (OB_put m)), Unlock]"

text \<open>Undisturbed, they are the handlers of \<open>Comply\<close>; the certificate here is one that came on a connection.\<close>

lemma bindG_always: "bindG (always m) (\<lambda>go. if go then k else ret ()) = thenG m k"
  by (rule ext) (simp add: always_def thenG_def bindG_def split: outcome.split)

lemma thenG_unit: "thenG m (ret ()) = (m :: (node, unit) go)"
  by (rule ext) (simp add: thenG_def bindG_def split: outcome.split)

lemma thenG_assoc: "thenG (thenG m k) l = thenG m (thenG k l)"
  by (rule ext) (simp add: thenG_def bindG_def split: outcome.split)

theorem OA_thread_handler: "thread_go (OA_thread ky en c m encoder) = validatingOAEntry ky en c m encoder"
proof -
  have "thenG (OA_put m) (thenG (OA_channel m) (thenG (ord_job_send (opa_BlockchainId m) (opa_BlockId m)) (OA_sign ky en c m encoder)))
      = thenG (OA_store m) (OA_sign ky en c m encoder)"
    by (simp only: OA_put_def OA_channel_def OA_store_def thenG_assoc)
  then have "thread_go (OA_thread ky en c m encoder)
      = bindG (OA_register m) (\<lambda>go. if go then thenG (OA_store m) (OA_sign ky en c m encoder) else ret ())"
    by (simp only: OA_thread_def thread_go.simps bindG_always thenG_unit)
  moreover have "(\<lambda>go. if go then x else ret ()) = (\<lambda>go. if \<not> go then ret () else x)" for x :: "(node, unit) go" by auto
  ultimately show ?thesis by (simp only: validatingOAEntry_def)
qed

lemma ord_job_cmt: "ord_job b i s = Done u t \<Longrightarrow> cmtSnapshot t = cmtSnapshot s"
  by (auto simp: ord_job_def nputG_app split: option.splits if_splits)

lemma OB_attach_parts: "OB_attach m = thenG (OB_channel m) (thenG (OB_wait m) (OB_put m))"
proof
  fix s
  let ?b = "opb_BlockchainId m" and ?i = "opb_BlockId m"
  show "OB_attach m s = thenG (OB_channel m) (thenG (OB_wait m) (OB_put m)) s"
  proof (cases "nget (cmtSnapshot s) ?b ?i")
    case None
    then show ?thesis
    proof (cases "ord_job ?b ?i s")
      case (Done u t)
      then have "nget (cmtSnapshot t) ?b ?i = None" using None ord_job_cmt by metis
      then show ?thesis using None Done by (simp add: OB_attach_def OB_channel_def OB_wait_def OB_put_def thenG_def bindG_def getG_def split: outcome.split)
    qed (simp_all add: OB_attach_def OB_channel_def thenG_def bindG_def getG_def)
  next
    case (Some f)
    then show ?thesis by (simp add: OB_attach_def OB_channel_def OB_wait_def OB_put_def)
  qed
qed

theorem OB_thread_handler: "thread_go (OB_thread ky c m) = validatingOBEntry ky c m (Some d)"
proof
  fix s
  have "thread_go (OB_thread ky c m) = bindG (OB_check ky c m) (\<lambda>go. if go then OB_attach m else ret ())"
    by (simp only: OB_thread_def thread_go.simps bindG_always thenG_unit OB_attach_parts)
  then show "thread_go (OB_thread ky c m) s = validatingOBEntry ky c m (Some d) s"
    by (cases rule: fetchKeysByBoothId_cases [of ky "getThreshold (int (length (Indices (opb_Booth m))))" "ServerID c" "ID (opb_Booth m)" "opb_BlockchainId m" s])
      (simp_all add: OB_check_def validatingOBEntry_def bindG_def getG_def)
qed

section \<open>The certificate comes first\<close>

text \<open>The entry is registered and not yet stored, and the certificate's handler has the lock.\<close>

lemma certificate_gets_lock:
  assumes keys: "fetchKeysByBoothId ky (getThreshold (int (length (Indices (opb_Booth m))))) (ServerID c) (ID (opb_Booth m)) (opb_BlockchainId m) s = Done (pub, pri) s"
    and "PenVerify ky (opb_Hash m) (opb_CombSig m) pub"
    and same: "opa_BlockchainId e = opb_BlockchainId m" "opa_BlockId e = opb_BlockId m"
    and new: "nget (ordSnapshot s) (opb_BlockchainId m) (opb_BlockId m) = None"
    and s1: "s1 = s\<lparr>ordSnapshot := nset (ordSnapshot s) (opb_BlockchainId m) (opb_BlockId m) (OA_snapshot e)\<rparr>"
  shows "thread_step\<^sup>*\<^sup>* (s, None, OA_thread ky en c e encoder # OB_thread ky c m # rest)
    (s1, Some 1, drop 1 (OA_thread ky en c e encoder) # drop 2 (OB_thread ky c m) # rest)"
proof -
  let ?A = "OA_thread ky en c e encoder" and ?B = "OB_thread ky c m"
  have reg: "OA_register e s = Done True s1" using new same by (simp add: OA_register_def s1)
  have "fetchKeysByBoothId ky (getThreshold (int (length (Indices (opb_Booth m))))) (ServerID c) (ID (opb_Booth m)) (opb_BlockchainId m) s1 = Done (pub, pri) s1"
    by (rule fetchKeys_files [OF keys]) (simp add: s1)
  then have check: "OB_check ky c m s1 = Done True s1" using assms(2) by (simp add: OB_check_def s1)
  have "thread_step (s, None, ?A # ?B # rest) (s1, None, drop 1 ?A # ?B # rest)"
    using thread_step.run [of 0 "?A # ?B # rest" "OA_register e" "drop 1 ?A" s True s1 None] reg by (simp add: OA_thread_def)
  moreover have "thread_step (s1, None, drop 1 ?A # ?B # rest) (s1, None, drop 1 ?A # drop 1 ?B # rest)"
    using thread_step.run [of 1 "drop 1 ?A # ?B # rest" "OB_check ky c m" "drop 1 ?B" s1 True s1 None] check by (simp add: OB_thread_def)
  moreover have "thread_step (s1, None, drop 1 ?A # drop 1 ?B # rest) (s1, Some 1, drop 1 ?A # drop 2 ?B # rest)"
    using thread_step.lock [of 1 "drop 1 ?A # drop 1 ?B # rest" "drop 2 ?B" s1] by (simp add: OB_thread_def)
  ultimately show ?thesis by (meson converse_rtranclp_into_rtranclp rtranclp.rtrancl_refl)
qed

text \<open>Nobody moves when the one that has the lock waits for a token and all others wait for the lock.\<close>

lemma lock_held_waiting:
  assumes "k < length ts" "ts ! k = Do m # r" "m s = Blocked t" "\<forall>j < length ts. j \<noteq> k \<longrightarrow> (\<exists>r. ts ! j = Lock # r)"
  shows "deadlocked (s, Some k, ts)"
proof -
  have "\<not> thread_step (s, Some k, ts) y" for y
  proof
    assume "thread_step (s, Some k, ts) y"
    moreover have "\<not> (ts ! j = Do m' # r' \<and> m' s = Done go s')" if "j < length ts" for j m' r' go s'
      using assms that by (cases "j = k") fastforce+
    ultimately show False using assms(2) by (elim thread_stepE) auto
  qed
  moreover have "\<not> crashes (s, Some k, ts)"
  proof
    assume "crashes (s, Some k, ts)"
    then obtain j m' r' p t' where j: "j < length ts" "ts ! j = Do m' # r'" "m' s = Panicked p t'" by (auto simp: crashes_def)
    then show False using assms by (cases "j = k") fastforce+
  qed
  moreover have "ts ! k \<in> set ts" "ts ! k \<noteq> []" using nth_mem [OF assms(1)] assms(2) by simp_all
  ultimately show ?thesis unfolding deadlocked_def snd_conv by blast
qed

text \<open>C38: A certificate that is handled between the two critical sections of \<open>validatingOAEntry\<close> (its block is in \<open>ordSnapshot\<close> and not
  yet in \<open>cmtSnapshot\<close>) stops the validator, for good. For the first block of a chain its handler panics on a nil map, which ends the process.
  Otherwise it waits, holding the lock of \<open>cmtSnapshot\<close>, for a token that \<open>validatingOAEntry\<close> sends only after taking that lock: a reachable state
  in which neither of the two handlers, nor any other that needs the lock, can ever move again.\<close>

theorem certificate_before_store_deadlocks:
  assumes "fetchKeysByBoothId ky (getThreshold (int (length (Indices (opb_Booth m))))) (ServerID c) (ID (opb_Booth m)) (opb_BlockchainId m) s = Done (pub, pri) s"
    and "PenVerify ky (opb_Hash m) (opb_CombSig m) pub"
    and "opa_BlockchainId e = opb_BlockchainId m" "opa_BlockId e = opb_BlockId m"
    and "nget (ordSnapshot s) (opb_BlockchainId m) (opb_BlockId m) = None" and cmt: "nget (cmtSnapshot s) (opb_BlockchainId m) (opb_BlockId m) = None"
    and token: "nget (valiOrdJobStack s) (opb_BlockchainId m) (opb_BlockId m) \<noteq> Some 1"
    and rest: "\<forall>t \<in> set rest. \<exists>r. t = Lock # r"
  shows "(valiOrdJobStack s (opb_BlockchainId m) = None \<longrightarrow>
      (\<exists>y. thread_step\<^sup>*\<^sup>* (s, None, OA_thread ky en c e encoder # OB_thread ky c m # rest) y \<and> crashes y))
    \<and> (valiOrdJobStack s (opb_BlockchainId m) \<noteq> None \<longrightarrow>
      (\<exists>u. thread_step\<^sup>*\<^sup>* (s, None, OA_thread ky en c e encoder # OB_thread ky c m # rest)
          (u, Some 1, drop 1 (OA_thread ky en c e encoder) # drop 3 (OB_thread ky c m) # rest)
        \<and> deadlocked (u, Some 1, drop 1 (OA_thread ky en c e encoder) # drop 3 (OB_thread ky c m) # rest)))"
proof -
  let ?b = "opb_BlockchainId m" and ?i = "opb_BlockId m" and ?A = "OA_thread ky en c e encoder" and ?B = "OB_thread ky c m"
  let ?s1 = "s\<lparr>ordSnapshot := nset (ordSnapshot s) ?b ?i (OA_snapshot e)\<rparr>"
  have locked: "thread_step\<^sup>*\<^sup>* (s, None, ?A # ?B # rest) (?s1, Some 1, drop 1 ?A # drop 2 ?B # rest)"
    by (rule certificate_gets_lock [OF assms(1-5)]) simp
  have next_op: "(drop 1 ?A # drop 2 ?B # rest) ! 1 = Do (always (OB_channel m)) # drop 3 ?B" by (simp add: OB_thread_def)
  show ?thesis
  proof (intro conjI impI)
    assume none: "valiOrdJobStack s ?b = None"
    then have "nget (valiOrdJobStack s) ?b ?i = None" by (simp add: nget_def)
    then have "always (OB_channel m) ?s1 = Panicked NilMapWrite ?s1"
      using cmt none by (simp add: always_def OB_channel_def ord_job_def nputG_app)
    then have "crashes (?s1, Some 1, drop 1 ?A # drop 2 ?B # rest)"
      unfolding crashes_def split using next_op by (intro exI [of _ 1]) auto
    then show "\<exists>y. thread_step\<^sup>*\<^sup>* (s, None, ?A # ?B # rest) y \<and> crashes y" using locked by blast
  next
    assume some: "valiOrdJobStack s ?b \<noteq> None"
    obtain u where u: "always (OB_channel m) ?s1 = Done True u" "nget (cmtSnapshot u) ?b ?i = None" "nget (valiOrdJobStack u) ?b ?i \<noteq> Some 1"
      using cmt some token
      by (cases "nget (valiOrdJobStack s) ?b ?i") (simp_all add: always_def OB_channel_def ord_job_def nputG_app)
    have step: "thread_step (?s1, Some 1, drop 1 ?A # drop 2 ?B # rest) (u, Some 1, drop 1 ?A # drop 3 ?B # rest)"
      using thread_step.run [OF _ next_op u(1), of "Some 1"] by simp
    have wait: "always (OB_wait m) u = Blocked u" using u(2,3) by (simp add: always_def OB_wait_def ord_job_receive_def)
    have "deadlocked (u, Some 1, drop 1 ?A # drop 3 ?B # rest)"
    proof (rule lock_held_waiting [where m = "always (OB_wait m)" and r = "drop 4 ?B" and t = u])
      show "(drop 1 ?A # drop 3 ?B # rest) ! 1 = Do (always (OB_wait m)) # drop 4 ?B" by (simp add: OB_thread_def)
      show "\<forall>j < length (drop 1 ?A # drop 3 ?B # rest). j \<noteq> 1 \<longrightarrow> (\<exists>r. (drop 1 ?A # drop 3 ?B # rest) ! j = Lock # r)"
      proof (intro allI impI)
        fix j assume j: "j < length (drop 1 ?A # drop 3 ?B # rest)" "j \<noteq> 1"
        show "\<exists>r. (drop 1 ?A # drop 3 ?B # rest) ! j = Lock # r"
        proof (cases j)
          case 0
          then show ?thesis by (simp add: OA_thread_def)
        next
          case (Suc k)
          then obtain l where l: "j = Suc (Suc l)" "l < length rest" using j by (cases k) auto
          then show ?thesis using rest nth_mem [OF l(2)] by auto
        qed
      qed
    qed (use wait in simp_all)
    then show "\<exists>u. thread_step\<^sup>*\<^sup>* (s, None, ?A # ?B # rest) (u, Some 1, drop 1 ?A # drop 3 ?B # rest)
        \<and> deadlocked (u, Some 1, drop 1 ?A # drop 3 ?B # rest)"
      using rtranclp.rtrancl_into_rtrancl [OF locked step] by blast
  qed
qed

section \<open>Witness\<close>

text \<open>Block 7 of chain 10, of which another block was handled before; a third handler waits for the lock.\<close>

theorem certificate_before_store_deadlocks_witness:
  "\<exists>fs u. thread_step\<^sup>*\<^sup>* ((vali_node fs)\<lparr>valiOrdJobStack := nset Map.empty 10 3 0\<rparr>, None,
       [OA_thread demo_kyber demo_env vali_cfg vali_OA None, OB_thread demo_kyber vali_cfg (vali_OB [6, 6]), [Lock, Unlock]])
     (u, Some 1, [drop 1 (OA_thread demo_kyber demo_env vali_cfg vali_OA None), drop 3 (OB_thread demo_kyber vali_cfg (vali_OB [6, 6])), [Lock, Unlock]])
   \<and> deadlocked (u, Some 1, [drop 1 (OA_thread demo_kyber demo_env vali_cfg vali_OA None), drop 3 (OB_thread demo_kyber vali_cfg (vali_OB [6, 6])), [Lock, Unlock]])"
proof -
  obtain fs where keys: "\<And>s. files s = fs \<Longrightarrow> fetchKeysByBoothId demo_kyber (getThreshold (int (length (Indices vali_booth)))) (ServerID vali_cfg) (ID vali_booth) 10 s
     = Done ([7, 9], \<lparr>I = 12, V = 12\<rparr>) s" using vali_keys by blast
  let ?s = "(vali_node fs)\<lparr>valiOrdJobStack := nset Map.empty 10 3 0\<rparr>" and ?m = "vali_OB [6, 6]"
  have k: "fetchKeysByBoothId demo_kyber (getThreshold (int (length (Indices (opb_Booth ?m))))) (ServerID vali_cfg) (ID (opb_Booth ?m)) (opb_BlockchainId ?m) ?s
     = Done ([7, 9], \<lparr>I = 12, V = 12\<rparr>) ?s"
    using keys [of ?s] by (simp add: vali_OB_def vali_node_def)
  have pre: "PenVerify demo_kyber (opb_Hash ?m) (opb_CombSig ?m) [7, 9]" "opa_BlockchainId vali_OA = opb_BlockchainId ?m" "opa_BlockId vali_OA = opb_BlockId ?m"
    "nget (ordSnapshot ?s) (opb_BlockchainId ?m) (opb_BlockId ?m) = None" "nget (cmtSnapshot ?s) (opb_BlockchainId ?m) (opb_BlockId ?m) = None"
    "nget (valiOrdJobStack ?s) (opb_BlockchainId ?m) (opb_BlockId ?m) \<noteq> Some 1"
    by (simp_all add: PenVerify_def demo_kyber_def vali_OB_def vali_node_def init_node_def vali_OA_def nget_nset)
  have "valiOrdJobStack ?s (opb_BlockchainId ?m) \<noteq> None" by (simp add: vali_OB_def nset_def)
  moreover have "\<forall>t \<in> set [[Lock, Unlock]]. \<exists>r. t = Lock # r" by simp
  ultimately show ?thesis
    using certificate_before_store_deadlocks [OF k pre, of "[[Lock, Unlock]]" demo_env None] by blast
qed

end
