(* ===== verification/Spec2Isabelle.thy ===== *)
theory Spec2Isabelle
  imports Agreement Lifecycle Detours Races Workers Startup Deadlock
begin

text \<open>
  A verification library for V-Guard, a consensus service for vehicle networks written in Go.

  \<^bold>\<open>The program.\<close> A \<^emph>\<open>proposer\<close> (a road-side unit) collects transactions, orders them in blocks with a
  \<^emph>\<open>booth\<close> (itself and the vehicles present at the moment), and commits ranges of ordered blocks with the booth of a later
  moment. \<^emph>\<open>Validators\<close> (vehicles, and the other proposers) sign what they accept with shares of a threshold key that belongs to
  the booth. An ordering instance is an entry (OPA) to the booth, partial signatures back, and a certificate (OPB) to the booth; a commit
  instance is an entry (CPA) with a range of block ids and the digest of their hashes, partial signatures, and a certificate (CPB).
  Members that were not in the ordering booth of a block get its certificate and entries with the commit entry. Where a vehicle is out of reach
  of a proposer, messages go a detour over another proposer.

  \<^bold>\<open>The model.\<close> One running process is a record \<open>node\<close> (theory Globals) with one field per package-level variable of the program. Code is
  translated to functions of the type \<open>('s, 'a) go\<close> (theory Prelude): from a state to \<open>Done\<close> with a result and the new state,
  \<open>Panicked\<close> with the state a panic leaves, or \<open>Blocked\<close> for a goroutine that waits for ever. So every nil dereference, write to a nil map, index out of
  range, division by zero and full or empty channel is a value. A send appends to the log \<open>sent\<close>; the result of its \<open>Encode\<close>, the
  clock, the file system of the simulator, SHA-256 and the order in which \<open>range\<close> visits a map are the parameter \<open>env\<close>, the
  pairing cryptography of kyber is the parameter \<open>kyber\<close>, TCP is the parameter \<open>network\<close>, the random numbers of the workload
  \<open>mock\<close>. Block ids and times are 64-bit words, other Go \<open>int\<close>s are unbounded.

  \<^bold>\<open>Theories.\<close>
  \<^item> Prelude, Go_Std: outcomes, loops, nested maps, preservation of a predicate by an operation (\<open>pres\<close>); decimal and hexadecimal text, splitting,
    line scanning, JSON of the two types the program serialises (\<open>utilities.go\<close>).
  \<^item> Messages, Globals: \<open>msgformat.go\<close>, the phases of \<open>parameters.go\<close>; \<open>cache.go\<close>, \<open>state.go\<close>.
  \<^item> Keys: \<open>keyGen/generator.go\<close> and \<open>tsigs.go\<close>. What the generator writes, the readers read.
  \<^item> Mmu: the booth registry, the choice of the booth and the time maps of \<open>mmu.go\<close>. A registry that numbers requests is the locale
    \<open>booth_registry\<close>, interpreted on \<open>checkExactMatchInBooMgr\<close>.
  \<^item> Routing: the broadcasts and detours of \<open>mmu.go\<close>, \<open>dialSendBack\<close> of \<open>handlers.go\<close>, the relay of \<open>connsprop.go\<close>. Exactly which messages
    are sent, on every branch (\<open>log_step\<close>, \<open>sends\<close>). \<open>audible\<close> and \<open>answers\<close> say that messages go directly, with the check of the
    paths off or on (the default); the theorems on whole instances hold in both configurations.
  \<^item> Metre: \<open>perfmetres.go\<close>.
  \<^item> Ordering, Workers: \<open>vordering.go\<close>. The recorder is an instance of the locale \<open>fifo_log\<close>, the collection of votes of \<open>vote_collector\<close>;
    what a worker puts on the chain, in both modes, whatever happens to it; and the interleavings of several workers.
  \<^item> Consensus: \<open>vconsensus.go\<close>. A turn of the loop, what a range commits and to whom it is sent; the votes, an
    instance of \<open>vote_collector\<close> again, and the system of interleaved goroutines that handle the replies.
  \<^item> Comply: \<open>comply.go\<close>, the four handlers of a validator. Deadlock: the two handlers of an ordering instance as goroutines that share the lock of
    \<open>cmtSnapshot\<close>, proved to be the handlers of Comply when they run alone.
  \<^item> Loadconf, Conns, Roles, Workload: \<open>loadconf.go\<close>, the parameters, \<open>handlers.go\<close>, \<open>connsprop.go\<close>, \<open>connsvldr.go\<close>, \<open>main.go\<close>,
    the generator of \<open>utilities.go\<close>. Flags, Report: the command lines of V-Guard and of the key generator with Go's package \<open>flag\<close>; \<open>logger.go\<close>, the
    information board and \<open>storeVgTx\<close>. Goroutines are values of the type \<open>job\<close>, returned by what starts them. Startup: a whole process, from the
    arguments over \<open>init\<close> and \<open>main\<close> to the goroutines that are left, and how \<open>main\<close> ends.
  \<^item> Activity: a process as a transition system (\<open>process_step\<close>), whose steps are all the operations above, with any message; invariants of every reachable state.
  \<^item> Rounds, Commits: a whole ordering instance, from the buffer of a worker to the certificate at the members, and a whole commit instance, from the
    recorded blocks to the accepted certificate, with one state for the proposer and one for every validator. The commit booth may
    differ from the ordering booth: a new member gets the ordering certificates with the commit entry.
  \<^item> Lifecycle: both phases in a row. A batch is ordered by one booth and committed by the booth of a later moment; the proposer and the
    validators start from any states with the stated fields, and the keys are those the generator has written for each booth.
  \<^item> Detours: a member the proposer does not hear takes part through another proposer, from the broadcast over the relay and the receive loop to the
    vote, its way back, and the certificate.
  \<^item> Races: a consensus turn between the record of an ordered block and its certificate.
  \<^item> Agreement: one vote per block in the whole run of a validator, and no two quorums of a booth that vote for different blocks under one id, by the
    locale \<open>voting\<close>. The agreement is about votes: a signature covers the digest of the entries and not the id or the chain, so
    a certificate can be shown for another id (\<open>OB_hash_not_compared\<close>).

  \<^bold>\<open>What the lemmas show.\<close> The instances of Rounds and Commits reach their certificates whenever a quorum answers, and a batch goes from the buffer of a worker to the
  accepted commit; a member out of reach votes by detour; the recorder, the registry and the
  votes refine their abstract specifications; the workers keep every transaction exactly once, in order; a validator answers a block id once
  and keeps what it stored, so that two quorums of a booth agree; a stored block is changed by a certificate only in its signature, and only if that verifies; the start-up waits for the expected number of recognised connections; the configuration,
  the command line and the keys read back as written. Properties of the kind \<open>error\<close> show, on the code as it is, where it does not: two workers that take one id, two certificates for one commit instance,
  a lost commit vote, a certificate that deadlocks its validator, a block signed by members that never get it, a failed recovery that cannot be repeated, a failed send that ends all broadcasts, booths that share a hash, a start script that starts no proposer. What a worker does with its whole workload is stated for a single worker, since several lose blocks to each other.

  \<^bold>\<open>Loops.\<close> Structural recursion where the source has a \<open>range\<close>; the receive loops and the time-driven loop run over a finite
  sequence of what \<open>Decode\<close>, \<open>AcceptTCP\<close> or \<open>select\<close> yield. \<open>getBoothID\<close> (a booth with at least three vehicles), the consensus
  loop and the wait for the start time take fuel, and yield \<open>Blocked\<close> when it is used up: \<open>getBoothID_returns\<close> and
  \<open>idle_proposer_terminates\<close> say exactly how much is enough.

  \<^bold>\<open>Atomicity.\<close> An operation of \<open>process_step\<close> runs as a whole. Where the code releases its locks in between and the outcome depends on it, the critical
  sections are separate definitions and interleave: \<open>cpa_sys\<close> for the commit votes, \<open>workers_step\<close> for the workers, \<open>ob_record\<close> and \<open>ob_store\<close> with a consensus turn in between
  for an ordered block, and \<open>thread_step\<close>, with the lock held across the wait, for a certificate between the two sections of
  \<open>validatingOAEntry\<close>. Slices are values; where goroutines append to slices that may share an array, \<open>cpa_sys\<close> lets an append change the list of another. The accept loops of one stage of the start-up run one after the other; they write different entries. A goroutine that waits is not resumed.

  \<^bold>\<open>Not modelled.\<close> The log lines of the handlers, and the formats of logrus; gob and TCP themselves;
  sleeps; the Python, shell and data files of the repository.
\<close>

end
